(* ===== verification/Prelude.thy ===== *)
theory Prelude
  imports Complex_Main "HOL-Library.Word"
begin

text \<open>
  Shared vocabulary of the development: the fixed-width integer types of the C++ sources, the
  collections of simplification rules the component theories fill, and generic facts on lists,
  options and words that more than one component uses.
\<close>

unbundle bit_operations_syntax

section \<open>Machine types\<close>

type_synonym uint8 = "8 word"
type_synonym uint16 = "16 word"
type_synonym uint32 = "32 word"
type_synonym uint64 = "64 word"

text \<open>
  \<open>std::size_t\<close> is a 64-bit unsigned integer on the supported targets. Counters that the code
  only ever increments wrap around and are modelled as words; indices and sizes that the code
  keeps below a capacity are natural numbers.
\<close>

type_synonym size_t = "64 word"

text \<open>\<open>std::byte\<close> is an octet.\<close>

type_synonym byte = "8 word"

section \<open>Rule collections\<close>

named_theorems byte_simps \<open>splitting words into bytes and joining bytes to words\<close>

section \<open>Counting in lists\<close>

text \<open>Counting the elements of a list that satisfy a predicate, under an update.\<close>

definition count_if :: "('a \<Rightarrow> bool) \<Rightarrow> 'a list \<Rightarrow> nat" where
  "count_if P xs = length (filter P xs)"

lemma count_if_update:
  "i < length xs \<Longrightarrow> count_if P (xs[i := x]) + of_bool (P (xs ! i)) = count_if P xs + of_bool (P x)"
proof (induction xs arbitrary: i)
  case (Cons y ys)
  then show ?case by (cases i) (auto simp: count_if_def)
qed simp

lemma count_if_pos: "i < length xs \<Longrightarrow> P (xs ! i) \<Longrightarrow> 0 < count_if P xs"
  unfolding count_if_def by (metis filter_empty_conv length_greater_0_conv nth_mem)

lemma count_if_0_iff: "count_if P xs = 0 \<longleftrightarrow> (\<forall>i < length xs. \<not> P (xs ! i))"
  by (auto simp: count_if_def filter_empty_conv all_set_conv_all_nth)

lemma count_if_map: "count_if P (map f xs) = count_if (P \<circ> f) xs"
  by (simp add: count_if_def filter_map)

lemma count_if_mono: "(\<And>x. P x \<Longrightarrow> Q x) \<Longrightarrow> count_if P xs \<le> count_if Q xs"
  by (induction xs) (auto simp: count_if_def)

lemma count_if_replicate: "count_if P (replicate n x) = (if P x then n else 0)"
  by (simp add: count_if_def)

text \<open>In the sorted list at least \<open>k + 1\<close> elements are not above the one at \<open>k\<close>.\<close>

lemma count_if_sorted:
  fixes xs :: "'a::linorder list"
  assumes "k < length xs"
  shows "k < count_if (\<lambda>x. x \<le> sort xs ! k) xs"
proof -
  let ?ys = "sort xs" and ?P = "\<lambda>x. x \<le> sort xs ! k"
  have k: "k < length ?ys" using assms by simp
  have "filter ?P (take (Suc k) ?ys) = take (Suc k) ?ys"
  proof (rule filter_True, rule)
    fix x assume "x \<in> set (take (Suc k) ?ys)"
    then obtain i where "i \<le> k" "x = ?ys ! i" using k by (auto simp: in_set_conv_nth less_Suc_eq_le)
    then show "x \<le> ?ys ! k" using k by (simp add: sorted_nth_mono)
  qed
  moreover have "length (filter ?P ?ys) =
      length (filter ?P (take (Suc k) ?ys)) + length (filter ?P (drop (Suc k) ?ys))"
    by (simp only: filter_append [symmetric] length_append [symmetric] append_take_drop_id)
  ultimately have "k < length (filter ?P ?ys)" using k by simp
  then show ?thesis by (simp add: filter_sort count_if_def)
qed

text \<open>Adding up a quantity over a list, under an update.\<close>

lemma sum_list_update_add:
  fixes f :: "'a \<Rightarrow> 'b::comm_monoid_add"
  shows "i < length xs \<Longrightarrow> sum_list (map f (xs[i := x])) + f (xs ! i) = sum_list (map f xs) + f x"
proof (induction xs arbitrary: i)
  case (Cons y ys)
  then show ?case by (cases i) (auto simp: ac_simps)
qed simp

section \<open>Runs: the newest-first prefix of a history that satisfies a predicate\<close>

definition run_length :: "('a \<Rightarrow> bool) \<Rightarrow> 'a list \<Rightarrow> nat" where
  "run_length P hist = length (takeWhile P hist)"

lemma run_length_Nil [simp]: "run_length P [] = 0"
  by (simp add: run_length_def)

lemma run_length_Cons [simp]:
  "run_length P (x # hist) = (if P x then Suc (run_length P hist) else 0)"
  by (simp add: run_length_def)

lemma run_length_le: "run_length P hist \<le> length hist"
  by (simp add: run_length_def length_takeWhile_le)

text \<open>A run of length \<open>n\<close> means that the newest \<open>n\<close> entries all satisfy the predicate.\<close>

lemma run_length_ge_iff:
  "n \<le> run_length P hist \<longleftrightarrow> n \<le> length hist \<and> (\<forall>x \<in> set (take n hist). P x)"
proof (induction hist arbitrary: n)
  case Nil
  show ?case by auto
next
  case (Cons x hist)
  show ?case by (cases n) (auto simp: Cons.IH)
qed

section \<open>Counters kept in machine words\<close>

lemma unat_Suc_if_less:
  fixes c b :: "'a::len word"
  assumes "unat c < unat b"
  shows "unat (c + 1) = Suc (unat c)"
proof -
  have "unat c + 1 < 2 ^ LENGTH('a)"
    using assms unsigned_less [of b, where ?'a = nat] by linarith
  then show ?thesis by (simp add: unat_word_ariths)
qed

section \<open>Words and their bytes\<close>

text \<open>
  The expressions \<open>static_cast<std::byte>((w >> n) & 0xFF)\<close> and, for two and four bytes in
  big-endian order, \<open>b0 << 8 | b1\<close> and \<open>b0 << 24 | b1 << 16 | b2 << 8 | b3\<close>.
\<close>

definition byte_at :: "nat \<Rightarrow> 'a::len word \<Rightarrow> byte" where
  "byte_at n w = ucast (drop_bit n w AND 0xFF)"

definition join16 :: "byte \<Rightarrow> byte \<Rightarrow> uint16" where
  "join16 b0 b1 = push_bit 8 (ucast b0) OR ucast b1"

definition join32 :: "byte \<Rightarrow> byte \<Rightarrow> byte \<Rightarrow> byte \<Rightarrow> uint32" where
  "join32 b0 b1 b2 b3 =
     push_bit 24 (ucast b0) OR push_bit 16 (ucast b1) OR push_bit 8 (ucast b2) OR ucast b3"

lemma bit_0xFF: "bit (0xFF :: 'a::len word) n \<longleftrightarrow> n < LENGTH('a) \<and> n < 8"
proof -
  have "(0xFF :: 'a word) = mask 8" by (simp add: mask_eq_exp_minus_1)
  then show ?thesis by (simp only: bit_mask_iff) auto
qed

lemma bit_byte_at: "bit (byte_at n w) i \<longleftrightarrow> i < 8 \<and> bit w (n + i)"
  unfolding byte_at_def bit_ucast_iff bit_and_iff bit_drop_bit_eq bit_0xFF
  by (auto simp: ac_simps dest: bit_imp_le_length)

lemma bit_join16:
  "bit (join16 b0 b1) n \<longleftrightarrow> n < 16 \<and> (if n < 8 then bit b1 n else bit b0 (n - 8))"
  unfolding join16_def bit_or_iff bit_push_bit_iff bit_ucast_iff
  by (auto dest: bit_imp_le_length)

lemma bit_join32:
  "bit (join32 b0 b1 b2 b3) n \<longleftrightarrow> n < 32 \<and>
     (if n < 8 then bit b3 n else if n < 16 then bit b2 (n - 8)
      else if n < 24 then bit b1 (n - 16) else bit b0 (n - 24))"
  unfolding join32_def bit_or_iff bit_push_bit_iff bit_ucast_iff
  by (auto dest: bit_imp_le_length)

lemma join16_byte_at [byte_simps]: "join16 (byte_at 8 w) (byte_at 0 w) = w"
  by (rule bit_eqI) (auto simp: bit_join16 bit_byte_at)

lemma join32_byte_at [byte_simps]:
  "join32 (byte_at 24 w) (byte_at 16 w) (byte_at 8 w) (byte_at 0 w) = w"
  by (rule bit_eqI) (auto simp: bit_join32 bit_byte_at)

text \<open>The number two bytes stand for, the first one being the more significant.\<close>

lemma uint_join16: "uint (join16 b0 b1) = 256 * uint b0 + uint b1"
proof -
  have "push_bit 8 (ucast b0 :: 16 word) AND ucast b1 = 0"
    by (rule bit_eqI) (auto simp: bit_and_iff bit_push_bit_iff bit_ucast_iff dest: bit_imp_le_length)
  then have "join16 b0 b1 = push_bit 8 (ucast b0) + ucast b1"
    unfolding join16_def by (simp add: disjunctive_add_eq_or)
  also have "\<dots> = word_of_int (256 * uint b0 + uint b1)"
    by (simp add: push_bit_eq_mult mult.commute)
  finally have eq: "join16 b0 b1 = word_of_int (256 * uint b0 + uint b1)" .
  show ?thesis
    unfolding eq uint_word_of_int using uint_bounded [of b0] uint_bounded [of b1] by simp
qed

lemma sint_join16: "sint (join16 b0 b1) = 256 * sint b0 + uint b1"
proof -
  have "(256 * a + b + 32768) mod 65536 = 256 * ((a + 128) mod 256) + b"
    if "0 \<le> a" "a < 256" "0 \<le> b" "b < 256" for a b :: int
  proof (cases "a < 128")
    case False
    have "(256 * a + b + 32768) mod 65536 = 256 * a + b - 32768"
      by (rule int_mod_pos_eq [where q = 1]) (use that False in simp_all)
    moreover have "(a + 128) mod 256 = a - 128" by (rule int_mod_pos_eq [where q = 1]) (use that False in simp_all)
    ultimately show ?thesis by simp
  qed (use that in simp)
  from this [of "uint b0" "uint b1"] show ?thesis
    using uint_bounded [of b1] uint_bounded [of b0]
    by (simp add: sint_uint uint_join16 signed_take_bit_eq_take_bit_shift take_bit_eq_mod)
qed

lemma byte_at_join16 [byte_simps]:
  "byte_at 8 (join16 b0 b1) = b0" "byte_at 0 (join16 b0 b1) = b1"
  by (rule bit_eqI; auto simp: bit_join16 bit_byte_at)+

lemma byte_at_join32 [byte_simps]:
  "byte_at 24 (join32 b0 b1 b2 b3) = b0" "byte_at 16 (join32 b0 b1 b2 b3) = b1"
  "byte_at 8 (join32 b0 b1 b2 b3) = b2" "byte_at 0 (join32 b0 b1 b2 b3) = b3"
  by (rule bit_eqI; auto simp: bit_join32 bit_byte_at)+

end
