(* ===== verification/Bounded_Queue.thy ===== *)
theory Bounded_Queue
  imports Prelude
begin

text \<open>
  The ring buffer queue of \<open>include/edge_sentinel/concurrency/bounded_queue.hpp\<close>. Every method runs
  under the queue's mutex, so it is one atomic function on the queue record. A method that waits
  on a condition variable returns only when its predicate holds or its timeout has expired: its
  model returns \<open>None\<close> while the caller has to keep waiting, and takes a flag that says whether the
  timeout has expired. The waiting itself, with its notifications, is the subject of the theory
  \<open>Queue_Waiters\<close>.
\<close>

section \<open>Model\<close>

datatype QueuePushResult = pushed | full | timeout | closed

text \<open>
  The three bounded statistics are natural numbers; the four event counters are \<open>std::size_t\<close> and
  wrap around.
\<close>

record QueueStats =
  st_capacity :: nat
  st_size :: nat
  st_high_watermark :: nat
  st_pushed :: size_t
  st_popped :: size_t
  st_rejected_full :: size_t
  st_push_timeouts :: size_t

definition QueueStats_default :: QueueStats where
  "QueueStats_default =
     \<lparr>st_capacity = 0, st_size = 0, st_high_watermark = 0, st_pushed = 0, st_popped = 0,
      st_rejected_full = 0, st_push_timeouts = 0\<rparr>"

record 'a BoundedQueue =
  q_slots :: "'a option list"
  q_head :: nat
  q_tail :: nat
  q_size :: nat
  q_closed :: bool
  q_stats :: QueueStats

text \<open>The template parameter \<open>Capacity\<close> is the length of the slot array.\<close>

abbreviation Capacity :: "'a BoundedQueue \<Rightarrow> nat" where
  "Capacity q \<equiv> length (q_slots q)"

definition BoundedQueue_init :: "nat \<Rightarrow> 'a BoundedQueue" where
  "BoundedQueue_init cap =
     \<lparr>q_slots = replicate cap None, q_head = 0, q_tail = 0, q_size = 0, q_closed = False,
      q_stats = QueueStats_default\<rparr>"

definition push_locked :: "'a BoundedQueue \<Rightarrow> 'a \<Rightarrow> 'a BoundedQueue" where
  "push_locked q v =
     (let q = q\<lparr>q_slots := (q_slots q)[q_tail q := Some v]\<rparr>;
          q = q\<lparr>q_tail := (q_tail q + 1) mod Capacity q\<rparr>;
          q = q\<lparr>q_size := q_size q + 1\<rparr>;
          q = q\<lparr>q_stats := (q_stats q)\<lparr>st_pushed := st_pushed (q_stats q) + 1\<rparr>\<rparr>
      in if st_high_watermark (q_stats q) < q_size q
         then q\<lparr>q_stats := (q_stats q)\<lparr>st_high_watermark := q_size q\<rparr>\<rparr> else q)"

definition pop_locked :: "'a BoundedQueue \<Rightarrow> 'a option \<times> 'a BoundedQueue" where
  "pop_locked q =
     (let v = q_slots q ! q_head q;
          q = q\<lparr>q_slots := (q_slots q)[q_head q := None]\<rparr>;
          q = q\<lparr>q_head := (q_head q + 1) mod Capacity q\<rparr>;
          q = q\<lparr>q_size := q_size q - 1\<rparr>;
          q = q\<lparr>q_stats := (q_stats q)\<lparr>st_popped := st_popped (q_stats q) + 1\<rparr>\<rparr>
      in (v, q))"

definition try_push :: "'a BoundedQueue \<Rightarrow> 'a \<Rightarrow> QueuePushResult \<times> 'a BoundedQueue" where
  "try_push q v =
     (if q_closed q then (QueuePushResult.closed, q)
      else if q_size q = Capacity q
      then (QueuePushResult.full,
            q\<lparr>q_stats := (q_stats q)\<lparr>st_rejected_full := st_rejected_full (q_stats q) + 1\<rparr>\<rparr>)
      else (QueuePushResult.pushed, push_locked q v))"

definition wait_push ::
    "'a BoundedQueue \<Rightarrow> 'a \<Rightarrow> bool \<Rightarrow> (QueuePushResult \<times> 'a BoundedQueue) option" where
  "wait_push q v expired =
     (let ready = (q_closed q \<or> q_size q < Capacity q) in
      if \<not> ready \<and> \<not> expired then None
      else if \<not> ready
      then Some (QueuePushResult.timeout,
            q\<lparr>q_stats := (q_stats q)\<lparr>st_push_timeouts := st_push_timeouts (q_stats q) + 1\<rparr>\<rparr>)
      else if q_closed q then Some (QueuePushResult.closed, q)
      else Some (QueuePushResult.pushed, push_locked q v))"

definition try_pop :: "'a BoundedQueue \<Rightarrow> 'a option \<times> 'a BoundedQueue" where
  "try_pop q = (if q_size q = 0 then (None, q) else pop_locked q)"

definition wait_pop :: "'a BoundedQueue \<Rightarrow> ('a option \<times> 'a BoundedQueue) option" where
  "wait_pop q =
     (if \<not> (q_closed q \<or> 0 < q_size q) then None
      else if q_size q = 0 then Some (None, q)
      else Some (pop_locked q))"

definition wait_pop_for :: "'a BoundedQueue \<Rightarrow> bool \<Rightarrow> ('a option \<times> 'a BoundedQueue) option" where
  "wait_pop_for q expired =
     (let ready = (q_closed q \<or> 0 < q_size q) in
      if \<not> ready \<and> \<not> expired then None
      else if \<not> ready \<or> q_size q = 0 then Some (None, q)
      else Some (pop_locked q))"

definition close :: "'a BoundedQueue \<Rightarrow> 'a BoundedQueue" where
  "close q = q\<lparr>q_closed := True\<rparr>"

definition is_closed :: "'a BoundedQueue \<Rightarrow> bool" where
  "is_closed q = q_closed q"

definition queue_stats :: "'a BoundedQueue \<Rightarrow> QueueStats" where
  "queue_stats q = (q_stats q)\<lparr>st_capacity := Capacity q, st_size := q_size q\<rparr>"

section \<open>Abstraction and invariant\<close>

text \<open>The queued values, oldest first, are found at \<open>size\<close> slots from \<open>head\<close> on, cyclically.\<close>

definition slot_index :: "'a BoundedQueue \<Rightarrow> nat \<Rightarrow> nat" where
  "slot_index q i = (q_head q + i) mod Capacity q"

definition queue_items :: "'a BoundedQueue \<Rightarrow> 'a list" where
  "queue_items q = map (\<lambda>i. the (q_slots q ! slot_index q i)) [0..<q_size q]"

text \<open>
  Exactly the slots in use hold a value, the tail is where the next value goes, and the statistics
  agree with the contents; the difference of the two wrapping counters is the size.
\<close>

definition queue_inv :: "'a BoundedQueue \<Rightarrow> bool" where
  "queue_inv q \<longleftrightarrow>
     0 < Capacity q \<and> q_head q < Capacity q \<and> q_size q \<le> Capacity q \<and>
     q_tail q = slot_index q (q_size q) \<and>
     (\<forall>i < Capacity q. (q_slots q ! slot_index q i \<noteq> None) = (i < q_size q)) \<and>
     q_size q \<le> st_high_watermark (q_stats q) \<and>
     st_high_watermark (q_stats q) \<le> Capacity q \<and>
     st_pushed (q_stats q) - st_popped (q_stats q) = of_nat (q_size q)"

text \<open>The specification: a list with a limit.\<close>

record 'a fifo =
  f_items :: "'a list"
  f_limit :: nat
  f_closed :: bool

definition abs_queue :: "'a BoundedQueue \<Rightarrow> 'a fifo" where
  "abs_queue q = \<lparr>f_items = queue_items q, f_limit = Capacity q, f_closed = q_closed q\<rparr>"

definition fifo_push :: "'a fifo \<Rightarrow> 'a \<Rightarrow> QueuePushResult \<Rightarrow> QueuePushResult \<times> 'a fifo" where
  "fifo_push f v no_room =
     (if f_closed f then (QueuePushResult.closed, f)
      else if length (f_items f) = f_limit f then (no_room, f)
      else (QueuePushResult.pushed, f\<lparr>f_items := f_items f @ [v]\<rparr>))"

definition fifo_pop :: "'a fifo \<Rightarrow> 'a option \<times> 'a fifo" where
  "fifo_pop f =
     (case f_items f of [] \<Rightarrow> (None, f) | v # vs \<Rightarrow> (Some v, f\<lparr>f_items := vs\<rparr>))"

text \<open>Sequences of operations, and the values they accept and deliver.\<close>

datatype 'a queue_op =
    TryPush 'a
  | WaitPush 'a bool
  | TryPop
  | WaitPop
  | WaitPopFor bool
  | Close

definition taken :: "'a \<Rightarrow> QueuePushResult \<Rightarrow> 'a list" where
  "taken v r = (if r = QueuePushResult.pushed then [v] else [])"

definition given :: "'a option \<Rightarrow> 'a list" where
  "given r = (case r of None \<Rightarrow> [] | Some v \<Rightarrow> [v])"

text \<open>One operation: values accepted, values delivered, new queue; a waiting caller does nothing.\<close>

fun queue_do :: "'a BoundedQueue \<Rightarrow> 'a queue_op \<Rightarrow> 'a list \<times> 'a list \<times> 'a BoundedQueue" where
  "queue_do q (TryPush v) = (let (r, q') = try_push q v in (taken v r, [], q'))"
| "queue_do q (WaitPush v expired) =
     (case wait_push q v expired of None \<Rightarrow> ([], [], q) | Some (r, q') \<Rightarrow> (taken v r, [], q'))"
| "queue_do q TryPop = (let (r, q') = try_pop q in ([], given r, q'))"
| "queue_do q WaitPop =
     (case wait_pop q of None \<Rightarrow> ([], [], q) | Some (r, q') \<Rightarrow> ([], given r, q'))"
| "queue_do q (WaitPopFor expired) =
     (case wait_pop_for q expired of None \<Rightarrow> ([], [], q) | Some (r, q') \<Rightarrow> ([], given r, q'))"
| "queue_do q Close = ([], [], close q)"

fun queue_run :: "'a BoundedQueue \<Rightarrow> 'a queue_op list \<Rightarrow> 'a list \<times> 'a list \<times> 'a BoundedQueue" where
  "queue_run q [] = ([], [], q)"
| "queue_run q (x # xs) =
     (let (a, d, q') = queue_do q x; (as, ds, q'') = queue_run q' xs in (a @ as, d @ ds, q''))"

text \<open>
  A consumer's loop \<open>while (auto v = get())\<close>, for at most \<open>n\<close> rounds: the values it obtained and the
  final state, or \<open>None\<close> if it is still waiting or has not finished.
\<close>

fun drain :: "('q \<Rightarrow> ('a option \<times> 'q) option) \<Rightarrow> nat \<Rightarrow> 'q \<Rightarrow> ('a list \<times> 'q) option" where
  "drain get 0 q = None"
| "drain get (Suc n) q =
     (case get q of
        None \<Rightarrow> None
      | Some (None, q') \<Rightarrow> Some ([], q')
      | Some (Some v, q') \<Rightarrow> map_option (\<lambda>(vs, q''). (v # vs, q'')) (drain get n q'))"

section \<open>The ring\<close>

lemma length_queue_items [simp]: "length (queue_items q) = q_size q"
  by (simp add: queue_items_def)

lemma mod_add_inject:
  fixes h i j n :: nat
  assumes "i < n" and "j < n"
  shows "(h + i) mod n = (h + j) mod n \<longleftrightarrow> i = j"
proof
  assume "(h + i) mod n = (h + j) mod n"
  then have "i mod n = j mod n" by (simp add: nat_mod_eq_iff)
  then show "i = j" using assms by simp
qed simp

lemma slot_index_less: "queue_inv q \<Longrightarrow> slot_index q i < Capacity q"
  by (simp add: slot_index_def queue_inv_def)

lemma slot_index_inject:
  "i < Capacity q \<Longrightarrow> j < Capacity q \<Longrightarrow> slot_index q i = slot_index q j \<longleftrightarrow> i = j"
  unfolding slot_index_def by (rule mod_add_inject)

lemma slot_index_0: "queue_inv q \<Longrightarrow> slot_index q 0 = q_head q"
  by (simp add: slot_index_def queue_inv_def)

lemma slot_index_Capacity: "queue_inv q \<Longrightarrow> slot_index q (Capacity q) = q_head q"
  by (simp add: slot_index_def queue_inv_def)

lemma queue_inv_slots:
  "queue_inv q \<Longrightarrow> i < Capacity q \<Longrightarrow> (q_slots q ! slot_index q i \<noteq> None) = (i < q_size q)"
  by (simp add: queue_inv_def)

lemma queue_inv_bounds:
  "queue_inv q \<Longrightarrow> 0 < Capacity q" "queue_inv q \<Longrightarrow> q_head q < Capacity q"
  "queue_inv q \<Longrightarrow> q_size q \<le> Capacity q"
  by (auto simp: queue_inv_def)

lemma push_locked_simps [simp]:
  "q_slots (push_locked q v) = (q_slots q)[q_tail q := Some v]"
  "q_head (push_locked q v) = q_head q"
  "q_tail (push_locked q v) = Suc (q_tail q) mod Capacity q"
  "q_size (push_locked q v) = Suc (q_size q)"
  "q_closed (push_locked q v) = q_closed q"
  "st_high_watermark (q_stats (push_locked q v)) =
     max (st_high_watermark (q_stats q)) (Suc (q_size q))"
  "st_pushed (q_stats (push_locked q v)) = st_pushed (q_stats q) + 1"
  "st_popped (q_stats (push_locked q v)) = st_popped (q_stats q)"
  "st_rejected_full (q_stats (push_locked q v)) = st_rejected_full (q_stats q)"
  "st_push_timeouts (q_stats (push_locked q v)) = st_push_timeouts (q_stats q)"
  "slot_index (push_locked q v) i = slot_index q i"
  by (simp_all add: push_locked_def slot_index_def Let_def max_def)

lemma push_locked_slot:
  assumes "queue_inv q" and "q_size q < Capacity q" and "i < Capacity q"
  shows "q_slots (push_locked q v) ! slot_index q i =
     (if i = q_size q then Some v else q_slots q ! slot_index q i)"
proof -
  have "q_tail q = slot_index q (q_size q)" using assms(1) by (simp add: queue_inv_def)
  then show ?thesis
    using assms slot_index_less [OF assms(1)] slot_index_inject [of i q "q_size q"]
    by (auto simp: nth_list_update)
qed

lemma push_locked_inv:
  assumes "queue_inv q" and "q_size q < Capacity q"
  shows "queue_inv (push_locked q v)"
proof -
  have "Suc (q_tail q) mod Capacity q = slot_index q (Suc (q_size q))"
    using assms(1) by (simp add: queue_inv_def slot_index_def mod_Suc_eq)
  moreover have "(q_slots (push_locked q v) ! slot_index q i \<noteq> None) = (i < Suc (q_size q))"
    if "i < Capacity q" for i
    unfolding push_locked_slot [OF assms that]
    using queue_inv_slots [OF assms(1) that] by auto
  ultimately show ?thesis
    using assms by (auto simp: queue_inv_def algebra_simps)
qed

lemma push_locked_items:
  assumes "queue_inv q" and "q_size q < Capacity q"
  shows "queue_items (push_locked q v) = queue_items q @ [v]"
proof -
  have "the (q_slots (push_locked q v) ! slot_index q i) = the (q_slots q ! slot_index q i)"
    if "i < q_size q" for i
    using push_locked_slot [OF assms, of i] that assms(2) by simp
  moreover have "the (q_slots (push_locked q v) ! slot_index q (q_size q)) = v"
    using push_locked_slot [OF assms assms(2)] by simp
  ultimately show ?thesis
    by (simp add: queue_items_def del: push_locked_simps(1))
qed

lemma pop_locked_simps [simp]:
  "q_slots (snd (pop_locked q)) = (q_slots q)[q_head q := None]"
  "q_head (snd (pop_locked q)) = Suc (q_head q) mod Capacity q"
  "q_tail (snd (pop_locked q)) = q_tail q"
  "q_size (snd (pop_locked q)) = q_size q - 1"
  "q_closed (snd (pop_locked q)) = q_closed q"
  "st_high_watermark (q_stats (snd (pop_locked q))) = st_high_watermark (q_stats q)"
  "st_pushed (q_stats (snd (pop_locked q))) = st_pushed (q_stats q)"
  "st_popped (q_stats (snd (pop_locked q))) = st_popped (q_stats q) + 1"
  "st_rejected_full (q_stats (snd (pop_locked q))) = st_rejected_full (q_stats q)"
  "st_push_timeouts (q_stats (snd (pop_locked q))) = st_push_timeouts (q_stats q)"
  "fst (pop_locked q) = q_slots q ! q_head q"
  by (simp_all add: pop_locked_def Let_def)

lemma pop_locked_slot_index: "slot_index (snd (pop_locked q)) i = slot_index q (Suc i)"
  by (simp add: slot_index_def mod_simps)

lemma pop_locked_slot:
  assumes "queue_inv q" and "Suc i \<le> Capacity q"
  shows "q_slots (snd (pop_locked q)) ! slot_index q (Suc i) =
     (if Suc i = Capacity q then None else q_slots q ! slot_index q (Suc i))"
  using assms slot_index_less [OF assms(1)] slot_index_0 [OF assms(1)]
    slot_index_Capacity [OF assms(1)] slot_index_inject [of "Suc i" q 0]
    queue_inv_bounds [OF assms(1)]
  by (auto simp: nth_list_update)

lemma pop_locked_inv:
  assumes "queue_inv q" and "0 < q_size q"
  shows "queue_inv (snd (pop_locked q))"
proof -
  let ?q = "snd (pop_locked q)"
  have slots: "(q_slots ?q ! slot_index ?q i \<noteq> None) = (i < q_size ?q)" if "i < Capacity ?q" for i
  proof -
    have le: "Suc i \<le> Capacity q" using that by simp
    show ?thesis
      unfolding pop_locked_slot_index pop_locked_slot [OF assms(1) le]
      using queue_inv_slots [OF assms(1), of "Suc i"] queue_inv_bounds(3) [OF assms(1)] le assms(2)
      by auto
  qed
  have "q_tail ?q = slot_index ?q (q_size ?q)"
    using assms by (simp add: pop_locked_slot_index queue_inv_def)
  moreover have "st_pushed (q_stats ?q) - st_popped (q_stats ?q) = of_nat (q_size ?q)"
    using assms by (simp add: queue_inv_def algebra_simps)
  ultimately show ?thesis
    using assms slots by (auto simp: queue_inv_def)
qed

lemma pop_locked_items:
  assumes "queue_inv q" and "0 < q_size q"
  shows "fst (pop_locked q) = Some (hd (queue_items q))"
    and "queue_items (snd (pop_locked q)) = tl (queue_items q)"
proof -
  obtain n where n: "q_size q = Suc n" using assms(2) by (cases "q_size q") auto
  have upt: "[0..<Suc n] = 0 # map Suc [0..<n]" by (simp add: map_Suc_upt upt_conv_Cons)
  have "q_slots q ! q_head q \<noteq> None"
    using assms slot_index_0 [OF assms(1)] by (auto simp: queue_inv_def)
  then show "fst (pop_locked q) = Some (hd (queue_items q))"
    using slot_index_0 [OF assms(1)] by (auto simp: queue_items_def n upt simp del: upt_Suc)
  have "Suc i \<le> Capacity q \<and> Suc i \<noteq> Capacity q" if "i < n" for i
    using that assms(1) n by (auto simp: queue_inv_def)
  then show "queue_items (snd (pop_locked q)) = tl (queue_items q)"
    using pop_locked_slot [OF assms(1)]
    by (simp add: queue_items_def n upt pop_locked_slot_index del: pop_locked_simps(1) upt_Suc)
qed

section \<open>Operations against the specification\<close>

lemma queue_inv_init: "0 < cap \<Longrightarrow> queue_inv (BoundedQueue_init cap)"
  by (simp add: queue_inv_def BoundedQueue_init_def QueueStats_default_def slot_index_def)

lemma queue_items_init [simp]: "queue_items (BoundedQueue_init cap) = []"
  by (simp add: queue_items_def BoundedQueue_init_def)

lemma abs_queue_init:
  "abs_queue (BoundedQueue_init cap) = \<lparr>f_items = [], f_limit = cap, f_closed = False\<rparr>"
  by (simp add: abs_queue_def BoundedQueue_init_def queue_items_def)

text \<open>Bumping a rejection counter touches neither the contents nor the invariant.\<close>

lemma queue_bump [simp]:
  "abs_queue (q\<lparr>q_stats := (q_stats q)\<lparr>st_rejected_full := n\<rparr>\<rparr>) = abs_queue q"
  "abs_queue (q\<lparr>q_stats := (q_stats q)\<lparr>st_push_timeouts := n\<rparr>\<rparr>) = abs_queue q"
  "queue_inv (q\<lparr>q_stats := (q_stats q)\<lparr>st_rejected_full := n\<rparr>\<rparr>) = queue_inv q"
  "queue_inv (q\<lparr>q_stats := (q_stats q)\<lparr>st_push_timeouts := n\<rparr>\<rparr>) = queue_inv q"
  by (simp_all add: abs_queue_def queue_items_def queue_inv_def slot_index_def)

lemma abs_queue_simps [simp]:
  "f_items (abs_queue q) = queue_items q"
  "f_limit (abs_queue q) = Capacity q"
  "f_closed (abs_queue q) = q_closed q"
  by (simp_all add: abs_queue_def)

lemma abs_push_locked:
  "queue_inv q \<Longrightarrow> q_size q < Capacity q \<Longrightarrow>
     abs_queue (push_locked q v) = (abs_queue q)\<lparr>f_items := queue_items q @ [v]\<rparr>"
  by (simp add: abs_queue_def push_locked_items)

lemma abs_pop_locked:
  "queue_inv q \<Longrightarrow> 0 < q_size q \<Longrightarrow>
     map_prod id abs_queue (pop_locked q) = fifo_pop (abs_queue q)"
  using pop_locked_items [of q] length_queue_items [of q]
  by (cases "queue_items q")
     (auto simp: fifo_pop_def abs_queue_def map_prod_def split_beta)

lemma queue_size_less_iff:
  "queue_inv q \<Longrightarrow> q_size q < Capacity q \<longleftrightarrow> q_size q \<noteq> Capacity q"
  using queue_inv_bounds(3) [of q] by auto

lemma try_push_inv: "queue_inv q \<Longrightarrow> queue_inv (snd (try_push q v))"
  by (simp add: try_push_def push_locked_inv queue_size_less_iff)

lemma try_push_refines:
  "queue_inv q \<Longrightarrow>
     map_prod id abs_queue (try_push q v) = fifo_push (abs_queue q) v QueuePushResult.full"
  by (simp add: try_push_def fifo_push_def abs_push_locked queue_size_less_iff)

lemma wait_push_None_iff:
  "wait_push q v expired = None \<longleftrightarrow> \<not> q_closed q \<and> \<not> q_size q < Capacity q \<and> \<not> expired"
  by (simp add: wait_push_def Let_def)

lemma wait_push_inv: "queue_inv q \<Longrightarrow> wait_push q v expired = Some (r, q') \<Longrightarrow> queue_inv q'"
  by (auto simp: wait_push_def Let_def push_locked_inv split: if_splits)

lemma wait_push_refines:
  "queue_inv q \<Longrightarrow> wait_push q v expired = Some (r, q') \<Longrightarrow>
     (r, abs_queue q') = fifo_push (abs_queue q) v QueuePushResult.timeout"
  by (auto simp: wait_push_def fifo_push_def Let_def abs_push_locked queue_size_less_iff
      split: if_splits)

lemma try_pop_inv: "queue_inv q \<Longrightarrow> queue_inv (snd (try_pop q))"
  by (simp add: try_pop_def pop_locked_inv)

lemma fifo_pop_empty: "q_size q = 0 \<Longrightarrow> fifo_pop (abs_queue q) = (None, abs_queue q)"
  using length_queue_items [of q] by (cases "queue_items q") (auto simp: fifo_pop_def)

lemma try_pop_refines:
  "queue_inv q \<Longrightarrow> map_prod id abs_queue (try_pop q) = fifo_pop (abs_queue q)"
  by (simp add: try_pop_def abs_pop_locked fifo_pop_empty)

lemma wait_pop_None_iff: "wait_pop q = None \<longleftrightarrow> \<not> q_closed q \<and> q_size q = 0"
  by (simp add: wait_pop_def)

lemma wait_pop_try: "wait_pop q = Some r \<Longrightarrow> r = try_pop q"
  by (auto simp: wait_pop_def try_pop_def split: if_splits)

lemma wait_pop_for_try: "wait_pop_for q expired = Some r \<Longrightarrow> r = try_pop q"
  by (auto simp: wait_pop_for_def try_pop_def Let_def split: if_splits)

lemma wait_pop_for_None_iff:
  "wait_pop_for q expired = None \<longleftrightarrow> \<not> q_closed q \<and> q_size q = 0 \<and> \<not> expired"
  by (simp add: wait_pop_for_def Let_def)

lemma close_simps [simp]:
  "queue_inv (close q) = queue_inv q" "queue_items (close q) = queue_items q"
  "q_closed (close q)" "q_slots (close q) = q_slots q" "q_size (close q) = q_size q"
  "q_stats (close q) = q_stats q"
  by (simp_all add: close_def queue_inv_def queue_items_def slot_index_def)

lemma queue_items_empty_iff: "queue_items q = [] \<longleftrightarrow> q_size q = 0"
  by (metis length_0_conv length_queue_items)

lemma wait_push_spec:
  assumes "queue_inv q"
  shows "map_option (map_prod id abs_queue) (wait_push q v expired) =
    (if \<not> q_closed q \<and> q_size q = Capacity q \<and> \<not> expired then None
     else Some (fifo_push (abs_queue q) v QueuePushResult.timeout))"
  using assms wait_push_None_iff [of q v expired] wait_push_refines [of q v expired]
    queue_size_less_iff [of q] by (cases "wait_push q v expired") auto

lemma wait_pop_spec:
  assumes "queue_inv q"
  shows "map_option (map_prod id abs_queue) (wait_pop q) =
    (if \<not> q_closed q \<and> queue_items q = [] then None else Some (fifo_pop (abs_queue q)))"
  using wait_pop_None_iff [of q] try_pop_refines [OF assms]
  by (cases "wait_pop q") (auto simp: queue_items_empty_iff dest!: wait_pop_try)

lemma wait_pop_for_spec:
  assumes "queue_inv q"
  shows "map_option (map_prod id abs_queue) (wait_pop_for q expired) =
    (if \<not> q_closed q \<and> queue_items q = [] \<and> \<not> expired then None
     else Some (fifo_pop (abs_queue q)))"
  using wait_pop_for_None_iff [of q expired] try_pop_refines [OF assms]
  by (cases "wait_pop_for q expired") (auto simp: queue_items_empty_iff dest!: wait_pop_for_try)

lemma wait_pop_inv: "queue_inv q \<Longrightarrow> wait_pop q = Some (g, q') \<Longrightarrow> queue_inv q'"
  by (metis snd_conv try_pop_inv wait_pop_try)

lemma wait_pop_for_inv: "queue_inv q \<Longrightarrow> wait_pop_for q expired = Some (g, q') \<Longrightarrow> queue_inv q'"
  by (metis snd_conv try_pop_inv wait_pop_for_try)

lemma close_refines: "abs_queue (close q) = (abs_queue q)\<lparr>f_closed := True\<rparr>"
  by (simp add: abs_queue_def close_def queue_items_def slot_index_def)

section \<open>The channel interface\<close>

text \<open>
  What a pair of producers and consumers relies on: accepted values join the end of the list of
  pending values, delivered values leave it at the front, a refused value changes nothing, and
  after closing nothing is accepted while pending values remain available.
\<close>

locale fifo_channel =
  fixes inv :: "'q \<Rightarrow> bool"
    and items :: "'q \<Rightarrow> 'a list"
    and limit :: "'q \<Rightarrow> nat"
    and is_closed :: "'q \<Rightarrow> bool"
    and put :: "'q \<Rightarrow> 'a \<Rightarrow> bool \<Rightarrow> (QueuePushResult \<times> 'q) option"
    and get :: "'q \<Rightarrow> ('a option \<times> 'q) option"
    and shut :: "'q \<Rightarrow> 'q"
  assumes bounded: "inv q \<Longrightarrow> length (items q) \<le> limit q"
    and put_pushed: "inv q \<Longrightarrow> put q v x = Some (QueuePushResult.pushed, q') \<Longrightarrow>
      inv q' \<and> items q' = items q @ [v] \<and> \<not> is_closed q"
    and put_refused: "inv q \<Longrightarrow> put q v x = Some (r, q') \<Longrightarrow> r \<noteq> QueuePushResult.pushed \<Longrightarrow>
      inv q' \<and> items q' = items q"
    and put_frame: "put q v x = Some (r, q') \<Longrightarrow> limit q' = limit q \<and> is_closed q' = is_closed q"
    and get_value: "inv q \<Longrightarrow> get q = Some (Some v, q') \<Longrightarrow> inv q' \<and> items q = v # items q'"
    and get_end: "inv q \<Longrightarrow> get q = Some (None, q') \<Longrightarrow> q' = q \<and> items q = [] \<and> is_closed q"
    and get_frame: "get q = Some (g, q') \<Longrightarrow> limit q' = limit q \<and> is_closed q' = is_closed q"
    and get_ready: "inv q \<Longrightarrow> items q \<noteq> [] \<or> is_closed q \<Longrightarrow> get q \<noteq> None"
    and shut: "inv (shut q) = inv q" "items (shut q) = items q" "limit (shut q) = limit q"
      "is_closed (shut q)"
begin

lemma put_closed:
  assumes "inv q" and "is_closed q" and "put q v x = Some (r, q')"
  shows "r \<noteq> QueuePushResult.pushed \<and> items q' = items q"
  using assms put_pushed put_refused by metis

lemma get_closed_empty:
  assumes "inv q" and "is_closed q" and "items q = []"
  shows "get q = Some (None, q)"
proof -
  obtain r q' where g: "get q = Some (r, q')" using get_ready assms by fastforce
  show ?thesis
  proof (cases r)
    case None
    with g get_end assms show ?thesis by blast
  next
    case (Some v)
    with g get_value [OF assms(1)] assms(3) show ?thesis by simp
  qed
qed

text \<open>A closed channel is drained in order, and the consumer's loop ends.\<close>

lemma drain_closed:
  "inv q \<Longrightarrow> is_closed q \<Longrightarrow>
     \<exists>q'. drain get (Suc (length (items q))) q = Some (items q, q') \<and> inv q' \<and> items q' = []"
proof (induction "items q" arbitrary: q)
  case Nil
  then show ?case by (simp add: get_closed_empty)
next
  case (Cons v vs)
  obtain r q1 where g: "get q = Some (r, q1)" using get_ready Cons.prems by fastforce
  have r: "r = Some v" and q1: "inv q1" "items q1 = vs"
  proof -
    show "r = Some v"
      using g Cons.hyps(2) get_end [OF Cons.prems(1)] get_value [OF Cons.prems(1)]
      by (cases r) fastforce+
    then show "inv q1" "items q1 = vs"
      using g get_value [OF Cons.prems(1)] Cons.hyps(2) by fastforce+
  qed
  have "is_closed q1" using get_frame [OF g] Cons.prems(2) by simp
  from Cons.hyps(1) [OF q1(2) [symmetric] q1(1) this] obtain q' where
    "drain get (Suc (length vs)) q1 = Some (vs, q')" "inv q'" "items q' = []"
    using q1(2) by auto
  then show ?case
    using g r by (intro exI [of _ q']) (simp add: Cons.hyps(2) [symmetric])
qed

end

interpretation bq: fifo_channel queue_inv queue_items "\<lambda>q. Capacity q" q_closed wait_push wait_pop
  close
proof (unfold_locales, goal_cases)
  case (1 q)
  then show ?case by (simp add: queue_inv_bounds)
next
  case (2 q v x q')
  then show ?case
    using wait_push_inv [of q v x "QueuePushResult.pushed" q']
    by (auto simp: wait_push_def Let_def push_locked_items split: if_splits)
next
  case (3 q v x r q')
  then show ?case
    using wait_push_inv [of q v x r q'] wait_push_refines [of q v x r q']
    by (auto simp: fifo_push_def abs_queue_def split: if_splits)
next
  case (4 q v x r q')
  then show ?case by (auto simp: wait_push_def Let_def split: if_splits)
next
  case (5 q v q')
  then show ?case
    using pop_locked_inv [of q] pop_locked_items [of q] length_queue_items [of q]
    by (cases "queue_items q") (auto simp: wait_pop_def prod_eq_iff split: if_splits)
next
  case (6 q q')
  then show ?case
    using pop_locked_items(1) [of q] length_queue_items [of q]
    by (cases "queue_items q") (auto simp: wait_pop_def prod_eq_iff split: if_splits)
next
  case (7 q r q')
  then show ?case by (auto simp: wait_pop_def prod_eq_iff split: if_splits)
next
  case (8 q)
  then show ?case
    using length_queue_items [of q] by (cases "queue_items q") (auto simp: wait_pop_def)
qed simp_all

section \<open>Runs\<close>

text \<open>One operation: what it accepts joins the items, what it delivers leaves them.\<close>

lemma push_conserves:
  assumes "(r, abs_queue q') = fifo_push (abs_queue q) v no_room"
    and "no_room \<noteq> QueuePushResult.pushed"
  shows "queue_items q @ taken v r = queue_items q'"
proof -
  have "f_items (abs_queue q') = f_items (snd (fifo_push (abs_queue q) v no_room))"
    using assms(1) by (metis snd_conv)
  then show ?thesis using assms by (auto simp: fifo_push_def taken_def split: if_splits)
qed

lemma pop_conserves:
  assumes "queue_inv q"
  shows "queue_items q = given (fst (try_pop q)) @ queue_items (snd (try_pop q))"
proof -
  have "fst (try_pop q) = fst (fifo_pop (abs_queue q))"
    and "queue_items (snd (try_pop q)) = f_items (snd (fifo_pop (abs_queue q)))"
    unfolding try_pop_refines [OF assms, symmetric] by simp_all
  then show ?thesis by (auto simp: fifo_pop_def given_def split: list.splits)
qed

lemma queue_do_conserves:
  assumes "queue_inv q" and "queue_do q x = (a, d, q')"
  shows "queue_inv q' \<and> queue_items q @ a = d @ queue_items q'"
proof (cases x)
  case (TryPush v)
  obtain r q1 where p: "try_push q v = (r, q1)" by fastforce
  then have "(r, abs_queue q1) = fifo_push (abs_queue q) v QueuePushResult.full"
    using try_push_refines [OF assms(1), of v] by simp
  then show ?thesis
    using assms TryPush p try_push_inv [of q v] push_conserves by fastforce
next
  case (WaitPush v e)
  show ?thesis
  proof (cases "wait_push q v e")
    case (Some p)
    obtain r q1 where p: "p = (r, q1)" by fastforce
    show ?thesis
      using assms WaitPush Some p wait_push_inv [of q v e r q1]
        push_conserves [OF wait_push_refines [of q v e r q1]] by fastforce
  qed (use assms WaitPush in simp)
next
  case TryPop
  then show ?thesis
    using assms try_pop_inv [of q] pop_conserves [of q] by (auto simp: split_beta)
next
  case WaitPop
  then show ?thesis
    using assms try_pop_inv [of q] pop_conserves [of q]
    by (cases "wait_pop q") (auto dest!: wait_pop_try simp: split_beta)
next
  case (WaitPopFor e)
  then show ?thesis
    using assms try_pop_inv [of q] pop_conserves [of q]
    by (cases "wait_pop_for q e") (auto dest!: wait_pop_for_try simp: split_beta)
qed (use assms in auto)

lemma queue_run_conserves:
  assumes "queue_inv q" and "queue_run q xs = (as, ds, q')"
  shows "queue_inv q' \<and> queue_items q @ as = ds @ queue_items q'"
  using assms
proof (induction xs arbitrary: q as ds)
  case Nil
  then show ?case by simp
next
  case (Cons x xs)
  obtain a d q1 where x: "queue_do q x = (a, d, q1)" by (cases "queue_do q x")
  obtain as' ds' where xs: "queue_run q1 xs = (as', ds', q')" "as = a @ as'" "ds = d @ ds'"
    using Cons.prems(2) x by (auto split: prod.splits)
  have q1: "queue_inv q1" "queue_items q @ a = d @ queue_items q1"
    using queue_do_conserves [OF Cons.prems(1) x] by auto
  from Cons.IH [OF q1(1) xs(1)] have "queue_inv q'" "queue_items q1 @ as' = ds' @ queue_items q'"
    by auto
  with q1(2) xs show ?case by (metis append_assoc)
qed

lemma queue_do_capacity: "Capacity (snd (snd (queue_do q x))) = Capacity q"
  by (cases x)
     (auto simp: try_push_def wait_push_def try_pop_def wait_pop_def wait_pop_for_def Let_def
       split_beta split: option.splits if_splits)

lemma queue_run_capacity: "Capacity (snd (snd (queue_run q xs))) = Capacity q"
proof (induction xs arbitrary: q)
  case (Cons x xs)
  then show ?case using queue_do_capacity [of q x] by (simp add: split_beta Let_def)
qed simp

lemma queue_run_snoc:
  "snd (snd (queue_run q (xs @ [x]))) = snd (snd (queue_do (snd (snd (queue_run q xs))) x))"
  by (induction xs arbitrary: q) (simp_all add: split_beta Let_def)

section \<open>Properties of the queue\<close>

text \<open>
  C16. First in, first out, without loss or duplication: for every sequence of operations on a fresh
  queue of positive capacity, the accepted values are the delivered values followed by the pending
  ones, of which there are never more than the capacity.
\<close>

theorem queue_fifo:
  "case queue_run (BoundedQueue_init (Suc n)) xs of
     (accepted, delivered, q) \<Rightarrow>
       accepted = delivered @ queue_items q \<and> length (queue_items q) \<le> Suc n"
proof -
  obtain as ds q where run: "queue_run (BoundedQueue_init (Suc n)) xs = (as, ds, q)"
    by (cases "queue_run (BoundedQueue_init (Suc n)) xs" rule: prod_cases3) auto
  have q: "queue_inv q" "as = ds @ queue_items q"
    using queue_run_conserves [OF queue_inv_init run] by simp_all
  have "Capacity q = Suc n"
    using queue_run_capacity [of "BoundedQueue_init (Suc n)" xs] run
    by (simp add: BoundedQueue_init_def)
  then show ?thesis using run q queue_inv_bounds(3) [OF q(1)] by simp
qed

text \<open>
  C15. The ring buffer implements a list with a limit and a flag. A new queue is the empty open list of its
  capacity. Each operation gives the result and the new contents of the list operation and keeps the
  invariant of the ring, so this goes on for any sequence of operations; a caller waits exactly when the
  list is full (empty) and open and its timeout has not expired; closing sets the flag and keeps the contents.
\<close>

theorem queue_refines_list:
  fixes q :: "'a BoundedQueue"
  assumes "0 < cap" and "queue_inv q"
  shows "queue_inv (BoundedQueue_init cap :: 'a BoundedQueue) \<and>
    abs_queue (BoundedQueue_init cap :: 'a BoundedQueue) = \<lparr>f_items = [], f_limit = cap, f_closed = False\<rparr> \<and>
    map_prod id abs_queue (try_push q v) = fifo_push (abs_queue q) v QueuePushResult.full \<and>
    map_prod id abs_queue (try_pop q) = fifo_pop (abs_queue q) \<and>
    map_option (map_prod id abs_queue) (wait_push q v expired) =
      (if \<not> f_closed (abs_queue q) \<and> length (f_items (abs_queue q)) = f_limit (abs_queue q) \<and>
          \<not> expired
       then None else Some (fifo_push (abs_queue q) v QueuePushResult.timeout)) \<and>
    map_option (map_prod id abs_queue) (wait_pop q) =
      (if \<not> f_closed (abs_queue q) \<and> f_items (abs_queue q) = [] then None
       else Some (fifo_pop (abs_queue q))) \<and>
    map_option (map_prod id abs_queue) (wait_pop_for q expired) =
      (if \<not> f_closed (abs_queue q) \<and> f_items (abs_queue q) = [] \<and> \<not> expired then None
       else Some (fifo_pop (abs_queue q))) \<and>
    abs_queue (close q) = (abs_queue q)\<lparr>f_closed := True\<rparr> \<and>
    queue_inv (snd (try_push q v)) \<and> queue_inv (snd (try_pop q)) \<and> queue_inv (close q) \<and>
    (\<forall>r q'. wait_push q v expired = Some (r, q') \<longrightarrow> queue_inv q') \<and>
    (\<forall>g q'. wait_pop q = Some (g, q') \<longrightarrow> queue_inv q') \<and>
    (\<forall>g q'. wait_pop_for q expired = Some (g, q') \<longrightarrow> queue_inv q')"
proof -
  note ops = try_push_refines [OF assms(2)] try_pop_refines [OF assms(2)] wait_push_spec [OF assms(2)]
    wait_pop_spec [OF assms(2)] wait_pop_for_spec [OF assms(2)]
  note keep = try_push_inv [OF assms(2)] try_pop_inv [OF assms(2)] wait_push_inv [OF assms(2)]
    wait_pop_inv [OF assms(2)] wait_pop_for_inv [OF assms(2)]
  show ?thesis
    unfolding abs_queue_simps length_queue_items ops
    using queue_inv_init [OF assms(1)] abs_queue_init close_refines keep assms(2) close_simps(1)
    by (intro conjI allI impI) (rule refl | blast)+
qed

text \<open>
  The example is a ring of two slots whose contents wrap around: two values are pushed, one is taken, and
  a third is pushed.
\<close>

theorem queue_refines_list_witness:
  "let q = push_locked (snd (pop_locked (push_locked (push_locked (BoundedQueue_init 2) 7) 8))) (9 :: nat)
   in queue_inv q \<and> f_items (abs_queue q) = [8, 9] \<and> wait_push q 1 False = None \<and>
      fst (try_push q 1) = QueuePushResult.full \<and> fst (try_pop q) = Some 8 \<and>
      f_items (abs_queue (snd (try_pop q))) = [9] \<and>
      abs_queue (close q) = \<lparr>f_items = [8, 9], f_limit = 2, f_closed = True\<rparr>"
proof -
  define q where
    "q = push_locked (snd (pop_locked (push_locked (push_locked (BoundedQueue_init 2) 7) 8))) (9 :: nat)"
  have inv: "queue_inv q"
    unfolding q_def by (intro push_locked_inv pop_locked_inv queue_inv_init) (simp_all add: BoundedQueue_init_def)
  have "q_slots q = [Some 9, Some 8]" "q_head q = 1" "q_size q = 2" "\<not> q_closed q"
    by (simp_all add: q_def BoundedQueue_init_def numeral_2_eq_2)
  then have abs: "abs_queue q = \<lparr>f_items = [8, 9], f_limit = 2, f_closed = False\<rparr>"
    by (simp add: abs_queue_def queue_items_def slot_index_def numeral_2_eq_2)
  have refines: "map_prod id abs_queue (try_push q 1) = (QueuePushResult.full, abs_queue q)"
    "map_prod id abs_queue (try_pop q) = (Some 8, \<lparr>f_items = [9], f_limit = 2, f_closed = False\<rparr>)"
    "wait_push q 1 False = None" "abs_queue (close q) = \<lparr>f_items = [8, 9], f_limit = 2, f_closed = True\<rparr>"
    using queue_refines_list [OF zero_less_one inv, of 1 False]
    by (simp_all add: abs fifo_push_def fifo_pop_def del: abs_queue_simps)
  then show ?thesis
    unfolding q_def [symmetric] Let_def using inv abs by (simp add: map_prod_def case_prod_beta)
qed

text \<open>
  The statistics stay meaningful whatever happens: the size is at most the high watermark, which
  is at most the capacity, and the difference of the two 64-bit counters \<open>pushed\<close> and \<open>popped\<close> is
  the size even after they have wrapped around.
\<close>

lemma queue_stats_consistent:
  "let st = queue_stats (snd (snd (queue_run (BoundedQueue_init (Suc n)) xs)))
   in st_size st \<le> st_high_watermark st \<and> st_high_watermark st \<le> st_capacity st \<and>
      st_capacity st = Suc n \<and> st_pushed st - st_popped st = of_nat (st_size st)"
proof -
  obtain as ds q where run: "queue_run (BoundedQueue_init (Suc n)) xs = (as, ds, q)"
    by (cases "queue_run (BoundedQueue_init (Suc n)) xs" rule: prod_cases3) auto
  have "queue_inv q" using queue_run_conserves [OF queue_inv_init run] by simp
  moreover have "Capacity q = Suc n"
    using queue_run_capacity [of "BoundedQueue_init (Suc n)" xs] run
    by (simp add: BoundedQueue_init_def)
  ultimately show ?thesis by (simp add: run queue_stats_def queue_inv_def Let_def)
qed

text \<open>
  Closing keeps the pending values: afterwards no push is accepted, and a consumer that loops on
  \<open>wait_pop\<close> obtains exactly the pending values in order and then leaves its loop.
\<close>

lemma close_drains:
  assumes "queue_inv q"
  shows "fst (try_push (close q) v) = QueuePushResult.closed \<and>
    wait_push (close q) v expired = Some (QueuePushResult.closed, close q) \<and>
    (\<exists>q'. drain wait_pop (Suc (q_size q)) (close q) = Some (queue_items q, q') \<and> q_size q' = 0)"
proof -
  obtain q' where "drain wait_pop (Suc (length (queue_items (close q)))) (close q) =
      Some (queue_items (close q), q')" and "queue_items q' = []"
    using bq.drain_closed [of "close q"] assms by auto
  then show ?thesis
    by (auto simp: try_push_def wait_push_def queue_items_empty_iff Let_def)
qed

end
