(* ===== verification/Queue_Waiters.thy ===== *)
theory Queue_Waiters
  imports Bounded_Queue
begin

text \<open>
  The blocking protocol of the bounded queue: any number of threads call its methods, each critical
  section is one step, and the condition variables \<open>not_empty_\<close> and \<open>not_full_\<close> are explicit. A
  thread that finds its predicate false goes to sleep in the same step in which it releases the
  mutex; a notification is a separate, later step of the notifying thread, which may be overtaken
  by any other thread. Sleeping threads may wake up spuriously or by timeout and then check their
  predicate again. \<open>wait_pop\<close> is the untimed \<open>wait_pop_for\<close>. The theorem at the end excludes lost wake-ups.
\<close>

section \<open>Model\<close>

text \<open>
  The control points of a thread. A sleeping thread remembers whether its wait is timed; an awake
  one has left the wait and is about to lock the mutex and check its predicate, with a flag that
  says whether its timeout has expired.
\<close>

datatype 'a pc =
    Idle
  | PushSleep 'a bool
  | PushAwake 'a bool bool
  | PopSleep bool
  | PopAwake bool bool
  | NotifyNotEmpty
  | NotifyNotFull
  | NotifyAllNotEmpty
  | NotifyAllNotFull

record 'a cvq =
  c_queue :: "'a BoundedQueue"
  c_pcs :: "'a pc list"

text \<open>What remains to be done after a push or a pop: \<open>notify_one\<close> if a value moved.\<close>

definition after_push :: "QueuePushResult \<Rightarrow> 'a pc" where
  "after_push r = (if r = QueuePushResult.pushed then NotifyNotEmpty else Idle)"

definition after_pop :: "'a option \<Rightarrow> 'a pc" where
  "after_pop r = (if r = None then Idle else NotifyNotFull)"

text \<open>The two notifications of \<open>close\<close>.\<close>

fun wake_pop :: "'a pc \<Rightarrow> 'a pc" where
  "wake_pop (PopSleep timed) = PopAwake timed False"
| "wake_pop p = p"

fun wake_push :: "'a pc \<Rightarrow> 'a pc" where
  "wake_push (PushSleep v timed) = PushAwake v timed False"
| "wake_push p = p"

fun is_pop_sleep :: "'a pc \<Rightarrow> bool" where
  "is_pop_sleep (PopSleep _) = True"
| "is_pop_sleep _ = False"

fun is_push_sleep :: "'a pc \<Rightarrow> bool" where
  "is_push_sleep (PushSleep _ _) = True"
| "is_push_sleep _ = False"

text \<open>Threads that owe the consumers (producers) a check or a notification.\<close>

fun helps_pop :: "'a pc \<Rightarrow> bool" where
  "helps_pop (PopAwake _ _) = True"
| "helps_pop NotifyNotEmpty = True"
| "helps_pop _ = False"

fun helps_push :: "'a pc \<Rightarrow> bool" where
  "helps_push (PushAwake _ _ _) = True"
| "helps_push NotifyNotFull = True"
| "helps_push _ = False"

definition move :: "'a cvq \<Rightarrow> nat \<Rightarrow> 'a pc \<Rightarrow> 'a BoundedQueue \<Rightarrow> 'a cvq" where
  "move s i p q = s\<lparr>c_queue := q, c_pcs := (c_pcs s)[i := p]\<rparr>"

inductive cv_step :: "'a cvq \<Rightarrow> 'a cvq \<Rightarrow> bool" where
  try_push: "i < length (c_pcs s) \<Longrightarrow> c_pcs s ! i = Idle \<Longrightarrow> try_push (c_queue s) v = (r, q) \<Longrightarrow>
     cv_step s (move s i (after_push r) q)"
| push_enter: "i < length (c_pcs s) \<Longrightarrow> c_pcs s ! i = Idle \<Longrightarrow>
     wait_push (c_queue s) v False = None \<Longrightarrow> cv_step s (move s i (PushSleep v timed) (c_queue s))"
| push_pass: "i < length (c_pcs s) \<Longrightarrow> c_pcs s ! i = Idle \<Longrightarrow>
     wait_push (c_queue s) v False = Some (r, q) \<Longrightarrow> cv_step s (move s i (after_push r) q)"
| push_again: "i < length (c_pcs s) \<Longrightarrow> c_pcs s ! i = PushAwake v timed expired \<Longrightarrow>
     wait_push (c_queue s) v expired = None \<Longrightarrow>
     cv_step s (move s i (PushSleep v timed) (c_queue s))"
| push_done: "i < length (c_pcs s) \<Longrightarrow> c_pcs s ! i = PushAwake v timed expired \<Longrightarrow>
     wait_push (c_queue s) v expired = Some (r, q) \<Longrightarrow> cv_step s (move s i (after_push r) q)"
| push_timeout: "i < length (c_pcs s) \<Longrightarrow> c_pcs s ! i = PushSleep v True \<Longrightarrow>
     cv_step s (move s i (PushAwake v True True) (c_queue s))"
| push_spurious: "i < length (c_pcs s) \<Longrightarrow> c_pcs s ! i = PushSleep v timed \<Longrightarrow>
     cv_step s (move s i (PushAwake v timed False) (c_queue s))"
| try_pop: "i < length (c_pcs s) \<Longrightarrow> c_pcs s ! i = Idle \<Longrightarrow> try_pop (c_queue s) = (g, q) \<Longrightarrow>
     cv_step s (move s i (after_pop g) q)"
| pop_enter: "i < length (c_pcs s) \<Longrightarrow> c_pcs s ! i = Idle \<Longrightarrow>
     wait_pop_for (c_queue s) False = None \<Longrightarrow> cv_step s (move s i (PopSleep timed) (c_queue s))"
| pop_pass: "i < length (c_pcs s) \<Longrightarrow> c_pcs s ! i = Idle \<Longrightarrow>
     wait_pop_for (c_queue s) False = Some (g, q) \<Longrightarrow> cv_step s (move s i (after_pop g) q)"
| pop_again: "i < length (c_pcs s) \<Longrightarrow> c_pcs s ! i = PopAwake timed expired \<Longrightarrow>
     wait_pop_for (c_queue s) expired = None \<Longrightarrow>
     cv_step s (move s i (PopSleep timed) (c_queue s))"
| pop_done: "i < length (c_pcs s) \<Longrightarrow> c_pcs s ! i = PopAwake timed expired \<Longrightarrow>
     wait_pop_for (c_queue s) expired = Some (g, q) \<Longrightarrow> cv_step s (move s i (after_pop g) q)"
| pop_timeout: "i < length (c_pcs s) \<Longrightarrow> c_pcs s ! i = PopSleep True \<Longrightarrow>
     cv_step s (move s i (PopAwake True True) (c_queue s))"
| pop_spurious: "i < length (c_pcs s) \<Longrightarrow> c_pcs s ! i = PopSleep timed \<Longrightarrow>
     cv_step s (move s i (PopAwake timed False) (c_queue s))"
| notify_not_empty: "i < length (c_pcs s) \<Longrightarrow> c_pcs s ! i = NotifyNotEmpty \<Longrightarrow>
     j < length (c_pcs s) \<Longrightarrow> c_pcs s ! j = PopSleep timed \<Longrightarrow>
     cv_step s (s\<lparr>c_pcs := (c_pcs s)[i := Idle, j := PopAwake timed False]\<rparr>)"
| notify_not_empty_none: "i < length (c_pcs s) \<Longrightarrow> c_pcs s ! i = NotifyNotEmpty \<Longrightarrow>
     count_if is_pop_sleep (c_pcs s) = 0 \<Longrightarrow> cv_step s (move s i Idle (c_queue s))"
| notify_not_full: "i < length (c_pcs s) \<Longrightarrow> c_pcs s ! i = NotifyNotFull \<Longrightarrow>
     j < length (c_pcs s) \<Longrightarrow> c_pcs s ! j = PushSleep v timed \<Longrightarrow>
     cv_step s (s\<lparr>c_pcs := (c_pcs s)[i := Idle, j := PushAwake v timed False]\<rparr>)"
| notify_not_full_none: "i < length (c_pcs s) \<Longrightarrow> c_pcs s ! i = NotifyNotFull \<Longrightarrow>
     count_if is_push_sleep (c_pcs s) = 0 \<Longrightarrow> cv_step s (move s i Idle (c_queue s))"
| close: "i < length (c_pcs s) \<Longrightarrow> c_pcs s ! i = Idle \<Longrightarrow>
     cv_step s (move s i NotifyAllNotEmpty (close (c_queue s)))"
| notify_all_not_empty: "i < length (c_pcs s) \<Longrightarrow> c_pcs s ! i = NotifyAllNotEmpty \<Longrightarrow>
     cv_step s (s\<lparr>c_pcs := (map wake_pop (c_pcs s))[i := NotifyAllNotFull]\<rparr>)"
| notify_all_not_full: "i < length (c_pcs s) \<Longrightarrow> c_pcs s ! i = NotifyAllNotFull \<Longrightarrow>
     cv_step s (s\<lparr>c_pcs := (map wake_push (c_pcs s))[i := Idle]\<rparr>)"

inductive cv_reachable :: "nat \<Rightarrow> nat \<Rightarrow> 'a cvq \<Rightarrow> bool" for cap n where
  cv_init: "cv_reachable cap n \<lparr>c_queue = BoundedQueue_init cap, c_pcs = replicate n Idle\<rparr>"
| cv_next: "cv_reachable cap n s \<Longrightarrow> cv_step s t \<Longrightarrow> cv_reachable cap n t"

section \<open>Invariant\<close>

text \<open>
  While a consumer sleeps, every pending value has a thread that will take it or announce it; while
  a producer sleeps, the same holds of every free slot of an open queue. Once the queue is closed, sleepers exist
  only until the closing thread has notified them.
\<close>

definition cv_inv :: "'a cvq \<Rightarrow> bool" where
  "cv_inv s \<longleftrightarrow>
     queue_inv (c_queue s) \<and>
     (0 < count_if is_pop_sleep (c_pcs s) \<longrightarrow>
        q_size (c_queue s) \<le> count_if helps_pop (c_pcs s)) \<and>
     (\<not> q_closed (c_queue s) \<longrightarrow> 0 < count_if is_push_sleep (c_pcs s) \<longrightarrow>
        Capacity (c_queue s) \<le> q_size (c_queue s) + count_if helps_push (c_pcs s)) \<and>
     (q_closed (c_queue s) \<longrightarrow> 0 < count_if is_pop_sleep (c_pcs s) \<longrightarrow>
        0 < count_if ((=) NotifyAllNotEmpty) (c_pcs s)) \<and>
     (q_closed (c_queue s) \<longrightarrow> 0 < count_if is_push_sleep (c_pcs s) \<longrightarrow>
        0 < count_if ((=) NotifyAllNotEmpty) (c_pcs s) \<or>
        0 < count_if ((=) NotifyAllNotFull) (c_pcs s))"

text \<open>
  A thread is at rest if only another thread can make it move: it is outside the queue, or asleep.
\<close>

fun at_rest :: "'a pc \<Rightarrow> bool" where
  "at_rest Idle = True"
| "at_rest (PushSleep _ _) = True"
| "at_rest (PopSleep _) = True"
| "at_rest _ = False"

text \<open>A producer that sleeps on a full queue of one slot, after another thread has filled it.\<close>

definition full_example :: "nat cvq" where
  "full_example =
     \<lparr>c_queue = push_locked (BoundedQueue_init 1) 7, c_pcs = [Idle, PushSleep 8 True]\<rparr>"

section \<open>The steps keep the invariant\<close>

lemma push_effect:
  assumes "queue_inv q" and "try_push q v = (r, q') \<or> wait_push q v expired = Some (r, q')"
  shows "queue_inv q' \<and> Capacity q' = Capacity q \<and> q_closed q' = q_closed q \<and>
     (if r = QueuePushResult.pushed then q_size q' = Suc (q_size q) else q_size q' = q_size q \<and>
        (q_closed q \<or> q_size q = Capacity q))"
  using assms queue_size_less_iff [OF assms(1)] push_locked_inv [OF assms(1)]
  by (auto simp: try_push_def wait_push_def Let_def split: if_splits)

lemma pop_effect:
  assumes "queue_inv q" and "try_pop q = (g, q') \<or> wait_pop_for q expired = Some (g, q')"
  shows "queue_inv q' \<and> Capacity q' = Capacity q \<and> q_closed q' = q_closed q \<and>
     (if g = None then q_size q' = q_size q \<and> q_size q = 0 else Suc (q_size q') = q_size q)"
proof -
  have "q_slots q ! q_head q \<noteq> None" if "0 < q_size q"
    using pop_locked_items(1) [OF assms(1) that] by (metis option.distinct(1) pop_locked_simps(11))
  then show ?thesis
    using assms pop_locked_inv [OF assms(1)] pop_locked_simps [of q]
    by (cases "pop_locked q") (auto simp: try_pop_def wait_pop_for_def Let_def split: if_splits)
qed

text \<open>How the six counts of the invariant change when one thread moves.\<close>

lemmas counts_update =
  count_if_update [where P = is_pop_sleep] count_if_update [where P = is_push_sleep]
  count_if_update [where P = helps_pop] count_if_update [where P = helps_push]
  count_if_update [where P = "(=) NotifyAllNotEmpty"] count_if_update [where P = "(=) NotifyAllNotFull"]

lemma move_simps [simp]:
  "c_queue (move s i p q) = q" "c_pcs (move s i p q) = (c_pcs s)[i := p]"
  by (simp_all add: move_def)

lemma cv_inv_push:
  assumes "cv_inv s" and i: "i < length (c_pcs s)"
    and pc: "c_pcs s ! i = Idle \<or> c_pcs s ! i = PushAwake v timed expired"
    and "try_push (c_queue s) v = (r, q) \<or> wait_push (c_queue s) v expired = Some (r, q)"
  shows "cv_inv (move s i (after_push r) q)"
proof -
  have eff: "queue_inv q \<and> Capacity q = Capacity (c_queue s) \<and> q_closed q = q_closed (c_queue s) \<and>
     (if r = QueuePushResult.pushed then q_size q = Suc (q_size (c_queue s))
      else q_size q = q_size (c_queue s) \<and>
        (q_closed (c_queue s) \<or> q_size (c_queue s) = Capacity (c_queue s)))"
    using push_effect [of "c_queue s"] assms(1,4) by (simp add: cv_inv_def)
  show ?thesis
  proof (cases "r = QueuePushResult.pushed")
    case True
    then show ?thesis
      using counts_update [OF i, where x = "NotifyNotEmpty"] eff pc assms(1)
      by (elim disjE) (auto simp: cv_inv_def after_push_def)
  next
    case False
    then show ?thesis
      using counts_update [OF i, where x = "Idle"] eff pc assms(1)
      by (elim disjE) (auto simp: cv_inv_def after_push_def)
  qed
qed

lemma cv_inv_pop:
  assumes "cv_inv s" and i: "i < length (c_pcs s)"
    and pc: "c_pcs s ! i = Idle \<or> c_pcs s ! i = PopAwake timed expired"
    and "try_pop (c_queue s) = (g, q) \<or> wait_pop_for (c_queue s) expired = Some (g, q)"
  shows "cv_inv (move s i (after_pop g) q)"
proof -
  have eff: "queue_inv q \<and> Capacity q = Capacity (c_queue s) \<and> q_closed q = q_closed (c_queue s) \<and>
     (if g = None then q_size q = q_size (c_queue s) \<and> q_size (c_queue s) = 0
      else Suc (q_size q) = q_size (c_queue s))"
    using pop_effect [of "c_queue s"] assms(1,4) by (simp add: cv_inv_def)
  show ?thesis
  proof (cases "g = None")
    case True
    then show ?thesis
      using counts_update [OF i, where x = "Idle"] eff pc assms(1)
      by (elim disjE) (auto simp: cv_inv_def after_pop_def)
  next
    case False
    then show ?thesis
      using counts_update [OF i, where x = "NotifyNotFull"] eff pc assms(1)
      by (elim disjE) (auto simp: cv_inv_def after_pop_def)
  qed
qed

lemma cv_inv_push_sleep:
  assumes "cv_inv s" and i: "i < length (c_pcs s)"
    and pc: "c_pcs s ! i = Idle \<or> c_pcs s ! i = PushAwake v timed expired"
    and "wait_push (c_queue s) v expired = None"
  shows "cv_inv (move s i (PushSleep v timed) (c_queue s))"
  using counts_update [OF i, where x = "PushSleep v timed"] pc assms(1,4)
  by (elim disjE) (auto simp: cv_inv_def wait_push_None_iff)

lemma cv_inv_pop_sleep:
  assumes "cv_inv s" and i: "i < length (c_pcs s)"
    and pc: "c_pcs s ! i = Idle \<or> c_pcs s ! i = PopAwake timed expired"
    and "wait_pop_for (c_queue s) expired = None"
  shows "cv_inv (move s i (PopSleep timed) (c_queue s))"
  using counts_update [OF i, where x = "PopSleep timed"] pc assms(1,4)
  by (elim disjE) (auto simp: cv_inv_def wait_pop_for_None_iff)

lemma cv_inv_push_wake:
  assumes "cv_inv s" and i: "i < length (c_pcs s)" and pc: "c_pcs s ! i = PushSleep v timed"
  shows "cv_inv (move s i (PushAwake v timed expired) (c_queue s))"
  using counts_update [OF i, where x = "PushAwake v timed expired"] pc assms(1)
  by (auto simp: cv_inv_def)

lemma cv_inv_pop_wake:
  assumes "cv_inv s" and i: "i < length (c_pcs s)" and pc: "c_pcs s ! i = PopSleep timed"
  shows "cv_inv (move s i (PopAwake timed expired) (c_queue s))"
  using counts_update [OF i, where x = "PopAwake timed expired"] pc assms(1)
  by (auto simp: cv_inv_def)

text \<open>A notification is used up only together with the wake-up of a sleeper, or if there is none.\<close>

lemma cv_inv_notify_not_empty:
  assumes "cv_inv s" and i: "i < length (c_pcs s)" and pc: "c_pcs s ! i = NotifyNotEmpty"
    and j: "j < length (c_pcs s)" and sl: "c_pcs s ! j = PopSleep timed"
  shows "cv_inv (s\<lparr>c_pcs := (c_pcs s)[i := Idle, j := PopAwake timed False]\<rparr>)"
proof -
  have "j < length ((c_pcs s)[i := Idle])" "i \<noteq> j" using j pc sl by auto
  then show ?thesis
    using counts_update [OF i, where x = Idle]
      counts_update [OF \<open>j < length ((c_pcs s)[i := Idle])\<close>, where x = "PopAwake timed False"]
      pc sl assms(1)
    by (auto simp: cv_inv_def)
qed

lemma cv_inv_notify_not_full:
  assumes "cv_inv s" and i: "i < length (c_pcs s)" and pc: "c_pcs s ! i = NotifyNotFull"
    and j: "j < length (c_pcs s)" and sl: "c_pcs s ! j = PushSleep v timed"
  shows "cv_inv (s\<lparr>c_pcs := (c_pcs s)[i := Idle, j := PushAwake v timed False]\<rparr>)"
proof -
  have "j < length ((c_pcs s)[i := Idle])" "i \<noteq> j" using j pc sl by auto
  then show ?thesis
    using counts_update [OF i, where x = Idle]
      counts_update [OF \<open>j < length ((c_pcs s)[i := Idle])\<close>, where x = "PushAwake v timed False"]
      pc sl assms(1)
    by (auto simp: cv_inv_def)
qed

lemma cv_inv_notify_none:
  assumes "cv_inv s" and i: "i < length (c_pcs s)"
    and "c_pcs s ! i = NotifyNotEmpty \<and> count_if is_pop_sleep (c_pcs s) = 0 \<or>
      c_pcs s ! i = NotifyNotFull \<and> count_if is_push_sleep (c_pcs s) = 0"
  shows "cv_inv (move s i Idle (c_queue s))"
  using counts_update [OF i, where x = Idle] assms(1,3)
  by (elim disjE) (auto simp: cv_inv_def)

lemma cv_inv_close:
  assumes "cv_inv s" and i: "i < length (c_pcs s)" and pc: "c_pcs s ! i = Idle"
  shows "cv_inv (move s i NotifyAllNotEmpty (close (c_queue s)))"
  using counts_update [OF i, where x = NotifyAllNotEmpty] pc assms(1)
  by (auto simp: cv_inv_def)

lemma wake_pop_classes:
  "is_pop_sleep (wake_pop p) = False \<and> is_push_sleep (wake_pop p) = is_push_sleep p \<and>
   helps_push (wake_pop p) = helps_push p \<and>
   (NotifyAllNotEmpty = wake_pop p \<longleftrightarrow> NotifyAllNotEmpty = p) \<and>
   (NotifyAllNotFull = wake_pop p \<longleftrightarrow> NotifyAllNotFull = p)"
  by (cases p) simp_all

lemma wake_push_classes:
  "is_push_sleep (wake_push p) = False \<and> is_pop_sleep (wake_push p) = is_pop_sleep p \<and>
   helps_pop (wake_push p) = helps_pop p \<and>
   (NotifyAllNotEmpty = wake_push p \<longleftrightarrow> NotifyAllNotEmpty = p) \<and>
   (NotifyAllNotFull = wake_push p \<longleftrightarrow> NotifyAllNotFull = p)"
  by (cases p) simp_all

lemma cv_inv_all_not_empty:
  assumes "cv_inv s" and i: "i < length (c_pcs s)" and pc: "c_pcs s ! i = NotifyAllNotEmpty"
  shows "cv_inv (s\<lparr>c_pcs := (map wake_pop (c_pcs s))[i := NotifyAllNotFull]\<rparr>)"
proof -
  have i': "i < length (map wake_pop (c_pcs s))" using i by simp
  show ?thesis
    using counts_update [OF i', where x = NotifyAllNotFull] i pc assms(1)
    by (auto simp: cv_inv_def count_if_map comp_def wake_pop_classes count_if_def)
qed

lemma cv_inv_all_not_full:
  assumes "cv_inv s" and i: "i < length (c_pcs s)" and pc: "c_pcs s ! i = NotifyAllNotFull"
  shows "cv_inv (s\<lparr>c_pcs := (map wake_push (c_pcs s))[i := Idle]\<rparr>)"
proof -
  have i': "i < length (map wake_push (c_pcs s))" using i by simp
  show ?thesis
    using counts_update [OF i', where x = Idle] i pc assms(1)
    by (auto simp: cv_inv_def count_if_map comp_def wake_push_classes count_if_def)
qed

lemmas cv_inv_steps =
  cv_inv_push cv_inv_pop cv_inv_push_sleep cv_inv_pop_sleep cv_inv_push_wake cv_inv_pop_wake
  cv_inv_notify_not_empty cv_inv_notify_not_full cv_inv_notify_none cv_inv_close
  cv_inv_all_not_empty cv_inv_all_not_full

lemma cv_inv_step: "cv_step s t \<Longrightarrow> cv_inv s \<Longrightarrow> cv_inv t"
  by (induction rule: cv_step.induct) (blast intro: cv_inv_steps)+

lemma cv_inv_reachable:
  assumes "0 < cap" and "cv_reachable cap n s"
  shows "cv_inv s"
  using assms(2)
proof induction
  case cv_init
  show ?case
    using queue_inv_init [OF assms(1)]
    by (simp add: cv_inv_def count_if_replicate)
qed (rule cv_inv_step)

section \<open>Blocking calls are atomic operations\<close>

text \<open>
  The blocking protocol adds nothing to what the operations do one after the other: every step leaves the
  queue alone or performs one operation as a whole, so the contents of the queue and its statistics are
  always those of a sequence of operations, and what holds of all such sequences holds here.
\<close>

lemma cv_step_operation:
  assumes "cv_step s t"
  shows "c_queue t = c_queue s \<or> (\<exists>x. c_queue t = snd (snd (queue_do (c_queue s) x)))"
  using assms
proof cases
  case (try_push i v r q)
  then show ?thesis by (intro disjI2 exI [of _ "TryPush v"]) simp
next
  case (push_pass i v r q)
  then show ?thesis by (intro disjI2 exI [of _ "WaitPush v False"]) simp
next
  case (push_done i v timed expired r q)
  then show ?thesis by (intro disjI2 exI [of _ "WaitPush v expired"]) simp
next
  case (try_pop i g q)
  then show ?thesis by (intro disjI2 exI [of _ TryPop]) simp
next
  case (pop_pass i g q)
  then show ?thesis by (intro disjI2 exI [of _ "WaitPopFor False"]) simp
next
  case (pop_done i timed expired g q)
  then show ?thesis by (intro disjI2 exI [of _ "WaitPopFor expired"]) simp
next
  case (close i)
  then show ?thesis by (intro disjI2 exI [of _ Close]) simp
qed simp_all

lemma cv_operations:
  assumes "cv_reachable cap n s"
  obtains xs accepted delivered where "queue_run (BoundedQueue_init cap) xs = (accepted, delivered, c_queue s)"
proof -
  have "\<exists>xs. c_queue s = snd (snd (queue_run (BoundedQueue_init cap) xs))"
    using assms
  proof induction
    case cv_init
    show ?case by (intro exI [of _ "[]"]) simp
  next
    case (cv_next s t)
    then obtain xs where xs: "c_queue s = snd (snd (queue_run (BoundedQueue_init cap) xs))" by blast
    from cv_step_operation [OF cv_next(2)] show ?case
    proof
      assume "\<exists>x. c_queue t = snd (snd (queue_do (c_queue s) x))"
      then obtain x where "c_queue t = snd (snd (queue_do (c_queue s) x))" by blast
      then show ?thesis using xs by (intro exI [of _ "xs @ [x]"]) (simp add: queue_run_snoc)
    qed (use xs in auto)
  qed
  then show ?thesis using that by (metis prod.collapse)
qed

section \<open>No lost wake-ups\<close>

lemma at_rest_counts:
  assumes "\<forall>p \<in> set ps. at_rest p"
  shows "count_if helps_pop ps = 0" "count_if helps_push ps = 0"
    "count_if ((=) NotifyAllNotEmpty) ps = 0" "count_if ((=) NotifyAllNotFull) ps = 0"
proof -
  have "\<not> helps_pop p \<and> \<not> helps_push p \<and> p \<noteq> NotifyAllNotEmpty \<and> p \<noteq> NotifyAllNotFull"
    if "p \<in> set ps" for p
    using assms that by (cases p) force+
  then show "count_if helps_pop ps = 0" "count_if helps_push ps = 0"
    "count_if ((=) NotifyAllNotEmpty) ps = 0" "count_if ((=) NotifyAllNotFull) ps = 0"
    by (auto simp: count_if_def filter_empty_conv)
qed

text \<open>
  C3. No wake-up is lost, for any number of producers, consumers and closing threads, in any
  interleaving of their critical sections and notifications, with spurious wake-ups and timeouts.
  When every thread is outside the queue or asleep in it, a consumer sleeps only if the queue is
  empty and open, and a producer sleeps only if the queue is full and open.
\<close>

theorem no_lost_wakeup:
  assumes "0 < cap" and "cv_reachable cap n s" and "\<forall>p \<in> set (c_pcs s). at_rest p"
  shows "(PopSleep timed \<in> set (c_pcs s) \<longrightarrow>
            queue_items (c_queue s) = [] \<and> \<not> q_closed (c_queue s)) \<and>
         (PushSleep v timed \<in> set (c_pcs s) \<longrightarrow>
            length (queue_items (c_queue s)) = Capacity (c_queue s) \<and> \<not> q_closed (c_queue s))"
proof -
  have inv: "cv_inv s" using cv_inv_reachable [OF assms(1,2)] .
  have pop: "0 < count_if is_pop_sleep (c_pcs s)" if "PopSleep timed \<in> set (c_pcs s)"
    using that by (auto simp: count_if_def filter_empty_conv intro: bexI [of _ "PopSleep timed"])
  have push: "0 < count_if is_push_sleep (c_pcs s)" if "PushSleep v timed \<in> set (c_pcs s)"
    using that by (auto simp: count_if_def filter_empty_conv intro: bexI [of _ "PushSleep v timed"])
  show ?thesis
    using inv pop push queue_items_empty_iff [of "c_queue s"] at_rest_counts [OF assms(3)] queue_inv_bounds(3) [of "c_queue s"]
    by (auto simp: cv_inv_def)
qed

lemma full_example_reachable: "cv_reachable 1 2 full_example"
proof -
  let ?q = "push_locked (BoundedQueue_init 1) (7 :: nat)"
  let ?s0 = "\<lparr>c_queue = BoundedQueue_init 1, c_pcs = replicate 2 Idle\<rparr> :: nat cvq"
  have "cv_step ?s0 (move ?s0 0 (after_push QueuePushResult.pushed) ?q)"
    by (rule cv_step.try_push) (simp_all add: try_push_def BoundedQueue_init_def)
  then have 1: "cv_reachable 1 2 (move ?s0 0 NotifyNotEmpty ?q)"
    using cv_next [OF cv_init] by (simp add: after_push_def)
  then have 2: "cv_reachable 1 2 (move (move ?s0 0 NotifyNotEmpty ?q) 0 Idle ?q)"
    using cv_step.notify_not_empty_none [of 0 "move ?s0 0 NotifyNotEmpty ?q"]
    by (simp add: numeral_2_eq_2 count_if_def cv_next)
  have "cv_step (move (move ?s0 0 NotifyNotEmpty ?q) 0 Idle ?q)
     (move (move (move ?s0 0 NotifyNotEmpty ?q) 0 Idle ?q) 1 (PushSleep 8 True) ?q)"
    using cv_step.push_enter [of 1 "move (move ?s0 0 NotifyNotEmpty ?q) 0 Idle ?q" 8 True]
    by (simp add: wait_push_None_iff BoundedQueue_init_def numeral_2_eq_2)
  from cv_next [OF 2 this] show ?thesis
    by (simp add: full_example_def move_def numeral_2_eq_2)
qed

theorem no_lost_wakeup_witness:
  "PushSleep 8 True \<in> set (c_pcs full_example) \<and>
   length (queue_items (c_queue full_example)) = Capacity (c_queue full_example) \<and>
   \<not> q_closed (c_queue full_example)"
proof -
  have "\<forall>p \<in> set (c_pcs full_example). at_rest p" by (simp add: full_example_def)
  from no_lost_wakeup [OF _ full_example_reachable this, of True 8] show ?thesis
    by (simp add: full_example_def)
qed

end
