(* ===== verification/Binary64.thy ===== *)
theory Binary64
  imports Prelude "HOL-Library.Log_Nat"
begin

text \<open>
  The C++ type \<open>double\<close> as the sources use it: IEEE 754 binary64 values with their comparison
  operators, the conversion of small integers and division with rounding to nearest, ties to
  even. A finite value is a sign and a rational magnitude, so that the two zeros stay apart;
  comparisons with a NaN are false, as in C++. Every definition is executable.
\<close>

section \<open>Values and comparisons\<close>

datatype double = DNaN | DInf bool | DFin bool rat

fun dval :: "double \<Rightarrow> rat" where
  "dval (DFin neg m) = (if neg then - m else m)"
| "dval _ = 0"

definition isfinite :: "double \<Rightarrow> bool" where
  "isfinite x = (case x of DFin _ _ \<Rightarrow> True | _ \<Rightarrow> False)"

text \<open>A literal of the source whose value binary64 represents exactly.\<close>

definition dlit :: "rat \<Rightarrow> double" where
  "dlit q = DFin (q < 0) \<bar>q\<bar>"

fun dle :: "double \<Rightarrow> double \<Rightarrow> bool" where
  "dle DNaN _ = False"
| "dle _ DNaN = False"
| "dle (DInf s) (DInf t) = (s \<or> \<not> t)"
| "dle (DInf s) (DFin _ _) = s"
| "dle (DFin _ _) (DInf t) = (\<not> t)"
| "dle (DFin s m) (DFin t n) = (dval (DFin s m) \<le> dval (DFin t n))"

definition dge :: "double \<Rightarrow> double \<Rightarrow> bool" where
  "dge x y = dle y x"

text \<open>The operator \<open>==\<close>: false on NaN, true on zeros of either sign.\<close>

definition deq :: "double \<Rightarrow> double \<Rightarrow> bool" where
  "deq x y = (dle x y \<and> dle y x)"

section \<open>Rounding to nearest, ties to even\<close>

text \<open>The binary exponent of a positive rational: the greatest \<open>e\<close> with \<open>2 powi e \<le> m\<close>.\<close>

definition expo :: "rat \<Rightarrow> int" where
  "expo m =
     (let (a, b) = quotient_of m;
          e = int (floorlog 2 (nat a)) - int (floorlog 2 (nat b))
      in if 2 powi e \<le> m then e else e - 1)"

definition round_half_even :: "rat \<Rightarrow> int" where
  "round_half_even q =
     (let f = \<lfloor>q\<rfloor>; d = q - of_int f
      in if d < 1 / 2 then f else if 1 / 2 < d then f + 1 else if even f then f else f + 1)"

text \<open>
  The distance between neighbouring doubles around a magnitude: 53 significant bits, and the
  subnormal spacing below the least normal exponent.
\<close>

definition quantum :: "rat \<Rightarrow> rat" where
  "quantum m = 2 powi (max (expo m) (- 1022) - 52)"

definition round_mag :: "rat \<Rightarrow> rat" where
  "round_mag m =
     (if m = 0 then 0 else of_int (round_half_even (m / quantum m)) * quantum m)"

definition to_double :: "bool \<Rightarrow> rat \<Rightarrow> double" where
  "to_double neg m = (let r = round_mag m in if 2 ^ 1024 \<le> r then DInf neg else DFin neg r)"

text \<open>
  \<open>static_cast<double>\<close> of an integer of at most 32 bits, which is exact, and the operators
  \<open>/\<close> and \<open>*\<close>.
\<close>

definition double_of_int :: "int \<Rightarrow> double" where
  "double_of_int i = DFin (i < 0) (of_int \<bar>i\<bar>)"

fun ddiv :: "double \<Rightarrow> double \<Rightarrow> double" where
  "ddiv DNaN _ = DNaN"
| "ddiv _ DNaN = DNaN"
| "ddiv (DInf _) (DInf _) = DNaN"
| "ddiv (DInf s) (DFin t _) = DInf (s \<noteq> t)"
| "ddiv (DFin s _) (DInf t) = DFin (s \<noteq> t) 0"
| "ddiv (DFin s m) (DFin t n) =
     (if n = 0 then (if m = 0 then DNaN else DInf (s \<noteq> t)) else to_double (s \<noteq> t) (m / n))"

fun dmul :: "double \<Rightarrow> double \<Rightarrow> double" where
  "dmul DNaN _ = DNaN"
| "dmul _ DNaN = DNaN"
| "dmul (DInf s) (DInf t) = DInf (s \<noteq> t)"
| "dmul (DInf s) (DFin t n) = (if n = 0 then DNaN else DInf (s \<noteq> t))"
| "dmul (DFin s m) (DInf t) = (if m = 0 then DNaN else DInf (s \<noteq> t))"
| "dmul (DFin s m) (DFin t n) = to_double (s \<noteq> t) (m * n)"

section \<open>Facts\<close>

lemma dval_dlit [simp]: "dval (dlit q) = q"
  by (simp add: dlit_def)

lemma isfinite_dlit [simp]: "isfinite (dlit q)"
  by (simp add: dlit_def isfinite_def)

lemma isfinite_DFin [simp]:
  "isfinite (DFin s m)" "\<not> isfinite DNaN" "\<not> isfinite (DInf s)"
  by (simp_all add: isfinite_def)

lemma isfinite_iff: "isfinite x \<longleftrightarrow> (\<exists>s m. x = DFin s m)"
  by (cases x) auto

lemma dle_finite: "isfinite x \<Longrightarrow> isfinite y \<Longrightarrow> dle x y \<longleftrightarrow> dval x \<le> dval y"
  by (auto simp: isfinite_iff)

lemma dge_finite: "isfinite x \<Longrightarrow> isfinite y \<Longrightarrow> dge x y \<longleftrightarrow> dval y \<le> dval x"
  by (simp add: dge_def dle_finite)

lemma dle_trans: "dle x y \<Longrightarrow> dle y z \<Longrightarrow> dle x z"
  by (cases x; cases y; cases z) (auto split: if_splits)

lemma dle_NaN [simp]: "\<not> dle DNaN y" "\<not> dle x DNaN"
  by (cases x; cases y; simp)+

lemma floorlog_powi_bounds:
  assumes "0 < (n::nat)"
  shows "2 powi (int (floorlog 2 n) - 1) \<le> (of_nat n :: rat)"
    and "(of_nat n :: rat) < 2 powi int (floorlog 2 n)"
proof -
  have b: "2 ^ (floorlog 2 n - 1) \<le> n" "n < 2 ^ floorlog 2 n"
    using floorlog_bounds [of n 2] assms by auto
  have "floorlog 2 n \<noteq> 0"
    using assms floorlog_eq_zero_iff [of 2 n] by linarith
  then obtain k where k: "floorlog 2 n = Suc k"
    using not0_implies_Suc by blast
  have "(of_nat (2 ^ k) :: rat) \<le> of_nat n"
    using b(1) k by (metis of_nat_le_iff diff_Suc_1)
  then show "2 powi (int (floorlog 2 n) - 1) \<le> (of_nat n :: rat)"
    by (simp add: k)
  have "(of_nat n :: rat) < of_nat (2 ^ floorlog 2 n)"
    using b(2) by (metis of_nat_less_iff)
  then show "(of_nat n :: rat) < 2 powi int (floorlog 2 n)" by simp
qed

lemma expo_bounds:
  assumes "0 < m"
  shows "2 powi expo m \<le> m" and "m < 2 powi (expo m + 1)"
proof -
  obtain a b where ab: "quotient_of m = (a, b)" by fastforce
  have b: "0 < b" using quotient_of_denom_pos [OF ab] .
  have m: "m = of_int a / of_int b" using quotient_of_div [OF ab] .
  with assms b have a: "0 < a" by (simp add: zero_less_divide_iff)
  define la lb where "la = int (floorlog 2 (nat a))" and "lb = int (floorlog 2 (nat b))"
  have A: "2 powi (la - 1) \<le> (of_int a :: rat)" "(of_int a :: rat) < 2 powi la"
    using floorlog_powi_bounds [of "nat a"] a by (simp_all add: la_def)
  have B: "2 powi (lb - 1) \<le> (of_int b :: rat)" "(of_int b :: rat) < 2 powi lb"
    using floorlog_powi_bounds [of "nat b"] b by (simp_all add: lb_def)
  have pos: "(0::rat) < of_int b" using b by simp
  have lo: "2 powi (la - lb - 1) \<le> m"
  proof -
    have "2 powi (la - lb - 1) * of_int b \<le> 2 powi (la - lb - 1) * (2::rat) powi lb"
      using B(2) by (intro mult_left_mono) auto
    also have "\<dots> = 2 powi (la - 1)"
      by (simp flip: power_int_add)
    also have "\<dots> \<le> of_int a" by (rule A(1))
    finally show ?thesis using pos by (simp add: m pos_le_divide_eq)
  qed
  have hi: "m < 2 powi (la - lb + 1)"
  proof -
    have "of_int a < (2::rat) powi la" by (rule A(2))
    also have "\<dots> = 2 powi (la - lb + 1) * 2 powi (lb - 1)"
      by (simp flip: power_int_add)
    also have "\<dots> \<le> 2 powi (la - lb + 1) * of_int b"
      using B(1) by (intro mult_left_mono) auto
    finally show ?thesis using pos by (simp add: m pos_divide_less_eq)
  qed
  show "2 powi expo m \<le> m"
    using lo by (auto simp: expo_def ab la_def lb_def Let_def)
  show "m < 2 powi (expo m + 1)"
    using hi by (auto simp: expo_def ab la_def lb_def Let_def)
qed

lemma round_half_even_error: "\<bar>of_int (round_half_even q) - q\<bar> \<le> 1 / 2"
proof -
  have "of_int \<lfloor>q\<rfloor> \<le> q" and "q < of_int \<lfloor>q\<rfloor> + 1" by linarith+
  then show ?thesis by (auto simp: round_half_even_def Let_def)
qed

lemma round_half_even_of_int [simp]: "round_half_even (of_int k) = k"
  by (simp add: round_half_even_def)

lemma round_half_even_nonneg: "0 \<le> q \<Longrightarrow> 0 \<le> round_half_even q"
  by (simp add: round_half_even_def Let_def)

lemma quantum_pos [simp]: "0 < quantum m"
  by (simp add: quantum_def)

lemma quantum_nonzero [simp]: "quantum m \<noteq> 0"
  by (simp add: quantum_def)

lemma abs_quantum [simp]: "\<bar>quantum m\<bar> = quantum m"
  by (simp add: less_imp_le)

lemma round_mag_nonneg: "0 \<le> m \<Longrightarrow> 0 \<le> round_mag m"
  by (simp add: round_mag_def round_half_even_nonneg less_imp_le)

lemma round_mag_error: "\<bar>round_mag m - m\<bar> \<le> quantum m / 2"
proof (cases "m = 0")
  case True
  then show ?thesis by (simp add: round_mag_def less_imp_le)
next
  case False
  have "round_mag m - m = (of_int (round_half_even (m / quantum m)) - m / quantum m) * quantum m"
    using False by (simp add: round_mag_def algebra_simps)
  then have "\<bar>round_mag m - m\<bar>
      = \<bar>of_int (round_half_even (m / quantum m)) - m / quantum m\<bar> * quantum m"
    by (simp add: abs_mult)
  also have "\<dots> \<le> 1 / 2 * quantum m"
    by (intro mult_right_mono round_half_even_error) (simp add: less_imp_le)
  finally show ?thesis by simp
qed

lemma round_mag_exact: "m = of_int k * quantum m \<Longrightarrow> round_mag m = m"
  by (metis less_irrefl nonzero_mult_div_cancel_right quantum_pos round_half_even_of_int round_mag_def)

lemma expo_less:
  assumes "0 < m" and "m < 2 powi k"
  shows "expo m < k"
proof (rule ccontr)
  assume "\<not> expo m < k"
  then have "(2::rat) powi k \<le> 2 powi expo m" by (intro power_int_increasing) auto
  with expo_bounds(1) [OF assms(1)] assms(2) show False by linarith
qed

lemma expo_ge:
  assumes "0 < m" and "2 powi k \<le> m"
  shows "k \<le> expo m"
proof (rule ccontr)
  assume "\<not> k \<le> expo m"
  then have "(2::rat) powi (expo m + 1) \<le> 2 powi k" by (intro power_int_increasing) auto
  with expo_bounds(2) [OF assms(1)] assms(2) show False by linarith
qed

lemma quantum_le:
  assumes "0 < m" and "m < 2 powi k" and "- 1022 < k"
  shows "quantum m \<le> 2 powi (k - 53)"
  unfolding quantum_def using expo_less [OF assms(1,2)] assms(3)
  by (intro power_int_increasing) auto

text \<open>Binary fractions with at most 53 significant bits are doubles themselves.\<close>

lemma dyadic_quantum:
  assumes "0 < n" and "n < 2 ^ 53" and "j \<le> 52"
  shows "- 1022 \<le> expo (of_nat n / 2 ^ j)"
    and "\<exists>k. of_nat n / 2 ^ j = of_int k * quantum (of_nat n / 2 ^ j)"
proof -
  let ?m = "of_nat n / 2 ^ j :: rat"
  have pos: "0 < ?m" using assms(1) by simp
  have j: "(2::rat) powi (53 - int j) = 2 ^ 53 / 2 ^ j" "(2::rat) powi (- int j) = 1 / 2 ^ j"
    by (simp add: power_int_diff) (simp add: power_int_minus divide_inverse)
  have "(of_nat n :: rat) < of_nat (2 ^ 53)" using assms(2) by (simp only: of_nat_less_iff)
  then have "?m < 2 powi (53 - int j)"
    unfolding j(1) by (intro divide_strict_right_mono) simp_all
  with pos have hi: "expo ?m < 53 - int j" by (rule expo_less)
  have "2 powi (- int j) \<le> ?m" unfolding j(2) using assms(1) by (intro divide_right_mono) simp_all
  with pos have lo: "- int j \<le> expo ?m" by (rule expo_ge)
  then show "- 1022 \<le> expo ?m" using assms(3) by simp
  define i where "i = nat (52 - expo ?m)"
  have i: "j \<le> i" using hi by (simp add: i_def)
  have "max (expo ?m) (- 1022) - 52 = - int i" using lo hi assms(3) by (simp add: i_def)
  then have q: "quantum ?m = 1 / 2 ^ i"
    by (simp only: quantum_def) (simp add: power_int_minus divide_inverse)
  have "(2::rat) ^ i = 2 ^ (i - j) * 2 ^ j" using i by (simp flip: power_add)
  then have "?m = of_int (int n * 2 ^ (i - j)) * quantum ?m" unfolding q by simp
  then show "\<exists>k. ?m = of_int k * quantum ?m" by blast
qed

lemma round_mag_dyadic:
  assumes "n < 2 ^ 53" and "j \<le> 52"
  shows "round_mag (of_nat n / 2 ^ j) = of_nat n / 2 ^ j"
proof (cases "n = 0")
  case False
  then show ?thesis using dyadic_quantum(2) [of n j] assms round_mag_exact by blast
qed (simp add: round_mag_def)

text \<open>Rounding does not cross a number that needs no rounding.\<close>

lemma round_half_even_mono:
  "of_int k \<le> q \<Longrightarrow> k \<le> round_half_even q" "q \<le> of_int k \<Longrightarrow> round_half_even q \<le> k"
proof -
  show "k \<le> round_half_even q" if "of_int k \<le> q"
  proof -
    have "k \<le> \<lfloor>q\<rfloor>" using that by (simp add: le_floor_iff)
    then show ?thesis by (auto simp: round_half_even_def Let_def)
  qed
  show "round_half_even q \<le> k" if "q \<le> of_int k"
  proof (cases "q = of_int k")
    case False
    then have "\<lfloor>q\<rfloor> < k" using that by (simp add: floor_less_iff)
    then show ?thesis by (auto simp: round_half_even_def Let_def)
  qed simp
qed

lemma round_mag_multiple:
  assumes "0 < m"
  shows "of_int k * quantum m \<le> m \<Longrightarrow> of_int k * quantum m \<le> round_mag m"
    and "m \<le> of_int k * quantum m \<Longrightarrow> round_mag m \<le> of_int k * quantum m"
  using assms round_half_even_mono(1) [of k "m / quantum m"] round_half_even_mono(2) [of "m / quantum m" k]
  by (simp_all add: round_mag_def pos_le_divide_eq pos_divide_le_eq)

lemma round_mag_ge_dyadic:
  assumes "0 < n" and "n < 2 ^ 53" and "j \<le> 52" and "of_nat n / 2 ^ j \<le> m"
  shows "of_nat n / 2 ^ j \<le> round_mag m"
proof -
  let ?x = "of_nat n / 2 ^ j :: rat"
  have pos: "0 < ?x" "0 < m" using assms(1,4) by (auto intro: less_le_trans [of 0 ?x m])
  note x = dyadic_quantum [OF assms(1-3)]
  have "expo ?x \<le> expo m" using expo_ge [OF pos(2)] expo_bounds(1) [OF pos(1)] assms(4) by (meson order_trans)
  then consider "expo m = expo ?x" | "expo ?x + 1 \<le> expo m" by linarith
  then show ?thesis
  proof cases
    case 1
    then have "quantum m = quantum ?x" by (simp add: quantum_def)
    then show ?thesis using x(2) round_mag_multiple(1) [OF pos(2)] assms(4) by metis
  next
    case 2
    have "?x < 2 powi (expo ?x + 1)" by (rule expo_bounds(2) [OF pos(1)])
    also have "\<dots> \<le> (2::rat) powi expo m" using 2 by (intro power_int_increasing) auto
    finally have "?x < 2 powi expo m" .
    moreover have k: "(2::rat) powi expo m = of_int (2 ^ 52) * quantum m"
      using 2 x(1) by (simp add: quantum_def power_int_diff)
    have "(2::rat) powi expo m \<le> round_mag m"
      using round_mag_multiple(1) [OF pos(2), of "2 ^ 52"] expo_bounds(1) [OF pos(2)] k by simp
    ultimately show ?thesis by simp
  qed
qed

lemma round_mag_le_nat:
  assumes "0 < m" and "m \<le> of_nat n" and "n < 2 ^ 52"
  shows "round_mag m \<le> of_nat n"
proof -
  have "(of_nat n :: rat) < of_nat (2 ^ 52)" using assms(3) by (simp only: of_nat_less_iff)
  then have "m < 2 powi 52" using assms(2) by simp
  from expo_less [OF assms(1) this] have e: "max (expo m) (- 1022) - 52 \<le> 0" by simp
  define i where "i = nat (52 - max (expo m) (- 1022))"
  have "max (expo m) (- 1022) - 52 = - int i" using e by (simp add: i_def)
  then have "quantum m = 1 / 2 ^ i"
    by (simp only: quantum_def) (simp add: power_int_minus divide_inverse)
  then have "of_nat n = of_int (int n * 2 ^ i) * quantum m" by simp
  then show ?thesis using round_mag_multiple(2) [OF assms(1)] assms(2) by metis
qed

lemma to_double_dyadic:
  assumes "n < 2 ^ 53" and "j \<le> 52"
  shows "to_double neg (of_nat n / 2 ^ j) = DFin neg (of_nat n / 2 ^ j)"
proof -
  have "n < 2 ^ 1024" using assms(1) by (rule less_trans) simp
  also have "(2::nat) ^ 1024 \<le> 2 ^ 1024 * 2 ^ j" by simp
  finally have "(of_nat n :: rat) < of_nat (2 ^ 1024 * 2 ^ j)" by (simp only: of_nat_less_iff)
  then have "(of_nat n :: rat) / 2 ^ j < 2 ^ 1024"
    by (simp only: of_nat_mult of_nat_power of_nat_numeral pos_divide_less_eq zero_less_power zero_less_numeral)
  then have "\<not> 2 ^ 1024 \<le> (of_nat n :: rat) / 2 ^ j" by (simp only: not_le)
  then show ?thesis by (simp only: to_double_def Let_def round_mag_dyadic [OF assms] if_False)
qed

lemma round_mag_of_nat: "n < 2 ^ 53 \<Longrightarrow> round_mag (of_nat n) = of_nat n"
  using round_mag_dyadic [of n 0] by simp

lemma to_double_of_nat: "n < 2 ^ 53 \<Longrightarrow> to_double neg (of_nat n) = DFin neg (of_nat n)"
  using to_double_dyadic [of n 0] by simp

lemma to_double_close:
  assumes "0 < m" and "m < 2 ^ k" and "k < 60"
  shows "to_double False m = DFin False (round_mag m)" and "\<bar>round_mag m - m\<bar> \<le> 2 ^ k / 2 ^ 54"
proof -
  have m: "m < 2 powi int k" using assms(2) by simp
  have "quantum m \<le> 2 powi (int k - 53)" by (rule quantum_le [OF assms(1) m]) simp
  also have "(2::rat) powi (int k - 53) = 2 ^ k / 2 ^ 53" by (simp add: power_int_diff)
  finally show err: "\<bar>round_mag m - m\<bar> \<le> 2 ^ k / 2 ^ 54" using round_mag_error [of m] by simp
  have "(2::rat) ^ k / 2 ^ 54 \<le> 2 ^ k" by (simp add: divide_le_eq)
  then have "round_mag m < 2 ^ Suc k" using err assms(2) unfolding power_Suc by linarith
  also have "(2::rat) ^ Suc k \<le> 2 ^ 1024" using assms(3) by (intro power_increasing) simp_all
  finally show "to_double False m = DFin False (round_mag m)" by (simp add: to_double_def Let_def)
qed

section \<open>Fixed-point readings\<close>

text \<open>
  The bus protocols transmit integers in units of \<open>1/d\<close> and the code converts them with
  \<open>static_cast<double>(i) / d\<close>. The result is finite, its error is tiny against the unit, and
  comparing it with an integral threshold gives the answer of the exact comparison.
\<close>

definition scaled :: "int \<Rightarrow> int \<Rightarrow> double" where
  "scaled i d = ddiv (double_of_int i) (dlit (of_int d))"

lemma scaled_eq:
  assumes "0 < d" and "\<bar>i\<bar> < d * 2 ^ 22"
  shows "scaled i d = DFin (i < 0) (round_mag (of_int \<bar>i\<bar> / of_int d))"
proof -
  let ?m = "of_int \<bar>i\<bar> / of_int d :: rat"
  have "(of_int \<bar>i\<bar> :: rat) < of_int (d * 2 ^ 22)" using assms(2) by (simp only: of_int_less_iff)
  then have m: "?m < 2 ^ 22" using assms(1) by (simp add: pos_divide_less_eq mult.commute)
  have "round_mag ?m < 2 ^ 22 + 2"
  proof (cases "i = 0")
    case False
    have "quantum ?m \<le> 2 powi (22 - 53)"
      using False m assms(1) by (intro quantum_le) auto
    also have "(2::rat) powi (22 - 53) \<le> 2 powi 1" by (intro power_int_increasing) auto
    finally have "quantum ?m \<le> 2" by simp
    with round_mag_error [of ?m] m show ?thesis by linarith
  qed (simp add: round_mag_def)
  also have "(2 ^ 22 + 2 :: rat) \<le> 2 ^ 1024" by simp
  finally have "\<not> 2 ^ 1024 \<le> round_mag ?m" by simp
  then show ?thesis
    using assms(1) by (simp add: scaled_def double_of_int_def dlit_def to_double_def Let_def)
qed

lemma scaled_finite: "0 < d \<Longrightarrow> \<bar>i\<bar> < d * 2 ^ 22 \<Longrightarrow> isfinite (scaled i d)"
  by (simp add: scaled_eq)

lemma scaled_error:
  assumes "0 < d" and "\<bar>i\<bar> < d * 2 ^ 22"
  shows "\<bar>dval (scaled i d) - of_int i / of_int d\<bar> \<le> 1 / 2 ^ 32"
proof (cases "i = 0")
  case True
  then show ?thesis using assms by (simp add: scaled_eq round_mag_def)
next
  case False
  let ?m = "of_int \<bar>i\<bar> / of_int d :: rat"
  have "(of_int \<bar>i\<bar> :: rat) < of_int (d * 2 ^ 22)" using assms(2) by (simp only: of_int_less_iff)
  then have "?m < 2 powi 22" using assms(1) by (simp add: pos_divide_less_eq mult.commute)
  moreover have "0 < ?m" using False assms(1) by simp
  ultimately have "quantum ?m \<le> 2 powi (22 - 53)" by (intro quantum_le) auto
  also have "(2::rat) powi (22 - 53) = 1 / 2 ^ 31" by (simp add: power_int_def field_simps)
  finally have "\<bar>round_mag ?m - ?m\<bar> \<le> 1 / 2 ^ 32"
    using round_mag_error [of ?m] by simp
  moreover have "\<bar>dval (scaled i d) - of_int i / of_int d\<bar> = \<bar>round_mag ?m - ?m\<bar>"
  proof (cases "i < 0")
    case True
    then have "dval (scaled i d) - of_int i / of_int d = - (round_mag ?m - ?m)"
      using assms by (simp add: scaled_eq)
    then show ?thesis by (simp only: abs_minus_cancel)
  qed (use assms in \<open>simp add: scaled_eq\<close>)
  ultimately show ?thesis by simp
qed

lemma scaled_exact:
  assumes "0 < d" and "\<bar>t\<bar> < 2 ^ 22"
  shows "dval (scaled (t * d) d) = of_int t"
proof -
  have "\<bar>t * d\<bar> < d * 2 ^ 22" using assms by (simp add: abs_mult)
  moreover have "(of_int \<bar>t * d\<bar> / of_int d :: rat) = of_nat (nat \<bar>t\<bar>)"
    using assms(1) by (simp add: abs_mult)
  moreover have "round_mag (of_nat (nat \<bar>t\<bar>)) = of_nat (nat \<bar>t\<bar>)"
  proof (rule round_mag_of_nat)
    have "nat \<bar>t\<bar> < 2 ^ 22" using assms(2) by (simp add: nat_less_iff)
    also have "(2 ^ 22 :: nat) < 2 ^ 53" by simp
    finally show "nat \<bar>t\<bar> < 2 ^ 53" .
  qed
  ultimately show ?thesis
    using assms(1) by (auto simp: scaled_eq mult_less_0_iff)
qed

lemma scaled_cmp:
  assumes "0 < d" and "d < 2 ^ 32" and "\<bar>i\<bar> < d * 2 ^ 22" and "\<bar>t\<bar> < 2 ^ 22"
  shows "of_int t \<le> dval (scaled i d) \<longleftrightarrow> t * d \<le> i"
    and "dval (scaled i d) \<le> of_int t \<longleftrightarrow> i \<le> t * d"
proof -
  let ?v = "dval (scaled i d)"
  have d: "(0::rat) < of_int d" using assms(1) by simp
  have gap: "(1 / 2 ^ 32 :: rat) < 1 / of_int d"
  proof -
    have "(of_int d :: rat) < of_int (2 ^ 32)" using assms(2) by (simp only: of_int_less_iff)
    then show ?thesis using d by (simp add: field_simps)
  qed
  note err = scaled_error [OF assms(1,3)]
  have less: "?v < of_int t" if "i < t * d"
  proof -
    have "(of_int (i + 1) :: rat) \<le> of_int (t * d)" using that by (simp only: of_int_le_iff)
    then have "of_int i / of_int d + 1 / of_int d \<le> (of_int t :: rat)"
      using d by (simp add: field_simps)
    with err gap show ?thesis by linarith
  qed
  have greater: "of_int t < ?v" if "t * d < i"
  proof -
    have "(of_int (t * d + 1) :: rat) \<le> of_int i" using that by (simp only: of_int_le_iff)
    then have "of_int t + 1 / of_int d \<le> (of_int i / of_int d :: rat)"
      using d by (simp add: pos_le_divide_eq distrib_right)
    with err gap show ?thesis by linarith
  qed
  have equal: "?v = of_int t" if "i = t * d"
    using that scaled_exact [OF assms(1,4)] by simp
  show "of_int t \<le> ?v \<longleftrightarrow> t * d \<le> i"
    using less greater equal by (cases i "t * d" rule: linorder_cases) auto
  show "?v \<le> of_int t \<longleftrightarrow> i \<le> t * d"
    using less greater equal by (cases i "t * d" rule: linorder_cases) auto
qed

lemma scaled_inject:
  assumes "0 < d" and "d < 2 ^ 31" and "\<bar>i\<bar> < d * 2 ^ 22" and "\<bar>j\<bar> < d * 2 ^ 22"
    and "dval (scaled i d) = dval (scaled j d)"
  shows "i = j"
proof -
  have d: "(0::rat) < of_int d" using assms(1) by simp
  have "(of_int d :: rat) < of_int (2 ^ 31)" using assms(2) by (simp only: of_int_less_iff)
  then have "2 * (1 / 2 ^ 32 :: rat) < 1 / of_int d" using d by (simp add: field_simps)
  moreover have "\<bar>of_int i / of_int d - of_int j / of_int d :: rat\<bar> \<le> 2 * (1 / 2 ^ 32)"
    using scaled_error [OF assms(1,3)] scaled_error [OF assms(1,4)] assms(5) by linarith
  ultimately have "\<bar>of_int i / of_int d - of_int j / of_int d :: rat\<bar> < 1 / of_int d"
    by linarith
  then have "\<bar>of_int (i - j) :: rat\<bar> < 1" using d
    by (simp add: diff_divide_distrib [symmetric] divide_less_cancel del: of_int_diff)
  then show ?thesis by linarith
qed

end
