(* ===== verification/Domain.thy ===== *)
theory Domain
  imports Binary64
begin

text \<open>
  The domain vocabulary of \<open>include/edge_sentinel/domain\<close>: sensor samples, events, motor states,
  transition reasons and their textual names. Enumerators keep their C++ names and are used
  qualified by their type, as in the source.
\<close>

section \<open>Events (\<open>event.hpp\<close>)\<close>

record SensorSample =
  temperature_c :: double
  vibration_mm_s :: double
  current_a :: double
  online :: bool
  sequence :: uint64

text \<open>The value-initialised sample \<open>SensorSample{}\<close>.\<close>

definition SensorSample_default :: SensorSample where
  "SensorSample_default =
     \<lparr>temperature_c = dlit 0, vibration_mm_s = dlit 0, current_a = dlit 0, online = True,
      sequence = 0\<rparr>"

datatype EventKind =
    startup
  | self_test_passed
  | sensor_sample
  | reset_requested
  | shutdown_requested
  | internal_fault

record Event =
  kind :: EventKind
  sample :: SensorSample

definition Event_startup :: Event where
  "Event_startup = \<lparr>kind = EventKind.startup, sample = SensorSample_default\<rparr>"

definition Event_self_test_passed :: Event where
  "Event_self_test_passed = \<lparr>kind = EventKind.self_test_passed, sample = SensorSample_default\<rparr>"

definition Event_sensor_sample :: "SensorSample \<Rightarrow> Event" where
  "Event_sensor_sample v = \<lparr>kind = EventKind.sensor_sample, sample = v\<rparr>"

definition Event_reset_requested :: Event where
  "Event_reset_requested = \<lparr>kind = EventKind.reset_requested, sample = SensorSample_default\<rparr>"

definition Event_shutdown_requested :: Event where
  "Event_shutdown_requested =
     \<lparr>kind = EventKind.shutdown_requested, sample = SensorSample_default\<rparr>"

definition Event_internal_fault :: Event where
  "Event_internal_fault = \<lparr>kind = EventKind.internal_fault, sample = SensorSample_default\<rparr>"

lemmas Event_defs = Event_startup_def Event_self_test_passed_def Event_sensor_sample_def
  Event_reset_requested_def Event_shutdown_requested_def Event_internal_fault_def

lemma kind_Event [simp]:
  "kind Event_startup = EventKind.startup"
  "kind Event_self_test_passed = EventKind.self_test_passed"
  "kind (Event_sensor_sample v) = EventKind.sensor_sample"
  "kind Event_reset_requested = EventKind.reset_requested"
  "kind Event_shutdown_requested = EventKind.shutdown_requested"
  "kind Event_internal_fault = EventKind.internal_fault"
  by (simp_all add: Event_defs)

lemma sample_Event [simp]: "sample (Event_sensor_sample v) = v"
  by (simp add: Event_defs)

section \<open>States and transitions (\<open>state.hpp\<close>)\<close>

datatype MotorState =
    booting
  | self_test
  | healthy
  | degraded
  | fault_latched
  | safe_shutdown

datatype TransitionReason =
    none
  | startup_requested
  | self_test_succeeded
  | warning_persisted
  | readings_recovered
  | critical_reading
  | sensor_offline
  | internal_resource_failure
  | manual_reset
  | shutdown_requested

record StateTransition =
  previous :: MotorState
  current :: MotorState
  reason :: TransitionReason
  changed :: bool

section \<open>Names (\<open>format.hpp\<close>)\<close>

fun MotorState_to_string :: "MotorState \<Rightarrow> string" where
  "MotorState_to_string MotorState.booting = ''Booting''"
| "MotorState_to_string MotorState.self_test = ''SelfTest''"
| "MotorState_to_string MotorState.healthy = ''Healthy''"
| "MotorState_to_string MotorState.degraded = ''Degraded''"
| "MotorState_to_string MotorState.fault_latched = ''FaultLatched''"
| "MotorState_to_string MotorState.safe_shutdown = ''SafeShutdown''"

fun TransitionReason_to_string :: "TransitionReason \<Rightarrow> string" where
  "TransitionReason_to_string TransitionReason.none = ''none''"
| "TransitionReason_to_string TransitionReason.startup_requested = ''startup_requested''"
| "TransitionReason_to_string TransitionReason.self_test_succeeded = ''self_test_succeeded''"
| "TransitionReason_to_string TransitionReason.warning_persisted = ''warning_persisted''"
| "TransitionReason_to_string TransitionReason.readings_recovered = ''readings_recovered''"
| "TransitionReason_to_string TransitionReason.critical_reading = ''critical_reading''"
| "TransitionReason_to_string TransitionReason.sensor_offline = ''sensor_offline''"
| "TransitionReason_to_string TransitionReason.internal_resource_failure =
     ''internal_resource_failure''"
| "TransitionReason_to_string TransitionReason.manual_reset = ''manual_reset''"
| "TransitionReason_to_string TransitionReason.shutdown_requested = ''shutdown_requested''"

lemma MotorState_to_string_inject:
  "MotorState_to_string s = MotorState_to_string t \<longleftrightarrow> s = t"
  by (cases s; cases t) simp_all

end
