(* ===== verification/Measurement.thy ===== *)
theory Measurement
  imports Domain
begin

text \<open>
  The measurements of \<open>include/edge_sentinel/protocols/measurement.hpp\<close>, which the UART and CAN
  decoders produce and the Linux sensor sources collect into a sample.
\<close>

datatype MeasurementKind = temperature | vibration | current | online

fun MeasurementKind_value :: "MeasurementKind \<Rightarrow> uint8" where
  "MeasurementKind_value MeasurementKind.temperature = 1"
| "MeasurementKind_value MeasurementKind.vibration = 2"
| "MeasurementKind_value MeasurementKind.current = 3"
| "MeasurementKind_value MeasurementKind.online = 4"

text \<open>\<open>static_cast<MeasurementKind>\<close>, which the source applies to the values of enumerators only.\<close>

definition MeasurementKind_cast :: "uint8 \<Rightarrow> MeasurementKind" where
  "MeasurementKind_cast v =
     (if v = 1 then MeasurementKind.temperature
      else if v = 2 then MeasurementKind.vibration
      else if v = 3 then MeasurementKind.current
      else MeasurementKind.online)"

record Measurement =
  me_kind :: MeasurementKind
  me_value :: double

definition apply_measurement :: "SensorSample \<Rightarrow> Measurement \<Rightarrow> SensorSample" where
  "apply_measurement s m =
     (case me_kind m of
        MeasurementKind.temperature \<Rightarrow> s\<lparr>temperature_c := me_value m\<rparr>
      | MeasurementKind.vibration \<Rightarrow> s\<lparr>vibration_mm_s := me_value m\<rparr>
      | MeasurementKind.current \<Rightarrow> s\<lparr>current_a := me_value m\<rparr>
      | MeasurementKind.online \<Rightarrow> s\<lparr>SensorSample.online := (\<not> deq (me_value m) (dlit 0))\<rparr>)"

lemma MeasurementKind_cast_value [simp]: "MeasurementKind_cast (MeasurementKind_value k) = k"
  by (cases k) (simp_all add: MeasurementKind_cast_def)

lemma MeasurementKind_range: "1 \<le> MeasurementKind_value k \<and> MeasurementKind_value k \<le> 4"
  by (cases k) (simp_all add: word_le_nat_alt)

lemma MeasurementKind_value_cast:
  assumes "1 \<le> v" and "v \<le> 4"
  shows "MeasurementKind_value (MeasurementKind_cast v) = v"
proof -
  have "unat v \<in> {1, 2, 3, 4}" using assms by (auto simp: word_le_nat_alt)
  then have "v \<in> {1, 2, 3, 4}" by (auto simp: word_unat_eq_iff)
  then show ?thesis by (auto simp: MeasurementKind_cast_def)
qed

section \<open>Values in thousandths\<close>

lemma sint_32_range: "\<bar>sint (w :: 32 word)\<bar> < 1000 * 2 ^ 22"
proof -
  have "\<bar>sint w\<bar> \<le> 2 ^ 31"
    using sint_greater_eq [of w] sint_less [of w] by (simp add: abs_le_iff)
  then show ?thesis by simp
qed

lemma thousandths_scaled: "ddiv (double_of_int i) (dlit 1000) = scaled i 1000"
  by (simp add: scaled_def)

lemma thousandths_finite: "isfinite (ddiv (double_of_int (sint (w :: 32 word))) (dlit 1000))"
  unfolding thousandths_scaled by (rule scaled_finite) (use sint_32_range [of w] in simp_all)

text \<open>
  The quotient is rounded, but comparing it with an integral threshold gives the answer of the exact
  comparison, and different raw values give different quotients.
\<close>

lemma thousandths_cmp:
  assumes "\<bar>t\<bar> < 2 ^ 22"
  shows "dge (ddiv (double_of_int (sint (w :: 32 word))) (dlit 1000)) (dlit (of_int t)) \<longleftrightarrow>
      1000 * t \<le> sint w"
    and "dle (ddiv (double_of_int (sint (w :: 32 word))) (dlit 1000)) (dlit (of_int t)) \<longleftrightarrow>
      sint w \<le> 1000 * t"
  using scaled_cmp [of 1000 "sint w" t] sint_32_range [of w] assms thousandths_finite [of w]
  by (simp_all add: thousandths_scaled dge_finite dle_finite mult.commute)

lemma thousandths_inject:
  assumes "dval (ddiv (double_of_int (sint (v :: 32 word))) (dlit 1000)) =
    dval (ddiv (double_of_int (sint w)) (dlit 1000))"
  shows "v = w"
proof -
  have "sint v = sint w"
    using scaled_inject [of 1000 "sint v" "sint w"] sint_32_range [of v] sint_32_range [of w] assms
    by (simp add: thousandths_scaled)
  then show ?thesis by (rule signed_word_eqI)
qed

end
