(* ===== verification/Crc16.thy ===== *)
theory Crc16
  imports Prelude
begin

text \<open>
  The checksum \<open>crc16_ccitt\<close> of \<open>include/edge_sentinel/protocols/uart_protocol.hpp\<close>, computed as in the
  source in a 32-bit register, and its theory: it is the 16-bit shift register with polynomial
  \<open>0x1021\<close> fed bit by bit, that register is linear and never returns to zero by shifting alone, and
  hence a message with its checksum appended shows every error confined to 16 consecutive bits.
\<close>

section \<open>Model\<close>

definition crc_bit :: "uint32 \<Rightarrow> uint32" where
  "crc_bit crc =
     (let crc = (if crc AND 0x8000 \<noteq> 0 then push_bit 1 crc XOR 0x1021 else push_bit 1 crc)
      in crc AND 0xFFFF)"

definition crc_byte :: "uint32 \<Rightarrow> byte \<Rightarrow> uint32" where
  "crc_byte crc b = (crc_bit ^^ 8) (crc XOR push_bit 8 (ucast b))"

definition crc16_ccitt :: "byte list \<Rightarrow> uint16" where
  "crc16_ccitt bytes = ucast (foldl crc_byte 0xFFFF bytes)"

section \<open>The shift register\<close>

definition shift16 :: "uint16 \<Rightarrow> uint16" where
  "shift16 s = push_bit 1 s XOR (if bit s 15 then 0x1021 else 0)"

definition feed_bit :: "uint16 \<Rightarrow> bool \<Rightarrow> uint16" where
  "feed_bit s b = shift16 (s XOR (if b then 0x8000 else 0))"

text \<open>The bits of a byte and of a message, most significant first.\<close>

definition byte_bits :: "byte \<Rightarrow> bool list" where
  "byte_bits b = map (bit b) (rev [0..<8])"

definition message_bits :: "byte list \<Rightarrow> bool list" where
  "message_bits bytes = concat (map byte_bits bytes)"

text \<open>Up to sixteen bits placed in a register, the first bit on top.\<close>

fun load :: "bool list \<Rightarrow> uint16" where
  "load [] = 0"
| "load (b # bs) = (if b then 0x8000 else 0) XOR drop_bit 1 (load bs)"

definition differ_within :: "nat \<Rightarrow> nat \<Rightarrow> 'a list \<Rightarrow> 'a list \<Rightarrow> bool" where
  "differ_within k n xs ys \<longleftrightarrow>
     length xs = length ys \<and> (\<forall>i < length xs. xs ! i \<noteq> ys ! i \<longrightarrow> k \<le> i \<and> i < k + n)"

lemma bit_0x1021: "bit (0x1021 :: 'a::len word) n \<longleftrightarrow> n < LENGTH('a) \<and> (n = 0 \<or> n = 5 \<or> n = 12)"
proof -
  have "(0x1021 :: 'a word) = set_bit 0 (set_bit 5 (set_bit 12 0))"
    by simp
  also have "bit \<dots> n \<longleftrightarrow> n < LENGTH('a) \<and> (n = 0 \<or> n = 5 \<or> n = 12)"
    by (simp only: bit_set_bit_iff) auto
  finally show ?thesis .
qed

lemma bit_0x8000: "bit (0x8000 :: 'a::len word) n \<longleftrightarrow> n < LENGTH('a) \<and> n = 15"
proof -
  have "(0x8000 :: 'a word) = push_bit 15 1" by simp
  also have "bit \<dots> n \<longleftrightarrow> n < LENGTH('a) \<and> n = 15" by (simp only: bit_push_bit_iff bit_1_iff) auto
  finally show ?thesis .
qed

lemma bit_shift16:
  "bit (shift16 s) n \<longleftrightarrow> n < 16 \<and> ((0 < n \<and> bit s (n - 1)) \<noteq> (bit s 15 \<and> (n = 0 \<or> n = 5 \<or> n = 12)))"
  unfolding shift16_def bit_xor_iff bit_push_bit_iff if_distrib [where f = "\<lambda>w. bit w n"] bit_0x1021
  by auto

lemma shift16_xor: "shift16 (s XOR t) = shift16 s XOR shift16 t"
  by (rule bit_eqI) (auto simp: bit_shift16 bit_xor_iff)

lemma shift16_eq_0: "shift16 s = 0 \<longleftrightarrow> s = 0"
proof
  assume zero: "shift16 s = 0"
  then have top: "\<not> bit s 15" using bit_shift16 [of s 0] by simp
  show "s = 0"
  proof (rule bit_eqI)
    fix n
    assume "possible_bit TYPE(uint16) n"
    then show "bit s n = bit 0 n"
      using top zero bit_shift16 [of s "Suc n"] by (cases "n = 15") auto
  qed
qed (simp add: shift16_def)

lemma shift16_power_xor: "(shift16 ^^ n) (s XOR t) = (shift16 ^^ n) s XOR (shift16 ^^ n) t"
  by (induction n) (simp_all add: shift16_xor)

lemma shift16_power_eq_0: "(shift16 ^^ n) s = 0 \<longleftrightarrow> s = 0"
  by (induction n) (simp_all add: shift16_eq_0)

lemma xor_eq_0_iff: "s XOR t = 0 \<longleftrightarrow> s = (t :: uint16)"
  by (auto simp: bit_eq_iff bit_xor_iff)

declare bit_numeral_word_iff [simp del]

section \<open>Bits and bytes\<close>

lemma bit_16: "16 \<le> n \<Longrightarrow> \<not> bit (w :: uint16) n"
  using bit_imp_le_length [of w n] by auto

lemma bit_load:
  "length bs \<le> 16 \<Longrightarrow> n < 16 \<Longrightarrow> bit (load bs) n \<longleftrightarrow> 15 - n < length bs \<and> bs ! (15 - n)"
proof (induction bs arbitrary: n)
  case (Cons b bs)
  show ?case
  proof (cases "n = 15")
    case True
    then show ?thesis by (simp add: bit_xor_iff bit_drop_bit_eq bit_0x8000 bit_16)
  next
    case False
    then have n: "Suc n < 16" "15 - n = Suc (15 - Suc n)" using Cons.prems(2) by simp_all
    have "bit (load (b # bs)) n \<longleftrightarrow> bit (load bs) (Suc n)"
      using False by (simp add: bit_xor_iff bit_drop_bit_eq bit_0x8000)
    also have "\<dots> \<longleftrightarrow> 15 - Suc n < length bs \<and> bs ! (15 - Suc n)"
      using Cons n(1) by simp
    finally show ?thesis using n(2) by simp
  qed
qed simp

lemma load_eq_0: "length bs \<le> 16 \<Longrightarrow> load bs = 0 \<longleftrightarrow> True \<notin> set bs"
proof
  assume len: "length bs \<le> 16" and zero: "load bs = 0"
  have "\<not> bs ! i" if "i < length bs" for i
    using bit_load [OF len, of "15 - i"] that len zero by simp
  then show "True \<notin> set bs" by (metis in_set_conv_nth)
next
  show "True \<notin> set bs \<Longrightarrow> load bs = 0" by (induction bs) auto
qed

lemma shift16_drop:
  assumes "\<not> bit w 0"
  shows "shift16 (drop_bit 1 w) = w"
proof (rule bit_eqI)
  fix n
  assume "possible_bit TYPE(uint16) n"
  then show "bit (shift16 (drop_bit 1 w)) n = bit w n"
    using assms by (cases n) (auto simp: bit_shift16 bit_drop_bit_eq bit_16)
qed

text \<open>Feeding up to sixteen bits one by one is loading them at once and then shifting.\<close>

lemma feed_bits_load:
  "length bs \<le> 16 \<Longrightarrow> foldl feed_bit s bs = (shift16 ^^ length bs) (s XOR load bs)"
proof (induction bs arbitrary: s)
  case (Cons b bs)
  let ?b = "if b then 0x8000 else 0 :: uint16"
  have "\<not> bit (load bs) 0" using Cons.prems bit_load [of bs 0] by simp
  then have "shift16 (s XOR ?b) XOR load bs = shift16 ((s XOR ?b) XOR drop_bit 1 (load bs))"
    unfolding shift16_xor [of _ "drop_bit 1 (load bs)"] by (subst shift16_drop) simp_all
  also have "(s XOR ?b) XOR drop_bit 1 (load bs) = s XOR load (b # bs)"
    by (simp only: load.simps xor.assoc)
  finally have "shift16 (s XOR ?b) XOR load bs = shift16 (s XOR load (b # bs))" .
  then show ?case
    using Cons by (simp add: feed_bit_def funpow_swap1 del: load.simps)
qed simp

lemma length_byte_bits [simp]: "length (byte_bits b) = 8"
  by (simp add: byte_bits_def)

lemma nth_byte_bits: "i < 8 \<Longrightarrow> byte_bits b ! i = bit b (7 - i)"
  by (simp add: byte_bits_def rev_nth)

lemma byte_bits_inject: "byte_bits a = byte_bits b \<longleftrightarrow> a = b"
proof
  assume eq: "byte_bits a = byte_bits b"
  show "a = b"
  proof (rule bit_eqI)
    fix n
    assume "possible_bit TYPE(byte) n"
    then show "bit a n = bit b n"
      using eq nth_byte_bits [of "7 - n" a] nth_byte_bits [of "7 - n" b] by simp
  qed
qed simp

lemma message_bits_simps [simp]:
  "message_bits [] = []" "message_bits (b # bs) = byte_bits b @ message_bits bs"
  "message_bits (xs @ ys) = message_bits xs @ message_bits ys"
  by (simp_all add: message_bits_def)

lemma length_message_bits [simp]: "length (message_bits bytes) = 8 * length bytes"
  by (induction bytes) simp_all

lemma message_bits_inject: "length xs = length ys \<Longrightarrow> message_bits xs = message_bits ys \<longleftrightarrow> xs = ys"
  by (induction xs ys rule: list_induct2) (simp_all add: byte_bits_inject)

lemma load_byte_bits: "load (byte_bits b) = push_bit 8 (ucast b)"
proof (rule bit_eqI)
  fix n
  assume "possible_bit TYPE(uint16) n"
  then show "bit (load (byte_bits b)) n = bit (push_bit 8 (ucast b :: uint16)) n"
    using bit_load [of "byte_bits b" n] nth_byte_bits [of "15 - n" b]
    by (cases "8 \<le> n") (simp_all add: bit_push_bit_iff bit_ucast_iff less_diff_conv2)
qed

lemma load_two_bytes: "load (byte_bits a @ byte_bits b) = join16 a b"
proof (rule bit_eqI)
  fix n
  assume "possible_bit TYPE(uint16) n"
  then show "bit (load (byte_bits a @ byte_bits b)) n = bit (join16 a b) n"
    using bit_load [of "byte_bits a @ byte_bits b" n] nth_byte_bits [of "15 - n" a]
      nth_byte_bits [of "7 - n" b]
    by (auto simp: bit_join16 nth_append)
qed

section \<open>The program computes the register\<close>

lemma bit_0xFFFF: "bit (0xFFFF :: uint32) n \<longleftrightarrow> n < 16"
proof -
  have "(0xFFFF :: uint32) = mask 16" by (simp add: mask_eq_exp_minus_1)
  then show ?thesis by (simp only: bit_mask_iff) auto
qed

lemma crc_bit_test: "(ucast (s :: uint16) :: uint32) AND 0x8000 \<noteq> 0 \<longleftrightarrow> bit s 15"
proof
  assume "(ucast s :: uint32) AND 0x8000 \<noteq> 0"
  then obtain n where "bit ((ucast s :: uint32) AND 0x8000) n" by (auto simp: bit_eq_iff)
  then show "bit s 15" by (auto simp: bit_and_iff bit_ucast_iff bit_0x8000)
next
  assume "bit s 15"
  then have "bit ((ucast s :: uint32) AND 0x8000) 15"
    by (simp add: bit_and_iff bit_ucast_iff bit_0x8000)
  then show "(ucast s :: uint32) AND 0x8000 \<noteq> 0" by auto
qed

lemma crc_bit_shift16: "crc_bit (ucast s) = ucast (shift16 s)"
proof (rule bit_eqI)
  fix n
  assume "possible_bit TYPE(uint32) n"
  then have n: "n < 32" by simp
  have 1: "bit (push_bit 1 (ucast s :: uint32)) n \<longleftrightarrow> 0 < n \<and> bit s (n - 1)"
    using n by (simp only: bit_push_bit_iff bit_ucast_iff) auto
  show "bit (crc_bit (ucast s)) n = bit (ucast (shift16 s) :: uint32) n"
    unfolding crc_bit_def Let_def crc_bit_test bit_and_iff bit_0xFFFF bit_ucast_iff bit_shift16
      if_distrib [where f = "\<lambda>w. bit w n"] bit_xor_iff 1 bit_0x1021
    using n by auto
qed

lemma crc_bit_power: "(crc_bit ^^ n) (ucast s) = ucast ((shift16 ^^ n) s)"
  by (induction n) (simp_all add: crc_bit_shift16)

lemma crc_byte_feed: "crc_byte (ucast s) b = ucast (foldl feed_bit s (byte_bits b))"
proof -
  have "(ucast s :: uint32) XOR push_bit 8 (ucast b) = ucast (s XOR push_bit 8 (ucast b))"
    by (rule bit_eqI, simp only: bit_xor_iff bit_push_bit_iff bit_ucast_iff)
       (auto dest: bit_imp_le_length)
  then show ?thesis
    by (simp add: crc_byte_def crc_bit_power feed_bits_load load_byte_bits)
qed

lemma crc_bytes_feed: "foldl crc_byte (ucast s) bytes = ucast (foldl feed_bit s (message_bits bytes))"
  by (induction bytes arbitrary: s) (simp_all add: crc_byte_feed)

text \<open>The source's checksum is the register after all bits of the message.\<close>

lemma crc16_register: "crc16_ccitt bytes = foldl feed_bit 0xFFFF (message_bits bytes)"
proof -
  have "foldl crc_byte (ucast (0xFFFF :: uint16)) bytes =
      ucast (foldl feed_bit 0xFFFF (message_bits bytes))"
    by (rule crc_bytes_feed)
  moreover have "ucast (ucast w :: uint32) = w" for w :: uint16
    by (rule bit_eqI) (auto simp: bit_ucast_iff)
  ultimately show ?thesis by (simp add: crc16_ccitt_def)
qed

section \<open>Error detection\<close>

text \<open>A message is consistent with the two checksum bytes that follow it if the register ends at zero.\<close>

lemma crc16_residue:
  "crc16_ccitt bytes = join16 a b \<longleftrightarrow>
     foldl feed_bit 0xFFFF (message_bits (bytes @ [a, b])) = 0"
proof -
  have "foldl feed_bit 0xFFFF (message_bits (bytes @ [a, b])) =
      (shift16 ^^ 16) (crc16_ccitt bytes XOR (join16 a b))"
    using feed_bits_load [of "byte_bits a @ byte_bits b" "crc16_ccitt bytes"]
    by (simp add: crc16_register load_two_bytes)
  also have "\<dots> = 0 \<longleftrightarrow> crc16_ccitt bytes XOR (join16 a b) = 0"
    by (rule shift16_power_eq_0)
  finally show ?thesis by (simp only: xor_eq_0_iff)
qed

lemma feed_bit_xor: "feed_bit (s XOR t) (x \<noteq> e) = feed_bit s x XOR feed_bit t e"
proof -
  have "(if x \<noteq> e then 0x8000 else 0) = (if x then 0x8000 else 0) XOR (if e then 0x8000 else 0 :: uint16)"
    by simp
  then show ?thesis by (simp only: feed_bit_def shift16_xor ac_simps)
qed

lemma feed_bits_xor:
  "length xs = length ys \<Longrightarrow>
     foldl feed_bit (s XOR t) ys = foldl feed_bit s xs XOR foldl feed_bit t (map2 (\<noteq>) xs ys)"
proof (induction xs ys arbitrary: s t rule: list_induct2)
  case (Cons x xs y ys)
  have "feed_bit (s XOR t) y = feed_bit s x XOR feed_bit t (x \<noteq> y)"
    using feed_bit_xor [of s t x "x \<noteq> y"] by (cases x) simp_all
  then show ?case using Cons.IH by simp
qed simp

lemma feed_zeros: "True \<notin> set bs \<Longrightarrow> foldl feed_bit s bs = (shift16 ^^ length bs) s"
  by (induction bs arbitrary: s) (auto simp: feed_bit_def funpow_swap1)

text \<open>An error pattern confined to sixteen consecutive bits leaves a non-zero register.\<close>

lemma feed_burst:
  assumes "\<And>i. i < length es \<Longrightarrow> es ! i \<Longrightarrow> k \<le> i \<and> i < k + 16" and "True \<in> set es"
  shows "foldl feed_bit 0 es \<noteq> 0"
proof -
  let ?a = "take k es" and ?b = "take 16 (drop k es)" and ?c = "drop (k + 16) es"
  have es: "es = ?a @ ?b @ ?c"
    by (simp add: add.commute [of k] flip: drop_drop)
  have a: "True \<notin> set ?a"
  proof
    assume "True \<in> set ?a"
    then obtain i where "i < k" "i < length es" "es ! i" by (auto simp: in_set_conv_nth)
    then show False using assms(1) [of i] by simp
  qed
  have c: "True \<notin> set ?c"
  proof
    assume "True \<in> set ?c"
    then obtain i where "k + 16 + i < length es" "es ! (k + 16 + i)"
      by (auto simp: in_set_conv_nth less_diff_conv ac_simps)
    then show False using assms(1) [of "k + 16 + i"] by simp
  qed
  have "set es = set ?a \<union> set ?b \<union> set ?c"
    using arg_cong [OF es, of set] by (simp only: set_append Un_assoc)
  then have b: "True \<in> set ?b" using assms(2) a c by blast
  have "foldl feed_bit 0 ?a = 0"
    using feed_zeros [OF a, of 0] by (metis shift16_power_eq_0)
  moreover have "foldl feed_bit 0 ?b = (shift16 ^^ length ?b) (load ?b)"
    using feed_bits_load [of ?b 0] by simp
  moreover have "foldl feed_bit 0 es = foldl feed_bit (foldl feed_bit (foldl feed_bit 0 ?a) ?b) ?c"
    using arg_cong [OF es, of "foldl feed_bit 0"] by (simp only: foldl_append)
  ultimately have "foldl feed_bit 0 es = (shift16 ^^ length ?c) ((shift16 ^^ length ?b) (load ?b))"
    by (simp only: feed_zeros [OF c])
  moreover have "load ?b \<noteq> 0" using load_eq_0 [of ?b] b by simp
  ultimately show ?thesis by (simp add: shift16_power_eq_0)
qed

lemma residue_burst:
  assumes "foldl feed_bit s xs = 0" and "differ_within k 16 xs ys" and "xs \<noteq> ys"
  shows "foldl feed_bit s ys \<noteq> 0"
proof -
  let ?es = "map2 (\<noteq>) xs ys"
  have len: "length xs = length ys" using assms(2) by (simp add: differ_within_def)
  then obtain i where "i < length xs" "xs ! i \<noteq> ys ! i" using assms(3) by (auto simp: list_eq_iff_nth_eq)
  then have "i < length ?es" "?es ! i = True" using len by simp_all
  then have "True \<in> set ?es" using nth_mem [of i ?es] by simp
  moreover have "k \<le> i \<and> i < k + 16" if "i < length ?es" "?es ! i" for i
    using assms(2) that by (simp add: differ_within_def)
  ultimately have "foldl feed_bit 0 ?es \<noteq> 0" using feed_burst [of ?es k] by simp
  then show ?thesis using feed_bits_xor [OF len, of s 0] assms(1) by simp
qed

end
