(* ===== verification/Uart_Protocol.thy ===== *)
theory Uart_Protocol
  imports Measurement Crc16
begin

text \<open>
  The UART frame format of \<open>include/edge_sentinel/protocols/uart_protocol.hpp\<close>: twelve bytes with a
  two-byte magic number, a version, a measurement kind, a sequence number, a value in thousandths
  and a checksum; the encoder, and the incremental decoder, which is fed one byte at a time. An
  array is a list; \<open>std::int32_t\<close> is the 32-bit word read by \<open>sint\<close>.
\<close>

section \<open>Model\<close>

definition kUartMagicFirst :: byte where
  "kUartMagicFirst = 0xAA"

definition kUartMagicSecond :: byte where
  "kUartMagicSecond = 0x55"

definition kUartProtocolVersion :: byte where
  "kUartProtocolVersion = 0x01"

definition kUartFrameSize :: nat where
  "kUartFrameSize = 12"

record UartFrame =
  uf_kind :: MeasurementKind
  uf_sequence :: uint16
  uf_milli_value :: "32 word"

text \<open>The first ten bytes of a frame, and the frame with its checksum.\<close>

definition uart_payload :: "UartFrame \<Rightarrow> byte list" where
  "uart_payload frame =
     [kUartMagicFirst, kUartMagicSecond, kUartProtocolVersion,
      MeasurementKind_value (uf_kind frame),
      byte_at 8 (uf_sequence frame), byte_at 0 (uf_sequence frame),
      byte_at 24 (uf_milli_value frame), byte_at 16 (uf_milli_value frame),
      byte_at 8 (uf_milli_value frame), byte_at 0 (uf_milli_value frame)]"

definition encode_uart_frame :: "UartFrame \<Rightarrow> byte list" where
  "encode_uart_frame frame =
     (let bytes = uart_payload frame; crc = crc16_ccitt bytes
      in bytes @ [byte_at 8 crc, byte_at 0 crc])"

record UartFrameDecoder =
  d_buffer :: "byte list"
  d_position :: nat
  d_crc_errors :: size_t
  d_format_errors :: size_t

definition UartFrameDecoder_init :: UartFrameDecoder where
  "UartFrameDecoder_init =
     \<lparr>d_buffer = replicate kUartFrameSize 0, d_position = 0, d_crc_errors = 0, d_format_errors = 0\<rparr>"

definition crc_errors :: "UartFrameDecoder \<Rightarrow> size_t" where
  "crc_errors d = d_crc_errors d"

definition format_errors :: "UartFrameDecoder \<Rightarrow> size_t" where
  "format_errors d = d_format_errors d"

text \<open>The second half of \<open>feed\<close>, reached when the buffer is full.\<close>

definition complete_frame :: "UartFrameDecoder \<Rightarrow> UartFrame option \<times> UartFrameDecoder" where
  "complete_frame d =
     (let d = d\<lparr>d_position := 0\<rparr>;
          buffer = d_buffer d;
          expected_crc = join16 (buffer ! 10) (buffer ! 11);
          actual_crc = crc16_ccitt (take 10 buffer)
      in if expected_crc \<noteq> actual_crc then (None, d\<lparr>d_crc_errors := d_crc_errors d + 1\<rparr>)
         else if buffer ! 2 \<noteq> kUartProtocolVersion
         then (None, d\<lparr>d_format_errors := d_format_errors d + 1\<rparr>)
         else let kind_value = buffer ! 3 in
           if kind_value < MeasurementKind_value MeasurementKind.temperature \<or>
              MeasurementKind_value MeasurementKind.online < kind_value
           then (None, d\<lparr>d_format_errors := d_format_errors d + 1\<rparr>)
           else (Some \<lparr>uf_kind = MeasurementKind_cast kind_value,
                       uf_sequence = join16 (buffer ! 4) (buffer ! 5),
                       uf_milli_value = join32 (buffer ! 6) (buffer ! 7) (buffer ! 8) (buffer ! 9)\<rparr>,
                 d))"

definition feed :: "UartFrameDecoder \<Rightarrow> byte \<Rightarrow> UartFrame option \<times> UartFrameDecoder" where
  "feed d b =
     (let put = d\<lparr>d_buffer := (d_buffer d)[d_position d := b], d_position := d_position d + 1\<rparr> in
      if d_position d = 0 then (None, if b = kUartMagicFirst then put else d)
      else if d_position d = 1
      then (None, if b = kUartMagicSecond then put
                  else if b \<noteq> kUartMagicFirst then d\<lparr>d_position := 0\<rparr> else d)
      else if d_position put < length (d_buffer put) then (None, put)
      else complete_frame put)"

definition decode_uart_measurement :: "UartFrame \<Rightarrow> Measurement" where
  "decode_uart_measurement frame =
     (if uf_kind frame = MeasurementKind.online
      then \<lparr>me_kind = uf_kind frame, me_value = (if uf_milli_value frame = 0 then dlit 0 else dlit 1)\<rparr>
      else \<lparr>me_kind = uf_kind frame,
            me_value = ddiv (double_of_int (sint (uf_milli_value frame))) (dlit 1000)\<rparr>)"

text \<open>A stream of bytes: the frames delivered, in order, and the decoder afterwards.\<close>

fun feed_all :: "UartFrameDecoder \<Rightarrow> byte list \<Rightarrow> UartFrame list \<times> UartFrameDecoder" where
  "feed_all d [] = ([], d)"
| "feed_all d (b # bs) =
     (let (r, d') = feed d b; (fs, d'') = feed_all d' bs
      in (case r of None \<Rightarrow> fs | Some f \<Rightarrow> f # fs, d''))"

section \<open>Specification\<close>

text \<open>Frames on the wire, each preceded by other bytes.\<close>

fun weave :: "byte list list \<Rightarrow> UartFrame list \<Rightarrow> byte list" where
  "weave (g # gs) (f # fs) = g @ encode_uart_frame f @ weave gs fs"
| "weave _ _ = []"

text \<open>Bytes that nowhere contain the two magic bytes in a row.\<close>

fun no_magic :: "byte list \<Rightarrow> bool" where
  "no_magic (a # b # bs) \<longleftrightarrow> \<not> (a = kUartMagicFirst \<and> b = kUartMagicSecond) \<and> no_magic (b # bs)"
| "no_magic _ \<longleftrightarrow> True"

definition decoder_inv :: "UartFrameDecoder \<Rightarrow> bool" where
  "decoder_inv d \<longleftrightarrow>
     length (d_buffer d) = kUartFrameSize \<and> d_position d < kUartFrameSize \<and>
     (1 \<le> d_position d \<longrightarrow> d_buffer d ! 0 = kUartMagicFirst) \<and>
     (2 \<le> d_position d \<longrightarrow> d_buffer d ! 1 = kUartMagicSecond)"

text \<open>The bytes collected for the current frame are the last ones received.\<close>

definition collected :: "UartFrameDecoder \<Rightarrow> byte list" where
  "collected d = take (d_position d) (d_buffer d)"

text \<open>Between frames the decoder is idle, or has just seen the first magic byte.\<close>

definition between_frames :: "UartFrameDecoder \<Rightarrow> bool" where
  "between_frames d \<longleftrightarrow> length (d_buffer d) = 12 \<and>
     (d_position d = 0 \<or> d_position d = 1 \<and> d_buffer d ! 0 = kUartMagicFirst)"

text \<open>A temperature of 43.605 degrees: the value bytes contain the magic number.\<close>

definition magic_frame :: UartFrame where
  "magic_frame = \<lparr>uf_kind = MeasurementKind.temperature, uf_sequence = 0, uf_milli_value = 43605\<rparr>"

section \<open>Frames\<close>

lemmas magic_defs = kUartMagicFirst_def kUartMagicSecond_def kUartProtocolVersion_def

lemma length_encode [simp]: "length (encode_uart_frame f) = 12"
  by (simp add: encode_uart_frame_def uart_payload_def Let_def)

lemma list_of_12:
  assumes "length w = 12"
  shows "w = [w ! 0, w ! 1, w ! 2, w ! 3, w ! 4, w ! 5, w ! 6, w ! 7, w ! 8, w ! 9, w ! 10, w ! 11]"
  by (rule nth_equalityI) (use assms in \<open>auto simp: less_Suc_eq numeral_eq_Suc\<close>)

lemma split_12:
  assumes "length w = 12"
  shows "w = take 10 w @ [w ! 10, w ! 11]"
proof -
  have "drop 10 w = [w ! 10, w ! 11]"
    using assms by (auto simp: list_eq_iff_nth_eq less_Suc_eq numeral_2_eq_2)
  then show ?thesis by (metis append_take_drop_id)
qed

text \<open>What a full buffer yields, by the two checks of the source.\<close>

lemma encode_parts:
  "take 10 (encode_uart_frame f) = uart_payload f"
  "encode_uart_frame f ! 10 = byte_at 8 (crc16_ccitt (uart_payload f))"
  "encode_uart_frame f ! 11 = byte_at 0 (crc16_ccitt (uart_payload f))"
  by (simp_all add: encode_uart_frame_def uart_payload_def Let_def)

lemma encode_magic:
  "encode_uart_frame f ! 0 = kUartMagicFirst" "encode_uart_frame f ! 1 = kUartMagicSecond"
  by (simp_all add: encode_uart_frame_def uart_payload_def Let_def)

text \<open>The decoder accepts a buffer exactly if it is the encoding of a frame, and delivers that frame.\<close>

lemma complete_frame_encode:
  assumes "d_buffer d = encode_uart_frame f"
  shows "complete_frame d = (Some f, d\<lparr>d_position := 0\<rparr>)"
proof -
  have "\<not> MeasurementKind_value (uf_kind f) < 1 \<and> \<not> 4 < MeasurementKind_value (uf_kind f)"
    using MeasurementKind_range [of "uf_kind f"] by auto
  moreover have "encode_uart_frame f ! 2 = kUartProtocolVersion"
    "encode_uart_frame f ! 3 = MeasurementKind_value (uf_kind f)"
    "encode_uart_frame f ! 4 = byte_at 8 (uf_sequence f)"
    "encode_uart_frame f ! 5 = byte_at 0 (uf_sequence f)"
    "encode_uart_frame f ! 6 = byte_at 24 (uf_milli_value f)"
    "encode_uart_frame f ! 7 = byte_at 16 (uf_milli_value f)"
    "encode_uart_frame f ! 8 = byte_at 8 (uf_milli_value f)"
    "encode_uart_frame f ! 9 = byte_at 0 (uf_milli_value f)"
    by (simp_all add: encode_uart_frame_def uart_payload_def Let_def)
  ultimately show ?thesis
    using assms by (simp add: complete_frame_def Let_def encode_parts byte_simps)
qed

lemma complete_frame_Some:
  assumes "complete_frame d = (Some f, d')" and "length (d_buffer d) = 12"
    and "d_buffer d ! 0 = kUartMagicFirst" and "d_buffer d ! 1 = kUartMagicSecond"
  shows "d_buffer d = encode_uart_frame f \<and> d' = d\<lparr>d_position := 0\<rparr>"
proof -
  let ?w = "d_buffer d"
  have crc: "crc16_ccitt (take 10 ?w) = join16 (?w ! 10) (?w ! 11)" and v: "?w ! 2 = kUartProtocolVersion"
    and k: "?w ! 3 \<noteq> 0" "?w ! 3 \<le> 4"
    and f: "f = \<lparr>uf_kind = MeasurementKind_cast (?w ! 3), uf_sequence = join16 (?w ! 4) (?w ! 5),
        uf_milli_value = join32 (?w ! 6) (?w ! 7) (?w ! 8) (?w ! 9)\<rparr>"
    and d': "d' = d\<lparr>d_position := 0\<rparr>"
    using assms(1) by (auto simp: complete_frame_def Let_def split: if_splits)
  have k1: "1 \<le> ?w ! 3" using k(1) by (simp add: word_le_nat_alt Suc_le_eq unat_gt_0)
  have w: "?w = [?w ! 0, ?w ! 1, ?w ! 2, ?w ! 3, ?w ! 4, ?w ! 5, ?w ! 6, ?w ! 7, ?w ! 8, ?w ! 9,
      ?w ! 10, ?w ! 11]"
    by (rule list_of_12 [OF assms(2)])
  have payload: "uart_payload f = take 10 ?w"
    using arg_cong [OF w, of "take 10"] assms(3,4) v MeasurementKind_value_cast [OF k1 k(2)]
    by (simp add: uart_payload_def f byte_simps)
  have "encode_uart_frame f = take 10 ?w @ [?w ! 10, ?w ! 11]"
    by (simp add: encode_uart_frame_def payload crc byte_simps)
  also have "\<dots> = ?w" using split_12 [OF assms(2)] by simp
  finally show ?thesis using d' by simp
qed

lemma complete_frame_crc_error:
  "crc16_ccitt (take 10 (d_buffer d)) \<noteq> join16 (d_buffer d ! 10) (d_buffer d ! 11) \<Longrightarrow>
     complete_frame d = (None, d\<lparr>d_position := 0, d_crc_errors := d_crc_errors d + 1\<rparr>)"
  by (simp add: complete_frame_def Let_def)

lemma complete_frame_frame:
  "d_buffer (snd (complete_frame d)) = d_buffer d" "d_position (snd (complete_frame d)) = 0"
  by (simp_all add: complete_frame_def Let_def)

section \<open>Feeding\<close>

lemma feed_all_append:
  "feed_all d (xs @ ys) =
     (let (fs, d') = feed_all d xs; (gs, d'') = feed_all d' ys in (fs @ gs, d''))"
  by (induction xs arbitrary: d) (auto simp: split_beta Let_def split: option.splits)

text \<open>Once the magic number has been seen, bytes are collected until the frame is full.\<close>

lemma feed_body:
  assumes "2 \<le> d_position d" and "d_position d + length bs < 12" and "length (d_buffer d) = 12"
  shows "feed_all d bs = ([], d\<lparr>d_buffer := take (d_position d) (d_buffer d) @ bs @
      drop (d_position d + length bs) (d_buffer d), d_position := d_position d + length bs\<rparr>)"
  using assms
proof (induction bs arbitrary: d)
  case (Cons b bs)
  let ?d = "d\<lparr>d_buffer := (d_buffer d)[d_position d := b], d_position := d_position d + 1\<rparr>"
  have "feed d b = (None, ?d)" using Cons.prems by (simp add: feed_def Let_def)
  moreover have "feed_all ?d bs = ([], ?d\<lparr>d_buffer := take (d_position ?d) (d_buffer ?d) @ bs @
      drop (d_position ?d + length bs) (d_buffer ?d), d_position := d_position ?d + length bs\<rparr>)"
    using Cons.prems by (intro Cons.IH) simp_all
  moreover have "take (Suc (d_position d)) ((d_buffer d)[d_position d := b]) =
      take (d_position d) (d_buffer d) @ [b]"
    using Cons.prems by (simp add: take_Suc_conv_app_nth)
  ultimately show ?case by simp
qed simp

text \<open>Twelve bytes that start with the magic number, fed between frames, are judged as a whole.\<close>

lemma feed_frame:
  assumes "d_position d = 0 \<or> d_position d = 1 \<and> d_buffer d ! 0 = kUartMagicFirst"
    and "length (d_buffer d) = 12" and "length w = 12"
    and "w ! 0 = kUartMagicFirst" and "w ! 1 = kUartMagicSecond"
  shows "feed_all d w =
    (case complete_frame (d\<lparr>d_buffer := w, d_position := 12\<rparr>) of
       (None, d') \<Rightarrow> ([], d') | (Some f, d') \<Rightarrow> ([f], d'))"
proof -
  obtain bs b where w: "w = [kUartMagicFirst, kUartMagicSecond] @ bs @ [b]" "length bs = 9"
  proof -
    let ?bs = "[w ! 2, w ! 3, w ! 4, w ! 5, w ! 6, w ! 7, w ! 8, w ! 9, w ! 10]"
    have "w = [w ! 0, w ! 1] @ ?bs @ [w ! 11]" using list_of_12 [OF assms(3)] by simp
    then show ?thesis using that [of ?bs "w ! 11"] assms(4,5) by simp
  qed
  obtain x y rest where buf: "d_buffer d = x # y # rest" "length rest = 10"
    using assms(2) by (cases "d_buffer d"; cases "tl (d_buffer d)") auto
  let ?d2 = "d\<lparr>d_buffer := kUartMagicFirst # kUartMagicSecond # rest, d_position := 2\<rparr>"
  have two: "feed_all d [kUartMagicFirst, kUartMagicSecond] = ([], ?d2)"
    using assms(1) buf by (elim disjE) (auto simp: feed_def Let_def magic_defs)
  let ?d3 = "d\<lparr>d_buffer := [kUartMagicFirst, kUartMagicSecond] @ bs @ drop 9 rest, d_position := 11\<rparr>"
  have body: "feed_all ?d2 bs = ([], ?d3)"
    using feed_body [of ?d2 bs] buf(2) w(2) by simp
  have "length (drop 9 rest) = Suc 0" using buf(2) by simp
  then obtain z where "drop 9 rest = [z]" by (cases "drop 9 rest") auto
  then have last: "feed ?d3 b = complete_frame (d\<lparr>d_buffer := w, d_position := 12\<rparr>)"
    using w by (simp add: feed_def Let_def list_update_append)
  have "feed_all d w = feed_all ?d3 [b]"
    unfolding w(1) feed_all_append two Let_def split
    by (simp only: body split append_Nil) (simp add: split_beta)
  then show ?thesis using last by (simp add: split_beta split: option.splits)
qed

section \<open>Noise\<close>

lemma feed_noise:
  assumes "no_magic g" and "d_position d = 0 \<or> d_position d = 1 \<and> (g \<noteq> [] \<longrightarrow> hd g \<noteq> kUartMagicSecond)"
    and "between_frames d"
  shows "\<exists>d'. feed_all d g = ([], d') \<and> between_frames d' \<and>
     d_crc_errors d' = d_crc_errors d \<and> d_format_errors d' = d_format_errors d"
  using assms
proof (induction g arbitrary: d)
  case (Cons b g)
  let ?d = "snd (feed d b)"
  have step: "fst (feed d b) = None" "between_frames ?d" "d_crc_errors ?d = d_crc_errors d"
    "d_format_errors ?d = d_format_errors d"
    "d_position ?d = 0 \<or> d_position ?d = 1 \<and> b = kUartMagicFirst"
    using Cons.prems(2,3)
    by (cases "d_buffer d"; auto simp: feed_def Let_def between_frames_def magic_defs)+
  have "no_magic g" using Cons.prems(1) by (cases g) auto
  moreover have "b = kUartMagicFirst \<Longrightarrow> g \<noteq> [] \<Longrightarrow> hd g \<noteq> kUartMagicSecond"
    using Cons.prems(1) by (cases g) auto
  ultimately obtain d' where "feed_all ?d g = ([], d')" "between_frames d'"
    "d_crc_errors d' = d_crc_errors ?d" "d_format_errors d' = d_format_errors ?d"
    using Cons.IH [of ?d] step(2,5) by blast
  then show ?case
    using step by (intro exI [of _ d']) (simp add: split_beta)
qed auto

lemma between_frames_magic:
  assumes "between_frames d"
  shows "d_position d = 0 \<or> d_position d = 1 \<and> d_buffer d ! 0 = kUartMagicFirst"
    and "length (d_buffer d) = 12"
  using assms by (simp_all add: between_frames_def)

lemma feed_encoded:
  assumes "between_frames d"
  shows "feed_all d (encode_uart_frame f) =
    ([f], d\<lparr>d_buffer := encode_uart_frame f, d_position := 0\<rparr>)"
  using feed_frame [OF between_frames_magic [OF assms] length_encode encode_magic]
  by (simp add: complete_frame_encode)

lemma feed_weave:
  assumes "length gs = length fs" and "\<forall>g \<in> set gs. no_magic g"
    and "between_frames d" and "d_position d = 0"
  shows "\<exists>d'. feed_all d (weave gs fs) = (fs, d') \<and> between_frames d' \<and> d_position d' = 0 \<and>
     d_crc_errors d' = d_crc_errors d \<and> d_format_errors d' = d_format_errors d"
  using assms
proof (induction gs fs arbitrary: d rule: list_induct2)
  case (Cons g gs f fs)
  obtain d1 where 1: "feed_all d g = ([], d1)" "between_frames d1"
    "d_crc_errors d1 = d_crc_errors d" "d_format_errors d1 = d_format_errors d"
    using feed_noise [of g d] Cons.prems by auto
  let ?d2 = "d1\<lparr>d_buffer := encode_uart_frame f, d_position := 0\<rparr>"
  have "between_frames ?d2" by (simp add: between_frames_def)
  then obtain d3 where 3: "feed_all ?d2 (weave gs fs) = (fs, d3)" "between_frames d3"
    "d_position d3 = 0" "d_crc_errors d3 = d_crc_errors ?d2" "d_format_errors d3 = d_format_errors ?d2"
    using Cons.IH [of ?d2] Cons.prems(1) by auto
  then show ?case
    using 1 feed_encoded [OF 1(2), of f] by (intro exI [of _ d3]) (simp add: feed_all_append)
qed simp

section \<open>Soundness\<close>

lemma decoder_inv_init: "decoder_inv UartFrameDecoder_init"
  by (simp add: decoder_inv_def UartFrameDecoder_init_def kUartFrameSize_def)

lemma nth_take_snoc: "length xs = 12 \<Longrightarrow> i < 12 \<Longrightarrow> take (Suc i) (xs[i := b]) = take i xs @ [b]"
  by (simp add: take_Suc_conv_app_nth)

text \<open>
  One step: either nothing is delivered and the collected bytes are again the latest ones, or a
  frame is delivered and the collected bytes with the new one are its encoding.
\<close>

lemma feed_step:
  assumes "decoder_inv d" and "feed d b = (r, d')"
  shows "decoder_inv d' \<and>
    (case r of
       None \<Rightarrow> (\<exists>drop. collected d @ [b] = drop @ collected d')
     | Some f \<Rightarrow> collected d @ [b] = encode_uart_frame f \<and> collected d' = [])"
proof -
  let ?put = "d\<lparr>d_buffer := (d_buffer d)[d_position d := b], d_position := d_position d + 1\<rparr>"
  have len: "length (d_buffer d) = 12" "d_position d < 12"
    using assms(1) by (simp_all add: decoder_inv_def kUartFrameSize_def)
  have put: "collected ?put = collected d @ [b]"
    using len nth_take_snoc [of "d_buffer d" "d_position d" b] by (simp add: collected_def)
  consider (store) "r = None" "d' = ?put" "decoder_inv ?put"
    | (skip) "r = None" "collected d' = []" "decoder_inv d'"
    | (again) "r = None" "d' = d" "d_position d = 1" "b = kUartMagicFirst"
    | (full) "d_position d = 11" "complete_frame ?put = (r, d')"
  proof -
    consider "d_position d = 0" | "d_position d = 1" | "2 \<le> d_position d" "d_position d < 11"
      | "d_position d = 11"
      using len(2) by linarith
    then show ?thesis
      using assms that
      by cases (auto simp: feed_def Let_def decoder_inv_def collected_def kUartFrameSize_def
          magic_defs nth_list_update split: if_splits)
  qed
  then show ?thesis
  proof cases
    case store
    then show ?thesis using put by simp
  next
    case skip
    then show ?thesis by simp
  next
    case again
    moreover have "collected d = [kUartMagicFirst]"
      using assms(1) again len by (cases "d_buffer d") (auto simp: collected_def decoder_inv_def)
    ultimately show ?thesis using assms(1) by auto
  next
    case full
    have buf: "length (d_buffer ?put) = 12" "d_buffer ?put ! 0 = kUartMagicFirst"
      "d_buffer ?put ! 1 = kUartMagicSecond"
      using assms(1) full(1) by (simp_all add: decoder_inv_def kUartFrameSize_def)
    have inv: "decoder_inv d'" and "collected d' = []"
      using complete_frame_frame [of ?put] full buf(1)
      by (simp_all add: decoder_inv_def collected_def kUartFrameSize_def)
    moreover have "collected d @ [b] = d_buffer ?put"
      using put full(1) buf(1) by (simp add: collected_def)
    ultimately show ?thesis
      using complete_frame_Some [of ?put _ d'] full(2) buf by (cases r) auto
  qed
qed


lemma feed_all_sound:
  assumes "decoder_inv d" and "feed_all d bs = (fs, d')"
  shows "\<exists>gs tail. length gs = length fs \<and> collected d @ bs = weave gs fs @ tail"
  using assms
proof (induction bs arbitrary: d fs)
  case Nil
  then show ?case by (intro exI [of _ "[]"] exI [of _ "collected d"]) simp
next
  case (Cons b bs)
  obtain r d1 where 1: "feed d b = (r, d1)" by fastforce
  obtain hs where 2: "feed_all d1 bs = (hs, d')" using Cons.prems(2) 1 by (cases "feed_all d1 bs") simp
  note step = feed_step [OF Cons.prems(1) 1]
  obtain gs tail where gs: "length gs = length hs" "collected d1 @ bs = weave gs hs @ tail"
    using Cons.IH [OF step [THEN conjunct1] 2] by blast
  show ?case
  proof (cases r)
    case None
    then obtain skipped where s: "collected d @ [b] = skipped @ collected d1" using step by auto
    have fs: "fs = hs" using Cons.prems(2) 1 2 None by simp
    have "collected d @ b # bs = (collected d @ [b]) @ bs" by simp
    also have "\<dots> = skipped @ (collected d1 @ bs)" unfolding s by simp
    finally have "collected d @ b # bs = skipped @ weave gs hs @ tail" unfolding gs(2) .
    then show ?thesis
    proof (cases hs)
      case Nil
      then show ?thesis using fs by (intro exI [of _ "[]"] exI [of _ "collected d @ b # bs"]) simp
    next
      case (Cons f fs')
      then obtain g gs' where "gs = g # gs'" using gs(1) by (cases gs) auto
      then show ?thesis
        using \<open>collected d @ b # bs = skipped @ weave gs hs @ tail\<close> fs Cons gs(1)
        by (intro exI [of _ "(skipped @ g) # gs'"] exI [of _ tail]) simp
    qed
  next
    case (Some f)
    have fs: "fs = f # hs" using Cons.prems(2) 1 2 Some by simp
    have s: "collected d @ [b] = encode_uart_frame f" "collected d1 = []" using step Some by simp_all
    have "collected d @ b # bs = (collected d @ [b]) @ bs" by simp
    also have "\<dots> = encode_uart_frame f @ weave gs hs @ tail" using gs(2) unfolding s by simp
    finally have "collected d @ b # bs = encode_uart_frame f @ weave gs hs @ tail" .
    then show ?thesis
      using fs gs(1) by (intro exI [of _ "[] # gs"] exI [of _ tail]) simp
  qed
qed

lemma feed_bad_crc:
  assumes "between_frames d" and "length w = 12" and "w ! 0 = kUartMagicFirst"
    and "w ! 1 = kUartMagicSecond" and "crc16_ccitt (take 10 w) \<noteq> join16 (w ! 10) (w ! 11)"
  shows "feed_all d w =
    ([], d\<lparr>d_buffer := w, d_position := 0, d_crc_errors := d_crc_errors d + 1\<rparr>)"
  using feed_frame [OF between_frames_magic [OF assms(1)] assms(2-4)] assms(5)
  by (simp add: complete_frame_crc_error)

lemma residue_encode: "foldl feed_bit 0xFFFF (message_bits (encode_uart_frame f)) = 0"
  using crc16_residue [of "uart_payload f" "byte_at 8 (crc16_ccitt (uart_payload f))"
      "byte_at 0 (crc16_ccitt (uart_payload f))"]
  by (simp add: encode_uart_frame_def Let_def byte_simps)

text \<open>A change of one byte is a change within eight bits.\<close>

lemma differ_one_byte:
  assumes "i < length w"
  shows "differ_within (8 * i) 16 (message_bits w) (message_bits (w[i := b]))"
proof -
  have w: "w = take i w @ [w ! i] @ drop (Suc i) w" using assms by (simp add: id_take_nth_drop [symmetric])
  have w': "w[i := b] = take i w @ [b] @ drop (Suc i) w" using assms by (simp add: upd_conv_take_nth_drop)
  have "message_bits w = message_bits (take i w) @ byte_bits (w ! i) @ message_bits (drop (Suc i) w)"
    by (subst w) (simp only: message_bits_simps append_Nil2)
  moreover have "message_bits (w[i := b]) =
      message_bits (take i w) @ byte_bits b @ message_bits (drop (Suc i) w)"
    unfolding w' by (simp only: message_bits_simps append_Nil2)
  moreover have "length (message_bits (take i w)) = 8 * i" using assms by simp
  ultimately show ?thesis
    unfolding differ_within_def by (simp only: length_append length_byte_bits) (auto simp: nth_append)
qed

text \<open>The frame that contains the magic number in its value, and the window that starts there.\<close>

lemma crc_byte_eval:
  "crc_byte crc b = crc_bit (crc_bit (crc_bit (crc_bit (crc_bit (crc_bit (crc_bit (crc_bit
     (crc XOR push_bit 8 (ucast b)))))))))"
  by (simp add: crc_byte_def numeral_eq_Suc)

lemma magic_crc: "crc16_ccitt [0xAA, 0x55, 0x01, 0x01, 0x00, 0x00, 0x00, 0x00, 0xAA, 0x55] = 0xD47D"
  by (simp add: crc16_ccitt_def crc_byte_eval crc_bit_def)

lemma magic_payload: "uart_payload magic_frame = [0xAA, 0x55, 0x01, 0x01, 0x00, 0x00, 0x00, 0x00, 0xAA, 0x55]"
  by (simp add: uart_payload_def magic_frame_def magic_defs byte_at_def)

lemma magic_bytes:
  "encode_uart_frame magic_frame = [0xAA, 0x55, 0x01, 0x01, 0x00, 0x00, 0x00, 0x00, 0xAA, 0x55, 0xD4, 0x7D]"
  by (simp add: encode_uart_frame_def magic_payload magic_crc Let_def byte_at_def)

lemma magic_window:
  "crc16_ccitt [0xAA, 0x55, 0xD4, 0x7D, 0xAA, 0x55, 0x01, 0x01, 0x00, 0x00] = 0x9402"
  by (simp add: crc16_ccitt_def crc_byte_eval crc_bit_def)

lemma shift_windows: "drop k e @ concat (replicate n e) = concat (replicate n (drop k e @ take k e)) @ drop k e"
proof (induction n)
  case (Suc n)
  have "drop k e @ concat (replicate (Suc n) e) = drop k e @ take k e @ drop k e @ concat (replicate n e)"
    by (simp flip: append_assoc [of "take k e"])
  also have "\<dots> = concat (replicate (Suc n) (drop k e @ take k e)) @ drop k e" by (simp add: Suc)
  finally show ?case .
qed simp

lemma feed_windows:
  assumes "between_frames d" and "d_position d = 0"
  shows "\<exists>d'. feed_all d (concat (replicate n
        (drop 8 (encode_uart_frame magic_frame) @ take 8 (encode_uart_frame magic_frame)))) = ([], d') \<and>
     between_frames d' \<and> d_position d' = 0 \<and> d_crc_errors d' = d_crc_errors d + of_nat n"
  using assms
proof (induction n arbitrary: d)
  case (Suc n)
  let ?e = "encode_uart_frame magic_frame"
  let ?w = "drop 8 ?e @ take 8 ?e"
  let ?d = "d\<lparr>d_buffer := ?w, d_position := 0, d_crc_errors := d_crc_errors d + 1\<rparr>"
  have w: "length ?w = 12" "?w ! 0 = kUartMagicFirst" "?w ! 1 = kUartMagicSecond"
    by (simp_all add: magic_bytes magic_defs)
  have "crc16_ccitt (take 10 ?w) \<noteq> join16 (?w ! 10) (?w ! 11)"
    by (simp add: magic_bytes magic_window join16_def)
  then have step: "feed_all d ?w = ([], ?d)"
    using feed_bad_crc [OF Suc.prems(1) w(1-3)] by simp
  have "between_frames ?d" using w(1) by (simp add: between_frames_def)
  then obtain d' where "feed_all ?d (concat (replicate n ?w)) = ([], d')" "between_frames d'"
    "d_position d' = 0" "d_crc_errors d' = d_crc_errors ?d + of_nat n"
    using Suc.IH [of ?d] by auto
  then show ?case
    using step by (intro exI [of _ d']) (simp add: feed_all_append del: append_assoc)
qed simp

lemma feed_partial:
  assumes "between_frames d" and "d_position d = 0" and "length bs < 10"
  shows "\<exists>d'. feed_all d (kUartMagicFirst # kUartMagicSecond # bs) = ([], d') \<and>
     d_crc_errors d' = d_crc_errors d"
proof -
  let ?d = "d\<lparr>d_buffer := (d_buffer d)[0 := kUartMagicFirst, 1 := kUartMagicSecond], d_position := 2\<rparr>"
  have "feed_all d (kUartMagicFirst # kUartMagicSecond # bs) = feed_all ?d bs"
    using assms(2) by (simp add: feed_def Let_def magic_defs split_beta numeral_2_eq_2)
  then show ?thesis
    using feed_body [of ?d bs] assms(1,3) by (simp add: between_frames_def)
qed

section \<open>Properties\<close>

text \<open>
  C20. Frames survive transport: whatever frames are sent, each preceded by arbitrary bytes that do
  not contain the two magic bytes in a row (half a magic number included), the decoder delivers
  exactly these frames in this order, ends between frames and counts no error.
\<close>

theorem uart_stream_decodes:
  assumes "length gs = length fs" and "\<forall>g \<in> set gs. no_magic g"
  shows "\<exists>d. feed_all UartFrameDecoder_init (weave gs fs) = (fs, d) \<and> d_position d = 0 \<and>
     d_crc_errors d = 0 \<and> d_format_errors d = 0"
proof -
  have init: "between_frames UartFrameDecoder_init" "d_position UartFrameDecoder_init = 0"
    "d_crc_errors UartFrameDecoder_init = 0" "d_format_errors UartFrameDecoder_init = 0"
    by (simp_all add: between_frames_def UartFrameDecoder_init_def kUartFrameSize_def)
  show ?thesis using feed_weave [OF assms init(1,2)] init(3,4) by auto
qed

theorem uart_stream_decodes_witness:
  "\<exists>d. feed_all UartFrameDecoder_init (weave [[0x55, 0xAA], [1]] [magic_frame, magic_frame]) =
     ([magic_frame, magic_frame], d)"
  using uart_stream_decodes [of "[[0x55, 0xAA], [1]]" "[magic_frame, magic_frame]"]
  by (auto simp: kUartMagicFirst_def simp del: weave.simps)

text \<open>
  C21. The decoder invents nothing: on every byte stream, the delivered frames were on the wire,
  completely, one after the other and without overlap, in the order of delivery.
\<close>

theorem uart_decoder_sound:
  assumes "feed_all UartFrameDecoder_init bs = (fs, d)"
  shows "\<exists>gs tail. length gs = length fs \<and> bs = weave gs fs @ tail"
proof -
  have "collected UartFrameDecoder_init = []"
    by (simp add: collected_def UartFrameDecoder_init_def)
  then show ?thesis using feed_all_sound [OF decoder_inv_init assms] by simp
qed

theorem uart_decoder_sound_witness:
  "\<exists>gs tail. length gs = (1 :: nat) \<and> encode_uart_frame magic_frame = weave gs [magic_frame] @ tail"
proof -
  have "between_frames UartFrameDecoder_init"
    by (simp add: between_frames_def UartFrameDecoder_init_def kUartFrameSize_def)
  then show ?thesis using uart_decoder_sound [OF feed_encoded [of _ magic_frame]] by simp
qed

text \<open>
  C4. The checksum works: a frame damaged after its magic number in any way within 16 consecutive
  bits, in particular in a single bit, is never delivered; the decoder counts one checksum error
  and is ready for the next frame.
\<close>

theorem uart_burst_detected:
  assumes "d_position d = 0" and "length (d_buffer d) = kUartFrameSize" and "length w = kUartFrameSize"
    and "w ! 0 = kUartMagicFirst" and "w ! 1 = kUartMagicSecond" and "w \<noteq> encode_uart_frame f"
    and "differ_within k 16 (message_bits (encode_uart_frame f)) (message_bits w)"
  shows "feed_all d w =
    ([], d\<lparr>d_buffer := w, d_position := 0, d_crc_errors := d_crc_errors d + 1\<rparr>)"
proof -
  have len: "length (d_buffer d) = 12" "length w = 12"
    using assms(2,3) by (simp_all add: kUartFrameSize_def)
  have "message_bits (encode_uart_frame f) \<noteq> message_bits w"
    using message_bits_inject [of "encode_uart_frame f" w] len(2) assms(6) by simp
  from residue_burst [OF residue_encode assms(7) this]
  have "foldl feed_bit 0xFFFF (message_bits w) \<noteq> 0" .
  then have "crc16_ccitt (take 10 w) \<noteq> join16 (w ! 10) (w ! 11)"
    using crc16_residue [of "take 10 w" "w ! 10" "w ! 11"] split_12 [OF len(2)] by simp
  then show ?thesis
    using assms(1,4,5) len by (intro feed_bad_crc) (simp_all add: between_frames_def)
qed

theorem uart_burst_detected_witness:
  "feed_all UartFrameDecoder_init ((encode_uart_frame magic_frame)[9 := 0xF0]) =
    ([], UartFrameDecoder_init\<lparr>d_buffer := (encode_uart_frame magic_frame)[9 := 0xF0],
        d_position := 0, d_crc_errors := 1\<rparr>)"
proof -
  let ?e = "encode_uart_frame magic_frame"
  let ?w = "?e[9 := 0xF0]"
  have len: "length ?w = 12" by simp
  have "?w ! 9 \<noteq> ?e ! 9" by (simp add: magic_bytes)
  then have ne: "?w \<noteq> ?e" by metis
  have "?w ! 0 = kUartMagicFirst" "?w ! 1 = kUartMagicSecond"
    by (simp_all add: magic_bytes magic_defs)
  moreover have "differ_within 72 16 (message_bits ?e) (message_bits ?w)"
    using differ_one_byte [of 9 ?e "0xF0"] by simp
  ultimately show ?thesis
    using uart_burst_detected [of UartFrameDecoder_init ?w magic_frame 72] ne len
    by (simp add: UartFrameDecoder_init_def kUartFrameSize_def)
qed

text \<open>
  After an error the decoder does not always find the next frame. A sensor that repeats the
  frame of 43.605 degrees, whose value bytes contain the magic number, is joined in the middle of
  its first frame: every window of twelve bytes starts in the value of one frame and ends in the
  value of the next, so the decoder reports a checksum error per frame, forever, and never delivers
  one, although all frames after the first are complete and correct.
\<close>

lemma uart_resync_may_never_happen:
  "\<exists>d. feed_all UartFrameDecoder_init
      (drop 8 (encode_uart_frame magic_frame) @ concat (replicate n (encode_uart_frame magic_frame))) =
      ([], d) \<and> d_crc_errors d = of_nat n"
proof -
  let ?e = "encode_uart_frame magic_frame" and ?i = UartFrameDecoder_init
  have "between_frames ?i" "d_position ?i = 0" "d_crc_errors ?i = 0"
    by (simp_all add: between_frames_def UartFrameDecoder_init_def kUartFrameSize_def)
  then obtain d where d: "feed_all ?i (concat (replicate n (drop 8 ?e @ take 8 ?e))) = ([], d)"
    "between_frames d" "d_position d = 0" "d_crc_errors d = of_nat n"
    using feed_windows [of ?i n] by auto
  then obtain d' where "feed_all d (drop 8 ?e) = ([], d')" "d_crc_errors d' = of_nat n"
    using feed_partial [of d "drop 2 (drop 8 ?e)"] by (auto simp: magic_bytes magic_defs)
  then show ?thesis
    using d(1) by (simp add: shift_windows feed_all_append)
qed

text \<open>
  A frame's value becomes a finite number whose comparisons with integral thresholds agree with
  the thousandths that were sent, and applying it changes the field of its kind only; an online
  frame sets the online flag exactly if its value is not zero.
\<close>

lemma uart_measurement_exact:
  assumes "\<bar>t\<bar> < 2 ^ 22"
  shows "let m = decode_uart_measurement f; x = me_value m; s' = apply_measurement s m in
    me_kind m = uf_kind f \<and> isfinite x \<and>
    (uf_kind f \<noteq> MeasurementKind.online \<longrightarrow>
      (dge x (dlit (of_int t)) \<longleftrightarrow> 1000 * t \<le> sint (uf_milli_value f)) \<and>
      (dle x (dlit (of_int t)) \<longleftrightarrow> sint (uf_milli_value f) \<le> 1000 * t)) \<and>
    s' = \<lparr>temperature_c = (if uf_kind f = MeasurementKind.temperature then x else temperature_c s),
          vibration_mm_s = (if uf_kind f = MeasurementKind.vibration then x else vibration_mm_s s),
          current_a = (if uf_kind f = MeasurementKind.current then x else current_a s),
          SensorSample.online = (if uf_kind f = MeasurementKind.online then uf_milli_value f \<noteq> 0
                                 else SensorSample.online s),
          sequence = sequence s\<rparr>"
  using thousandths_finite [of "uf_milli_value f"] thousandths_cmp [OF assms, of "uf_milli_value f"]
  by (cases s; cases "uf_kind f")
     (simp_all add: decode_uart_measurement_def apply_measurement_def deq_def dle_finite)

end
