(* ===== verification/Can_Protocol.thy ===== *)
theory Can_Protocol
  imports Measurement
begin

text \<open>
  The CAN message mapping of \<open>include/edge_sentinel/protocols/can_protocol.hpp\<close>: four identifiers, a
  big-endian value in thousandths, and a one-byte online flag.
\<close>

section \<open>Model\<close>

definition kCanTemperatureId :: uint32 where
  "kCanTemperatureId = 0x101"

definition kCanVibrationId :: uint32 where
  "kCanVibrationId = 0x102"

definition kCanCurrentId :: uint32 where
  "kCanCurrentId = 0x103"

definition kCanOnlineId :: uint32 where
  "kCanOnlineId = 0x104"

text \<open>The array \<open>data\<close> always has eight elements; \<open>length\<close> says how many are valid.\<close>

record CanMessage =
  cm_id :: uint32
  cm_length :: uint8
  cm_data :: "byte list"

definition decode_can_message :: "CanMessage \<Rightarrow> Measurement option" where
  "decode_can_message message =
     (if cm_id message = kCanOnlineId
      then if cm_length message < 1 then None
           else Some \<lparr>me_kind = MeasurementKind.online,
                      me_value = (if cm_data message ! 0 = 0 then dlit 0 else dlit 1)\<rparr>
      else if cm_length message < 4 then None
      else
        let value = (\<lambda>kind.
              let raw = join32 (cm_data message ! 0) (cm_data message ! 1) (cm_data message ! 2)
                          (cm_data message ! 3)
              in Some \<lparr>me_kind = kind, me_value = ddiv (double_of_int (sint raw)) (dlit 1000)\<rparr>)
        in if cm_id message = kCanTemperatureId then value MeasurementKind.temperature
           else if cm_id message = kCanVibrationId then value MeasurementKind.vibration
           else if cm_id message = kCanCurrentId then value MeasurementKind.current
           else None)"

text \<open>The message a sensor sends for a value in thousandths.\<close>

definition can_value_message :: "uint32 \<Rightarrow> 32 word \<Rightarrow> CanMessage" where
  "can_value_message ident v =
     \<lparr>cm_id = ident, cm_length = 4,
      cm_data = [byte_at 24 v, byte_at 16 v, byte_at 8 v, byte_at 0 v, 0, 0, 0, 0]\<rparr>"

section \<open>Properties\<close>

text \<open>
  A value sent under a measurement identifier arrives with the right kind as a finite number,
  two different values never arrive as the same number, and comparing the number with an integral
  threshold, as the state machine does, gives the same answer as comparing the thousandths that
  were sent. A message that is too short or has another identifier is ignored.
\<close>

lemma can_value_exact:
  assumes "(ident, knd) \<in> {(kCanTemperatureId, MeasurementKind.temperature),
      (kCanVibrationId, MeasurementKind.vibration), (kCanCurrentId, MeasurementKind.current)}"
    and "\<bar>t\<bar> < 2 ^ 22"
  shows "\<exists>x. decode_can_message (can_value_message ident v) = Some \<lparr>me_kind = knd, me_value = x\<rparr> \<and>
    isfinite x \<and> (dge x (dlit (of_int t)) \<longleftrightarrow> 1000 * t \<le> sint v) \<and>
    (dle x (dlit (of_int t)) \<longleftrightarrow> sint v \<le> 1000 * t) \<and>
    (decode_can_message (can_value_message ident w) = Some \<lparr>me_kind = knd, me_value = x\<rparr> \<longrightarrow> w = v) \<and>
    decode_can_message ((can_value_message ident v)\<lparr>cm_length := 3\<rparr>) = None"
proof -
  have dec: "decode_can_message (can_value_message ident v) =
      Some \<lparr>me_kind = knd, me_value = ddiv (double_of_int (sint v)) (dlit 1000)\<rparr>" for v
    using assms(1)
    by (auto simp: decode_can_message_def can_value_message_def kCanTemperatureId_def kCanVibrationId_def
        kCanCurrentId_def kCanOnlineId_def byte_simps)
  have "decode_can_message ((can_value_message ident v)\<lparr>cm_length := 3\<rparr>) = None"
    using assms(1)
    by (auto simp: decode_can_message_def can_value_message_def kCanTemperatureId_def kCanVibrationId_def
        kCanCurrentId_def kCanOnlineId_def)
  then show ?thesis
    using dec thousandths_finite [of v] thousandths_cmp [OF assms(2), of v] thousandths_inject [of w v]
    by simp
qed

end
