(* ===== verification/I2c_Sensor.thy ===== *)
theory I2c_Sensor
  imports Domain
begin

text \<open>
  The register-map sensor reader of \<open>include/edge_sentinel/protocols/i2c_sensor.hpp\<close>. The bus is the
  interface \<open>II2cBus\<close>, whose implementation is outside this file: it is a function argument that takes
  the bus state, a register and the number of bytes wanted, and returns the bytes, or \<open>None\<close> if the
  read fails, with the new bus state.
\<close>

section \<open>Model\<close>

definition kTemperatureRegister :: uint8 where
  "kTemperatureRegister = 0x01"

definition kVibrationRegister :: uint8 where
  "kVibrationRegister = 0x03"

definition kCurrentRegister :: uint8 where
  "kCurrentRegister = 0x05"

definition kStatusRegister :: uint8 where
  "kStatusRegister = 0x07"

type_synonym 'b bus = "'b \<Rightarrow> uint8 \<Rightarrow> nat \<Rightarrow> byte list option \<times> 'b"

record I2cSensorReader =
  i_last_sample :: SensorSample
  i_sequence :: uint64

definition I2cSensorReader_init :: I2cSensorReader where
  "I2cSensorReader_init = \<lparr>i_last_sample = SensorSample_default, i_sequence = 0\<rparr>"

definition decode_u16 :: "byte list \<Rightarrow> uint16" where
  "decode_u16 bytes = join16 (bytes ! 0) (bytes ! 1)"

text \<open>The four reads, joined by \<open>||\<close> in the source: a failure skips the remaining ones.\<close>

definition i2c_registers ::
    "'b bus \<Rightarrow> 'b \<Rightarrow> (byte list \<times> byte list \<times> byte list \<times> byte list) option \<times> 'b" where
  "i2c_registers read_register b =
     (case read_register b kTemperatureRegister 2 of
        (None, b) \<Rightarrow> (None, b)
      | (Some temp, b) \<Rightarrow>
     (case read_register b kVibrationRegister 2 of
        (None, b) \<Rightarrow> (None, b)
      | (Some vib, b) \<Rightarrow>
     (case read_register b kCurrentRegister 2 of
        (None, b) \<Rightarrow> (None, b)
      | (Some amp, b) \<Rightarrow>
     (case read_register b kStatusRegister 1 of
        (None, b) \<Rightarrow> (None, b)
      | (Some status, b) \<Rightarrow> (Some (temp, vib, amp, status), b)))))"

definition i2c_read ::
    "'b bus \<Rightarrow> 'b \<Rightarrow> I2cSensorReader \<Rightarrow> SensorSample \<times> I2cSensorReader \<times> 'b" where
  "i2c_read read_register b r =
     (let r = r\<lparr>i_sequence := i_sequence r + 1\<rparr> in
      case i2c_registers read_register b of
        (None, b) \<Rightarrow>
          (let last = (i_last_sample r)\<lparr>online := False, sequence := i_sequence r\<rparr>
           in (last, r\<lparr>i_last_sample := last\<rparr>, b))
      | (Some (temp, vib, amp, status), b) \<Rightarrow>
          (let last = \<lparr>temperature_c = ddiv (double_of_int (sint (decode_u16 temp))) (dlit 100),
                       vibration_mm_s = ddiv (double_of_int (uint (decode_u16 vib))) (dlit 100),
                       current_a = ddiv (double_of_int (uint (decode_u16 amp))) (dlit 100),
                       online = (status ! 0 AND 0x01 \<noteq> 0),
                       sequence = i_sequence r\<rparr>
           in (last, r\<lparr>i_last_sample := last\<rparr>, b)))"

text \<open>A bus with a fixed register contents: 86.25 degrees, 7.25 mm/s, 14.5 A, online.\<close>

definition fixed_bus :: "unit bus" where
  "fixed_bus b reg n =
     (if reg = kTemperatureRegister then Some [0x21, 0xB1]
      else if reg = kVibrationRegister then Some [0x02, 0xD5]
      else if reg = kCurrentRegister then Some [0x05, 0xAA]
      else if reg = kStatusRegister then Some [0x01] else None, b)"

lemmas register_numbers =
  kTemperatureRegister_def kVibrationRegister_def kCurrentRegister_def kStatusRegister_def

section \<open>Values in hundredths\<close>

lemma hundredths_cmp:
  assumes "\<bar>i\<bar> < 2 ^ 16" and "\<bar>t\<bar> < 2 ^ 22"
  shows "isfinite (ddiv (double_of_int i) (dlit 100))"
    and "dge (ddiv (double_of_int i) (dlit 100)) (dlit (of_int t)) \<longleftrightarrow> 100 * t \<le> i"
    and "dle (ddiv (double_of_int i) (dlit 100)) (dlit (of_int t)) \<longleftrightarrow> i \<le> 100 * t"
proof -
  have eq: "ddiv (double_of_int i) (dlit 100) = scaled i 100" by (simp add: scaled_def)
  have i: "\<bar>i\<bar> < 100 * 2 ^ 22" using assms(1) by simp
  show fin: "isfinite (ddiv (double_of_int i) (dlit 100))"
    unfolding eq by (rule scaled_finite) (use i in simp_all)
  show "dge (ddiv (double_of_int i) (dlit 100)) (dlit (of_int t)) \<longleftrightarrow> 100 * t \<le> i"
    and "dle (ddiv (double_of_int i) (dlit 100)) (dlit (of_int t)) \<longleftrightarrow> i \<le> 100 * t"
    using scaled_cmp [of 100 i t] i assms(2) fin by (simp_all add: eq dge_finite dle_finite mult.commute)
qed

lemma sint_16_range: "\<bar>sint (w :: 16 word)\<bar> < 2 ^ 16"
  using sint_greater_eq [of w] sint_less [of w] by (simp add: abs_less_iff)

lemma uint_16_range: "\<bar>uint (w :: 16 word)\<bar> < 2 ^ 16"
  using uint_bounded [of w] by simp

lemma i2c_read_sequence:
  assumes "i2c_read read_register b r = (s, r', b')"
  shows "sequence s = i_sequence r + 1 \<and> i_sequence r' = i_sequence r + 1 \<and> i_last_sample r' = s"
  using assms by (auto simp: i2c_read_def Let_def split: prod.splits option.splits)

lemma i2c_read_failure:
  assumes "i2c_registers read_register b = (None, b1)"
  shows "i2c_read read_register b r =
    ((i_last_sample r)\<lparr>online := False, sequence := i_sequence r + 1\<rparr>,
     \<lparr>i_last_sample = (i_last_sample r)\<lparr>online := False, sequence := i_sequence r + 1\<rparr>,
      i_sequence = i_sequence r + 1\<rparr>, b1)"
  using assms by (cases r) (simp add: i2c_read_def Let_def)

lemma i2c_read_success:
  assumes "i2c_registers read_register b = (Some (temp, vib, amp, status), b1)"
    and "i2c_read read_register b r = (s, r', b')"
  shows "temperature_c s = ddiv (double_of_int (sint (decode_u16 temp))) (dlit 100)"
    and "vibration_mm_s s = ddiv (double_of_int (uint (decode_u16 vib))) (dlit 100)"
    and "current_a s = ddiv (double_of_int (uint (decode_u16 amp))) (dlit 100)"
    and "online s = bit (status ! 0) 0"
proof -
  have bit: "(w AND 0x01 \<noteq> 0) = bit w 0" for w :: byte
    by (simp add: and_one_eq bit_0 odd_iff_mod_2_eq_one)
  show "temperature_c s = ddiv (double_of_int (sint (decode_u16 temp))) (dlit 100)"
    and "vibration_mm_s s = ddiv (double_of_int (uint (decode_u16 vib))) (dlit 100)"
    and "current_a s = ddiv (double_of_int (uint (decode_u16 amp))) (dlit 100)"
    and "online s = bit (status ! 0) 0"
    using assms(2) unfolding i2c_read_def Let_def assms(1) prod.case option.case bit
    by (auto simp only: prod.inject SensorSample.simps)
qed

text \<open>A double that stands for a number of hundredths: it is close, and exact against whole thresholds.\<close>

definition hundredths :: "double \<Rightarrow> int \<Rightarrow> bool" where
  "hundredths x i \<longleftrightarrow>
     isfinite x \<and> \<bar>dval x - of_int i / 100\<bar> \<le> 1 / 2 ^ 32 \<and>
     (\<forall>t. \<bar>t\<bar> < 2 ^ 22 \<longrightarrow>
        (dge x (dlit (of_int t)) \<longleftrightarrow> 100 * t \<le> i) \<and> (dle x (dlit (of_int t)) \<longleftrightarrow> i \<le> 100 * t))"

lemma hundredths_division:
  assumes "\<bar>i\<bar> < 2 ^ 16"
  shows "hundredths (ddiv (double_of_int i) (dlit 100)) i"
proof -
  have "\<bar>i\<bar> < 100 * 2 ^ 22" using assms by simp
  then have "\<bar>dval (scaled i 100) - of_int i / 100\<bar> \<le> 1 / 2 ^ 32" using scaled_error [of 100 i] by simp
  then show ?thesis
    using hundredths_cmp [OF assms] hundredths_cmp(1) [OF assms, of 0] by (simp add: hundredths_def scaled_def)
qed

lemma decode_u16_hundredths:
  "hundredths (ddiv (double_of_int (sint (decode_u16 [b0, b1]))) (dlit 100)) (256 * sint b0 + uint b1)"
  "hundredths (ddiv (double_of_int (uint (decode_u16 [b0, b1]))) (dlit 100)) (256 * uint b0 + uint b1)"
  using hundredths_division [OF sint_16_range, of "join16 b0 b1"] hundredths_division [OF uint_16_range, of "join16 b0 b1"]
  by (simp_all add: decode_u16_def sint_join16 uint_join16)

section \<open>Properties\<close>

text \<open>
  C40. If the four reads of the bus succeed, the sample is what the registers say: the bytes of registers 1, 3
  and 5, the more significant one first, are hundredths of a degree (signed), of a millimetre per second
  and of an ampere (unsigned), and bit 0 of register 7 says whether the sensor is online. Each value is
  finite, within \<open>2 ^ -32\<close> of the exact one, and compares with every whole threshold as the exact
  one does. If a read fails, the registers after it are not read, and the last sample is repeated as
  offline. In both cases the sample is kept as the last one and the sequence number has grown by one.
\<close>

theorem i2c_read_faithful:
  assumes "i2c_read read_register b r = (s, r', b')"
  shows "sequence s = i_sequence r + 1 \<and> i_sequence r' = i_sequence r + 1 \<and> i_last_sample r' = s \<and>
    (\<forall>t0 t1 v0 v1 c0 c1 status b1 b2 b3 b4.
       read_register b 0x01 2 = (Some [t0, t1], b1) \<and> read_register b1 0x03 2 = (Some [v0, v1], b2) \<and>
       read_register b2 0x05 2 = (Some [c0, c1], b3) \<and> read_register b3 0x07 1 = (Some [status], b4) \<longrightarrow>
       hundredths (temperature_c s) (256 * sint t0 + uint t1) \<and>
       hundredths (vibration_mm_s s) (256 * uint v0 + uint v1) \<and>
       hundredths (current_a s) (256 * uint c0 + uint c1) \<and> (online s \<longleftrightarrow> odd (uint status)) \<and> b' = b4) \<and>
    (\<forall>xs ys zs b1 b2 b3 b4.
       read_register b 0x01 2 = (None, b4) \<or>
       read_register b 0x01 2 = (Some xs, b1) \<and>
         (read_register b1 0x03 2 = (None, b4) \<or>
          read_register b1 0x03 2 = (Some ys, b2) \<and>
            (read_register b2 0x05 2 = (None, b4) \<or>
             read_register b2 0x05 2 = (Some zs, b3) \<and> read_register b3 0x07 1 = (None, b4))) \<longrightarrow>
       s = (i_last_sample r)\<lparr>online := False, sequence := i_sequence r + 1\<rparr> \<and> b' = b4)"
proof (intro conjI allI impI)
  show "sequence s = i_sequence r + 1" "i_sequence r' = i_sequence r + 1" "i_last_sample r' = s"
    using i2c_read_sequence [OF assms] by simp_all
next
  fix t0 t1 v0 v1 c0 c1 status b1 b2 b3 b4
  assume "read_register b 0x01 2 = (Some [t0, t1], b1) \<and> read_register b1 0x03 2 = (Some [v0, v1], b2) \<and>
    read_register b2 0x05 2 = (Some [c0, c1], b3) \<and> read_register b3 0x07 1 = (Some [status], b4)"
  then have regs: "i2c_registers read_register b = (Some ([t0, t1], [v0, v1], [c0, c1], [status]), b4)"
    by (simp add: i2c_registers_def register_numbers)
  note val = i2c_read_success [OF regs assms]
  show "hundredths (temperature_c s) (256 * sint t0 + uint t1)"
    "hundredths (vibration_mm_s s) (256 * uint v0 + uint v1)"
    "hundredths (current_a s) (256 * uint c0 + uint c1)"
    unfolding val by (rule decode_u16_hundredths)+
  show "online s \<longleftrightarrow> odd (uint status)" unfolding val by (simp add: bit_0 [symmetric] bit_uint_iff)
  show "b' = b4" using assms by (simp add: i2c_read_def regs Let_def)
next
  fix xs ys zs b1 b2 b3 b4
  assume "read_register b 0x01 2 = (None, b4) \<or> read_register b 0x01 2 = (Some xs, b1) \<and>
    (read_register b1 0x03 2 = (None, b4) \<or> read_register b1 0x03 2 = (Some ys, b2) \<and>
      (read_register b2 0x05 2 = (None, b4) \<or> read_register b2 0x05 2 = (Some zs, b3) \<and>
        read_register b3 0x07 1 = (None, b4)))"
  then have "i2c_registers read_register b = (None, b4)"
    by (elim disjE conjE) (simp_all add: i2c_registers_def register_numbers)
  from i2c_read_failure [OF this] assms
  show "s = (i_last_sample r)\<lparr>online := False, sequence := i_sequence r + 1\<rparr>" "b' = b4" by simp_all
qed

theorem i2c_read_faithful_witness:
  "let s = fst (i2c_read fixed_bus () I2cSensorReader_init) in
     dge (temperature_c s) (dlit 86) \<and> \<not> dge (temperature_c s) (dlit 87) \<and>
     hundredths (temperature_c s) 8625 \<and> hundredths (vibration_mm_s s) 725 \<and> hundredths (current_a s) 1450 \<and>
     online s \<and> sequence s = 1"
proof -
  obtain s r b where read: "i2c_read fixed_bus () I2cSensorReader_init = (s, r, b)"
    by (metis prod_cases3)
  have bus: "fixed_bus () 0x01 2 = (Some [0x21, 0xB1], ())" "fixed_bus () 0x03 2 = (Some [0x02, 0xD5], ())"
    "fixed_bus () 0x05 2 = (Some [0x05, 0xAA], ())" "fixed_bus () 0x07 1 = (Some [0x01], ())"
    by (simp_all add: fixed_bus_def register_numbers)
  have s: "hundredths (temperature_c s) 8625 \<and> hundredths (vibration_mm_s s) 725 \<and>
      hundredths (current_a s) 1450 \<and> online s \<and> sequence s = 1"
    using i2c_read_faithful [OF read] bus by (auto simp: I2cSensorReader_init_def)
  then have cmp: "dge (temperature_c s) (dlit (of_int t)) \<longleftrightarrow> 100 * t \<le> 8625" if "\<bar>t\<bar> < 2 ^ 22" for t
    using that unfolding hundredths_def by blast
  show ?thesis using s cmp [of 86] cmp [of 87] read by simp
qed

end
