(* ===== verification/Unique_Fd.thy ===== *)
theory Unique_Fd
  imports Prelude "HOL-Library.Multiset"
begin

text \<open>
  The owner of a file descriptor of \<open>include/edge_sentinel/linux/unique_fd.hpp\<close>. The kernel's side is
  a table of the open descriptors of the process, with a count of the calls of \<open>close\<close> that named a
  descriptor that was not open; opening may fail or return any descriptor that is not open.
\<close>

section \<open>Model\<close>

text \<open>The error number of an interrupted system call, on Linux.\<close>

definition EINTR :: int where
  "EINTR = 4"

record fd_table =
  ft_open :: "int set"
  ft_bad_closes :: nat

definition close_fd :: "int \<Rightarrow> fd_table \<Rightarrow> fd_table" where
  "close_fd d t =
     (if d \<in> ft_open t then t\<lparr>ft_open := ft_open t - {d}\<rparr>
      else t\<lparr>ft_bad_closes := ft_bad_closes t + 1\<rparr>)"

text \<open>
  A system call that creates a descriptor, where the kernel answers \<open>d\<close>: a non-negative number that is
  not open is the new descriptor; anything else stands for a failure, which the caller sees as \<open>-1\<close>.
\<close>

definition open_fd :: "int \<Rightarrow> fd_table \<Rightarrow> int \<times> fd_table" where
  "open_fd d t =
     (if 0 \<le> d \<and> d \<notin> ft_open t then (d, t\<lparr>ft_open := insert d (ft_open t)\<rparr>) else (- 1, t))"

record UniqueFd =
  u_descriptor :: int

definition UniqueFd_default :: UniqueFd where
  "UniqueFd_default = \<lparr>u_descriptor = - 1\<rparr>"

definition UniqueFd_of :: "int \<Rightarrow> UniqueFd" where
  "UniqueFd_of d = \<lparr>u_descriptor = d\<rparr>"

definition fd_valid :: "UniqueFd \<Rightarrow> bool" where
  "fd_valid u \<longleftrightarrow> 0 \<le> u_descriptor u"

definition fd_reset :: "UniqueFd \<Rightarrow> int \<Rightarrow> fd_table \<Rightarrow> UniqueFd \<times> fd_table" where
  "fd_reset u d t =
     (let t = (if 0 \<le> u_descriptor u then close_fd (u_descriptor u) t else t)
      in (u\<lparr>u_descriptor := d\<rparr>, t))"

text \<open>The destructor, the move constructor (the new object, the old one) and the move assignment.\<close>

definition fd_destroy :: "UniqueFd \<Rightarrow> fd_table \<Rightarrow> fd_table" where
  "fd_destroy u t = snd (fd_reset u (- 1) t)"

definition fd_move :: "UniqueFd \<Rightarrow> UniqueFd \<times> UniqueFd" where
  "fd_move other = (UniqueFd_of (u_descriptor other), other\<lparr>u_descriptor := - 1\<rparr>)"

text \<open>Assignment between two different objects; the result is the target, the source, the table.\<close>

definition fd_move_assign :: "UniqueFd \<Rightarrow> UniqueFd \<Rightarrow> fd_table \<Rightarrow> UniqueFd \<times> UniqueFd \<times> fd_table" where
  "fd_move_assign u other t =
     (let d = u_descriptor other;
          other = other\<lparr>u_descriptor := - 1\<rparr>;
          (u, t) = fd_reset u d t
      in (u, other, t))"

section \<open>Programs over owners\<close>

text \<open>
  A program that keeps its descriptors in owners only: it opens into a new owner or into an existing
  one, moves, assigns (also to itself), resets and ends the life of owners. Operations on a variable
  that does not exist do nothing.
\<close>

record fd_state =
  fs_table :: fd_table
  fs_vars :: "UniqueFd list"

datatype fd_op =
    FdOpen int
  | FdReopen nat int
  | FdReset nat
  | FdMoveNew nat
  | FdMoveAssign nat nat
  | FdDrop nat

fun fd_do :: "fd_state \<Rightarrow> fd_op \<Rightarrow> fd_state" where
  "fd_do s (FdOpen d) =
     (let (r, t) = open_fd d (fs_table s) in \<lparr>fs_table = t, fs_vars = fs_vars s @ [UniqueFd_of r]\<rparr>)"
| "fd_do s (FdReopen i d) =
     (if i < length (fs_vars s)
      then let (r, t) = open_fd d (fs_table s); (u, t) = fd_reset (fs_vars s ! i) r t
           in \<lparr>fs_table = t, fs_vars = (fs_vars s)[i := u]\<rparr>
      else s)"
| "fd_do s (FdReset i) =
     (if i < length (fs_vars s)
      then let (u, t) = fd_reset (fs_vars s ! i) (- 1) (fs_table s)
           in \<lparr>fs_table = t, fs_vars = (fs_vars s)[i := u]\<rparr>
      else s)"
| "fd_do s (FdMoveNew i) =
     (if i < length (fs_vars s)
      then let (new, old) = fd_move (fs_vars s ! i)
           in s\<lparr>fs_vars := (fs_vars s)[i := old] @ [new]\<rparr>
      else s)"
| "fd_do s (FdMoveAssign i j) =
     (if i < length (fs_vars s) \<and> j < length (fs_vars s) \<and> i \<noteq> j
      then let (u, v, t) = fd_move_assign (fs_vars s ! i) (fs_vars s ! j) (fs_table s)
           in \<lparr>fs_table = t, fs_vars = (fs_vars s)[i := u, j := v]\<rparr>
      else s)"
| "fd_do s (FdDrop i) =
     (if i < length (fs_vars s)
      then \<lparr>fs_table = fd_destroy (fs_vars s ! i) (fs_table s),
            fs_vars = (fs_vars s)[i := UniqueFd_default]\<rparr>
      else s)"

definition fd_run :: "fd_state \<Rightarrow> fd_op list \<Rightarrow> fd_state" where
  "fd_run s xs = foldl fd_do s xs"

section \<open>Invariant\<close>

definition held_fd :: "UniqueFd \<Rightarrow> int multiset" where
  "held_fd u = (if 0 \<le> u_descriptor u then {#u_descriptor u#} else {#})"

definition held_fds :: "UniqueFd list \<Rightarrow> int multiset" where
  "held_fds us = sum_list (map held_fd us)"

text \<open>The descriptors held are the open ones that do not belong to others, each held once.\<close>

definition fds_owned :: "int set \<Rightarrow> int multiset \<Rightarrow> fd_table \<Rightarrow> bool" where
  "fds_owned others held t \<longleftrightarrow>
     finite (ft_open t) \<and> others \<subseteq> ft_open t \<and> mset_set (ft_open t - others) = held \<and>
     ft_bad_closes t = 0"

section \<open>Ownership\<close>

lemma open_owned:
  assumes "fds_owned others held t" and "open_fd d t = (r, t')"
  shows "fds_owned others (held + held_fd (UniqueFd_of r)) t'"
proof (cases "0 \<le> d \<and> d \<notin> ft_open t")
  case True
  then have r: "r = d" "t' = t\<lparr>ft_open := insert d (ft_open t)\<rparr>"
    using assms(2) by (auto simp: open_fd_def)
  have "insert d (ft_open t) - others = insert d (ft_open t - others)"
    using assms(1) True by (auto simp: fds_owned_def)
  then show ?thesis
    using assms(1) True r by (auto simp: fds_owned_def held_fd_def UniqueFd_of_def)
next
  case False
  then show ?thesis using assms by (auto simp: open_fd_def held_fd_def UniqueFd_of_def)
qed

lemma close_owned:
  assumes "fds_owned others (add_mset d held) t"
  shows "fds_owned others held (close_fd d t)"
proof -
  have fin: "finite (ft_open t - others)" using assms by (simp add: fds_owned_def)
  have "d \<in># mset_set (ft_open t - others)" using assms by (simp add: fds_owned_def)
  then have mem: "d \<in> ft_open t - others" by (simp only: elem_mset_set [OF fin])
  have "mset_set (ft_open t - others - {d}) = held"
    using mset_set_Diff [OF fin, of "{d}"] mem assms by (simp add: fds_owned_def)
  moreover have "ft_open t - {d} - others = ft_open t - others - {d}" by auto
  ultimately show ?thesis using assms mem by (auto simp: fds_owned_def close_fd_def)
qed

text \<open>Resetting an owner gives up what it holds; it may take a descriptor over.\<close>

lemma reset_owned:
  assumes "fds_owned others (held + held_fd u) t" and "fd_reset u d t = (u', t')"
  shows "fds_owned others held t' \<and> held_fd u' = held_fd (UniqueFd_of d)"
  using assms close_owned [of others "u_descriptor u" held t]
  by (auto simp: fd_reset_def Let_def held_fd_def UniqueFd_of_def split: if_splits)

lemma destroy_owned:
  "fds_owned others (held + held_fd u) t \<Longrightarrow> fds_owned others held (fd_destroy u t)"
  using reset_owned [of others held u t "- 1"] by (cases "fd_reset u (- 1) t") (simp add: fd_destroy_def)

text \<open>Handing a candidate over to an empty owner, and destroying what is left of the candidate.\<close>

lemma adopt_candidate:
  assumes "fd_move_assign UniqueFd_default u t = (descriptor, candidate, t')"
  shows "descriptor = u" and "fd_destroy candidate t' = t"
  using assms
  by (auto simp: fd_move_assign_def fd_reset_def UniqueFd_default_def fd_destroy_def Let_def)

lemma held_fds_update:
  "i < length us \<Longrightarrow> held_fds (us[i := u]) + held_fd (us ! i) = held_fds us + held_fd u"
  unfolding held_fds_def by (rule sum_list_update_add)

lemma held_of: "held_fd (UniqueFd_of (u_descriptor u)) = held_fd u"
  by (simp add: held_fd_def UniqueFd_of_def)

lemma held_append [simp]: "held_fds (us @ [u]) = held_fds us + held_fd u"
  by (simp add: held_fds_def)

lemma held_split:
  assumes "i < length us"
  shows "held_fds us = held_fds (us[i := UniqueFd_default]) + held_fd (us ! i)"
  using held_fds_update [OF assms, of UniqueFd_default] by (simp add: held_fd_def UniqueFd_default_def)

lemma held_replaced:
  assumes "i < length us"
  shows "held_fds (us[i := u]) = held_fds (us[i := UniqueFd_default]) + held_fd u"
  using held_split [of i "us[i := u]"] assms by simp

lemma held_default [simp]: "held_fd UniqueFd_default = {#}" "held_fd (UniqueFd_of (- 1)) = {#}"
  "held_fd (u\<lparr>u_descriptor := - 1\<rparr>) = {#}"
  by (simp_all add: held_fd_def UniqueFd_default_def UniqueFd_of_def)

abbreviation fd_ok :: "int set \<Rightarrow> fd_state \<Rightarrow> bool" where
  "fd_ok others s \<equiv> fds_owned others (held_fds (fs_vars s)) (fs_table s)"

text \<open>Assigning to a variable: the table owns what the others hold, and what is assigned.\<close>

lemma assign_owned:
  assumes "i < length us" and "fds_owned others (held_fds us + held_fd (UniqueFd_of d)) t"
    and "fd_reset (us ! i) d t = (u, t')"
  shows "fds_owned others (held_fds (us[i := u])) t'"
proof -
  have "fds_owned others (held_fds (us[i := UniqueFd_default]) + held_fd (UniqueFd_of d) + held_fd (us ! i)) t"
    using assms(2) held_split [OF assms(1)] by (simp add: ac_simps)
  from reset_owned [OF this assms(3)] show ?thesis using held_replaced [OF assms(1), of u] by simp
qed

lemma drop_owned:
  assumes "i < length us" and "fds_owned others (held_fds us) t"
  shows "fds_owned others (held_fds (us[i := UniqueFd_default])) (fd_destroy (us ! i) t)"
proof -
  obtain u t' where re: "fd_reset (us ! i) (- 1) t = (u, t')" by (cases "fd_reset (us ! i) (- 1) t")
  have "fds_owned others (held_fds (us[i := UniqueFd_default]) + held_fd (us ! i)) t"
    using assms(2) held_split [OF assms(1)] by simp
  from reset_owned [OF this re] show ?thesis using re by (simp add: fd_destroy_def)
qed

lemma move_new_held:
  assumes "i < length us"
  shows "held_fds (us[i := (us ! i)\<lparr>u_descriptor := - 1\<rparr>] @ [UniqueFd_of (u_descriptor (us ! i))]) = held_fds us"
  using held_split [OF assms] held_replaced [OF assms, of "(us ! i)\<lparr>u_descriptor := - 1\<rparr>"] by (simp add: held_of)

lemma move_assign_owned:
  assumes i: "i < length us" "j < length us" "i \<noteq> j" and ok: "fds_owned others (held_fds us) t"
    and re: "fd_reset (us ! i) (u_descriptor (us ! j)) t = (u, t')"
  shows "fds_owned others (held_fds (us[i := u, j := (us ! j)\<lparr>u_descriptor := - 1\<rparr>])) t'"
proof -
  let ?rest = "held_fds (us[i := UniqueFd_default, j := UniqueFd_default])"
  have all: "held_fds us = ?rest + held_fd (us ! j) + held_fd (us ! i)"
    using i held_split [of i us] held_split [of j "us[i := UniqueFd_default]"] by simp
  have new: "held_fds (us[i := u, j := (us ! j)\<lparr>u_descriptor := - 1\<rparr>]) = ?rest + held_fd u"
    using i held_replaced [of j "us[i := u]" "(us ! j)\<lparr>u_descriptor := - 1\<rparr>"]
      held_replaced [of i "us[j := UniqueFd_default]" u] by (simp add: list_update_swap)
  show ?thesis
    using reset_owned [OF _ re, of others "?rest + held_fd (us ! j)"] ok all new by (simp add: held_of)
qed

lemma fd_do_owned:
  assumes ok: "fd_ok others s"
  shows "fd_ok others (fd_do s x)"
proof (cases x)
  case (FdOpen d)
  obtain r t where o: "open_fd d (fs_table s) = (r, t)" by (cases "open_fd d (fs_table s)")
  then show ?thesis using FdOpen open_owned [OF ok o] by simp
next
  case (FdReopen i d)
  obtain r t where o: "open_fd d (fs_table s) = (r, t)" by (cases "open_fd d (fs_table s)")
  obtain u t' where re: "fd_reset (fs_vars s ! i) r t = (u, t')" by (cases "fd_reset (fs_vars s ! i) r t")
  show ?thesis using FdReopen ok o re assign_owned [OF _ open_owned [OF ok o] re] by simp
next
  case (FdReset i)
  obtain u t' where re: "fd_reset (fs_vars s ! i) (- 1) (fs_table s) = (u, t')"
    by (cases "fd_reset (fs_vars s ! i) (- 1) (fs_table s)")
  show ?thesis using FdReset ok re assign_owned [OF _ _ re, of others] by (simp add: held_of)
next
  case (FdMoveNew i)
  then show ?thesis using ok move_new_held [of i "fs_vars s"] by (simp add: fd_move_def)
next
  case (FdMoveAssign i j)
  obtain u t' where re: "fd_reset (fs_vars s ! i) (u_descriptor (fs_vars s ! j)) (fs_table s) = (u, t')"
    by (cases "fd_reset (fs_vars s ! i) (u_descriptor (fs_vars s ! j)) (fs_table s)")
  show ?thesis
    using FdMoveAssign ok re move_assign_owned [OF _ _ _ _ re, of others] by (auto simp: fd_move_assign_def Let_def)
next
  case (FdDrop i)
  then show ?thesis using ok drop_owned [of i "fs_vars s" others "fs_table s"] by simp
qed

lemma fd_run_owned: "fd_ok others s \<Longrightarrow> fd_ok others (fd_run s xs)"
  unfolding fd_run_def by (induction xs arbitrary: s) (simp_all add: fd_do_owned)

section \<open>Property\<close>

text \<open>
  C36. Descriptors are closed exactly once: a program that keeps its descriptors in owners only never
  closes a descriptor that is not open, in particular none twice, leaves the descriptors of others
  alone, and has exactly the descriptors open that some owner holds, each in one owner. When all
  owners are gone, nothing has leaked.
\<close>

theorem descriptors_closed_once:
  assumes "finite others"
  shows "let s = fd_run \<lparr>fs_table = \<lparr>ft_open = others, ft_bad_closes = 0\<rparr>, fs_vars = []\<rparr> xs in
    ft_bad_closes (fs_table s) = 0 \<and> others \<subseteq> ft_open (fs_table s) \<and>
    mset_set (ft_open (fs_table s) - others) = held_fds (fs_vars s) \<and>
    ((\<forall>u \<in> set (fs_vars s). \<not> fd_valid u) \<longrightarrow> ft_open (fs_table s) = others)"
proof -
  let ?s0 = "\<lparr>fs_table = \<lparr>ft_open = others, ft_bad_closes = 0\<rparr>, fs_vars = []\<rparr>"
  let ?s = "fd_run ?s0 xs"
  have ok: "fd_ok others ?s"
    by (rule fd_run_owned) (simp add: fds_owned_def held_fds_def assms)
  have "held_fds us = {#}" if "\<forall>u \<in> set us. \<not> fd_valid u" for us
    using that by (induction us) (simp_all add: held_fds_def held_fd_def fd_valid_def)
  then have "ft_open (fs_table ?s) = others" if "\<forall>u \<in> set (fs_vars ?s). \<not> fd_valid u"
    using ok that by (auto simp: fds_owned_def mset_set_empty_iff)
  then show ?thesis using ok unfolding Let_def by (simp add: fds_owned_def)
qed

theorem descriptors_closed_once_witness:
  "let s = fd_run \<lparr>fs_table = \<lparr>ft_open = {0, 1, 2}, ft_bad_closes = 0\<rparr>, fs_vars = []\<rparr>
       [FdOpen 3, FdMoveNew 0, FdReopen 1 4, FdMoveAssign 0 1, FdDrop 0, FdDrop 1] in
    ft_bad_closes (fs_table s) = 0 \<and> ft_open (fs_table s) = {0, 1, 2}"
proof -
  let ?s = "fd_run \<lparr>fs_table = \<lparr>ft_open = {0, 1, 2}, ft_bad_closes = 0\<rparr>, fs_vars = []\<rparr>
       [FdOpen 3, FdMoveNew 0, FdReopen 1 4, FdMoveAssign 0 1, FdDrop 0, FdDrop 1]"
  have "\<forall>u \<in> set (fs_vars ?s). \<not> fd_valid u"
    by (simp add: fd_run_def open_fd_def fd_move_def fd_reset_def fd_move_assign_def fd_destroy_def
        close_fd_def UniqueFd_of_def UniqueFd_default_def fd_valid_def Let_def)
  then show ?thesis
    using descriptors_closed_once [of "{0, 1, 2}" "[FdOpen 3, FdMoveNew 0, FdReopen 1 4, FdMoveAssign 0 1,
        FdDrop 0, FdDrop 1]"] by (simp add: Let_def)
qed

end
