(* ===== verification/Motor_FSM.thy ===== *)
theory Motor_FSM
  imports Domain
begin

text \<open>
  The protection state machine of \<open>include/edge_sentinel/fsm/motor_state_machine.hpp\<close>. The object
  is a record, every method is a function that returns the reported transition together with the
  new object. The second half states what the machine promises: a specification over the history
  of samples since the last state entry, which the counters refine, the transition graph, latching,
  and the bounds within which a persistent critical reading is detected.
\<close>

section \<open>Model\<close>

record ProtectionConfig =
  temperature_warning_c :: double
  temperature_recovery_c :: double
  temperature_critical_c :: double
  vibration_warning_mm_s :: double
  vibration_recovery_mm_s :: double
  vibration_critical_mm_s :: double
  current_warning_a :: double
  current_recovery_a :: double
  current_critical_a :: double
  warning_samples :: size_t
  critical_samples :: size_t
  recovery_samples :: size_t
  offline_samples :: size_t

definition ProtectionConfig_default :: ProtectionConfig where
  "ProtectionConfig_default =
     \<lparr>temperature_warning_c = dlit 80, temperature_recovery_c = dlit 75,
      temperature_critical_c = dlit 95, vibration_warning_mm_s = dlit 7,
      vibration_recovery_mm_s = dlit 5, vibration_critical_mm_s = dlit 10,
      current_warning_a = dlit 15, current_recovery_a = dlit 13, current_critical_a = dlit 20,
      warning_samples = 3, critical_samples = 2, recovery_samples = 5, offline_samples = 3\<rparr>"

record MachineSnapshot =
  s_state :: MotorState
  s_last_sample :: SensorSample
  s_has_sample :: bool
  s_warning_count :: size_t
  s_critical_count :: size_t
  s_recovery_count :: size_t
  s_offline_count :: size_t

record MotorStateMachine =
  m_config :: ProtectionConfig
  m_state :: MotorState
  m_last_sample :: SensorSample
  m_has_sample :: bool
  m_warning_count :: size_t
  m_critical_count :: size_t
  m_recovery_count :: size_t
  m_offline_count :: size_t

definition MotorStateMachine_init :: "ProtectionConfig \<Rightarrow> MotorStateMachine" where
  "MotorStateMachine_init cfg =
     \<lparr>m_config = cfg, m_state = MotorState.booting, m_last_sample = SensorSample_default,
      m_has_sample = False, m_warning_count = 0, m_critical_count = 0, m_recovery_count = 0,
      m_offline_count = 0\<rparr>"

definition machine_state :: "MotorStateMachine \<Rightarrow> MotorState" where
  "machine_state m = m_state m"

definition machine_snapshot :: "MotorStateMachine \<Rightarrow> MachineSnapshot" where
  "machine_snapshot m =
     \<lparr>s_state = m_state m, s_last_sample = m_last_sample m, s_has_sample = m_has_sample m,
      s_warning_count = m_warning_count m, s_critical_count = m_critical_count m,
      s_recovery_count = m_recovery_count m, s_offline_count = m_offline_count m\<rparr>"

definition is_warning :: "ProtectionConfig \<Rightarrow> SensorSample \<Rightarrow> bool" where
  "is_warning cfg s \<longleftrightarrow>
     dge (temperature_c s) (temperature_warning_c cfg) \<or>
     dge (vibration_mm_s s) (vibration_warning_mm_s cfg) \<or>
     dge (current_a s) (current_warning_a cfg)"

definition is_critical :: "ProtectionConfig \<Rightarrow> SensorSample \<Rightarrow> bool" where
  "is_critical cfg s \<longleftrightarrow>
     dge (temperature_c s) (temperature_critical_c cfg) \<or>
     dge (vibration_mm_s s) (vibration_critical_mm_s cfg) \<or>
     dge (current_a s) (current_critical_a cfg)"

definition is_recovered :: "ProtectionConfig \<Rightarrow> SensorSample \<Rightarrow> bool" where
  "is_recovered cfg s \<longleftrightarrow>
     dle (temperature_c s) (temperature_recovery_c cfg) \<and>
     dle (vibration_mm_s s) (vibration_recovery_mm_s cfg) \<and>
     dle (current_a s) (current_recovery_a cfg)"

definition reset_counters :: "MotorStateMachine \<Rightarrow> MotorStateMachine" where
  "reset_counters m =
     m\<lparr>m_warning_count := 0, m_critical_count := 0, m_recovery_count := 0, m_offline_count := 0\<rparr>"

definition transition_to ::
    "MotorStateMachine \<Rightarrow> MotorState \<Rightarrow> TransitionReason \<Rightarrow> StateTransition \<times> MotorStateMachine" where
  "transition_to m next_state why =
     (let m' = reset_counters (m\<lparr>m_state := next_state\<rparr>)
      in (\<lparr>previous = m_state m, current = m_state m', reason = why,
           changed = (m_state m \<noteq> m_state m')\<rparr>, m'))"

definition unchanged :: "MotorStateMachine \<Rightarrow> StateTransition" where
  "unchanged m =
     \<lparr>previous = m_state m, current = m_state m, reason = TransitionReason.none, changed = False\<rparr>"

definition handle_sample ::
    "MotorStateMachine \<Rightarrow> SensorSample \<Rightarrow> StateTransition \<times> MotorStateMachine" where
  "handle_sample m0 s =
     (let m = m0\<lparr>m_last_sample := s, m_has_sample := True\<rparr> in
      if m_state m \<noteq> MotorState.healthy \<and> m_state m \<noteq> MotorState.degraded then (unchanged m, m)
      else if \<not> online s then
        let m = m\<lparr>m_offline_count := m_offline_count m + 1, m_warning_count := 0,
                  m_critical_count := 0, m_recovery_count := 0\<rparr> in
        if offline_samples (m_config m) \<le> m_offline_count m
        then transition_to m MotorState.fault_latched TransitionReason.sensor_offline
        else (unchanged m, m)
      else
        let m = m\<lparr>m_offline_count := 0\<rparr>;
            m = (if is_critical (m_config m) s
                 then m\<lparr>m_critical_count := m_critical_count m + 1\<rparr>
                 else m\<lparr>m_critical_count := 0\<rparr>) in
        if critical_samples (m_config m) \<le> m_critical_count m
        then transition_to m MotorState.fault_latched TransitionReason.critical_reading
        else
          let m = (if is_warning (m_config m) s
                   then m\<lparr>m_warning_count := m_warning_count m + 1, m_recovery_count := 0\<rparr>
                   else let m = m\<lparr>m_warning_count := 0\<rparr> in
                     if m_state m = MotorState.degraded \<and> is_recovered (m_config m) s
                     then m\<lparr>m_recovery_count := m_recovery_count m + 1\<rparr>
                     else m\<lparr>m_recovery_count := 0\<rparr>) in
          if m_state m = MotorState.healthy \<and> warning_samples (m_config m) \<le> m_warning_count m
          then transition_to m MotorState.degraded TransitionReason.warning_persisted
          else if m_state m = MotorState.degraded \<and>
                  recovery_samples (m_config m) \<le> m_recovery_count m
          then transition_to m MotorState.healthy TransitionReason.readings_recovered
          else (unchanged m, m))"

definition handle :: "MotorStateMachine \<Rightarrow> Event \<Rightarrow> StateTransition \<times> MotorStateMachine" where
  "handle m e =
     (if m_state m = MotorState.safe_shutdown then (unchanged m, m)
      else if kind e = EventKind.shutdown_requested
      then transition_to m MotorState.safe_shutdown TransitionReason.shutdown_requested
      else if kind e = EventKind.internal_fault
      then transition_to m MotorState.fault_latched TransitionReason.internal_resource_failure
      else case kind e of
        EventKind.startup \<Rightarrow>
          if m_state m = MotorState.booting
          then transition_to m MotorState.self_test TransitionReason.startup_requested
          else (unchanged m, m)
      | EventKind.self_test_passed \<Rightarrow>
          if m_state m = MotorState.self_test
          then transition_to m MotorState.healthy TransitionReason.self_test_succeeded
          else (unchanged m, m)
      | EventKind.sensor_sample \<Rightarrow> handle_sample m (sample e)
      | EventKind.reset_requested \<Rightarrow>
          if m_state m = MotorState.fault_latched
          then transition_to m MotorState.self_test TransitionReason.manual_reset
          else (unchanged m, m)
      | EventKind.shutdown_requested \<Rightarrow> (unchanged m, m)
      | EventKind.internal_fault \<Rightarrow> (unchanged m, m))"

text \<open>The machine after an event, and after a sequence of events, as the control task runs it.\<close>

definition machine_step :: "MotorStateMachine \<Rightarrow> Event \<Rightarrow> MotorStateMachine" where
  "machine_step m e = snd (handle m e)"

fun machine_run :: "MotorStateMachine \<Rightarrow> Event list \<Rightarrow> MotorStateMachine" where
  "machine_run m [] = m"
| "machine_run m (e # es) = machine_run (machine_step m e) es"

definition machine_samples :: "MotorStateMachine \<Rightarrow> SensorSample list \<Rightarrow> MotorStateMachine" where
  "machine_samples m ss = machine_run m (map Event_sensor_sample ss)"

text \<open>Two sample readings used in examples: far above critical, and in the warning range.\<close>

definition hot_sample :: SensorSample where
  "hot_sample =
     \<lparr>temperature_c = dlit 105, vibration_mm_s = dlit 2, current_a = dlit 6, online = True,
      sequence = 0\<rparr>"

definition warm_sample :: SensorSample where
  "warm_sample = hot_sample\<lparr>temperature_c := dlit 85\<rparr>"

section \<open>Basic facts\<close>

lemma transition_to_simps [simp]:
  "fst (transition_to m n r) =
     \<lparr>previous = m_state m, current = n, reason = r, changed = (m_state m \<noteq> n)\<rparr>"
  "snd (transition_to m n r) = reset_counters (m\<lparr>m_state := n\<rparr>)"
  by (simp_all add: transition_to_def reset_counters_def Let_def)

lemma reset_counters_simps [simp]:
  "m_state (reset_counters m) = m_state m"
  "m_config (reset_counters m) = m_config m"
  "m_warning_count (reset_counters m) = 0"
  "m_critical_count (reset_counters m) = 0"
  "m_recovery_count (reset_counters m) = 0"
  "m_offline_count (reset_counters m) = 0"
  "m_last_sample (reset_counters m) = m_last_sample m"
  "m_has_sample (reset_counters m) = m_has_sample m"
  by (simp_all add: reset_counters_def)

lemma handle_sample_config [simp]: "m_config (snd (handle_sample m s)) = m_config m"
  by (simp add: handle_sample_def Let_def)

lemma handle_config [simp]: "m_config (snd (handle m e)) = m_config m"
  by (simp add: handle_def split: EventKind.splits)

lemma machine_step_config [simp]: "m_config (machine_step m e) = m_config m"
  by (simp add: machine_step_def)

lemma machine_run_config [simp]: "m_config (machine_run m es) = m_config m"
  by (induction es arbitrary: m) simp_all

lemma machine_run_append: "machine_run m (es @ fs) = machine_run (machine_run m es) fs"
  by (induction es arbitrary: m) simp_all

lemma machine_samples_simps [simp]:
  "machine_samples m [] = m"
  "machine_samples m (s # ss) = machine_samples (machine_step m (Event_sensor_sample s)) ss"
  by (simp_all add: machine_samples_def)

lemma machine_samples_append:
  "machine_samples m (ss @ ts) = machine_samples (machine_samples m ss) ts"
  by (simp add: machine_samples_def machine_run_append)

lemma machine_samples_config [simp]: "m_config (machine_samples m ss) = m_config m"
  by (simp add: machine_samples_def)

section \<open>Invariant of the counters\<close>

text \<open>
  A counter is either clear or still below its limit: reaching the limit causes a transition, which
  clears it. Outside the two operating states every counter is clear. The warning counter of a
  degraded machine is not bounded by any limit; the code never reads it there.
\<close>

definition counter_ok :: "size_t \<Rightarrow> size_t \<Rightarrow> bool" where
  "counter_ok c limit \<longleftrightarrow> c = 0 \<or> c < limit"

definition operating :: "MotorState \<Rightarrow> bool" where
  "operating st \<longleftrightarrow> st = MotorState.healthy \<or> st = MotorState.degraded"

definition machine_inv :: "MotorStateMachine \<Rightarrow> bool" where
  "machine_inv m \<longleftrightarrow>
     counter_ok (m_offline_count m) (offline_samples (m_config m)) \<and>
     counter_ok (m_critical_count m) (critical_samples (m_config m)) \<and>
     counter_ok (m_recovery_count m) (recovery_samples (m_config m)) \<and>
     (m_state m = MotorState.healthy \<longrightarrow>
        counter_ok (m_warning_count m) (warning_samples (m_config m))) \<and>
     (m_state m \<noteq> MotorState.degraded \<longrightarrow> m_recovery_count m = 0) \<and>
     (\<not> operating (m_state m) \<longrightarrow>
        m_warning_count m = 0 \<and> m_critical_count m = 0 \<and> m_offline_count m = 0)"

lemma counter_ok_0 [simp]: "counter_ok 0 n"
  by (simp add: counter_ok_def)

lemma counter_ok_less: "\<not> n \<le> c \<Longrightarrow> counter_ok c n"
  by (simp add: counter_ok_def not_le)

lemma machine_inv_reset [simp]: "machine_inv (reset_counters m)"
  by (simp add: machine_inv_def)

lemma machine_inv_init: "machine_inv (MotorStateMachine_init cfg)"
  by (simp add: machine_inv_def MotorStateMachine_init_def)

text \<open>The branches of \<open>handle_sample\<close>, flattened: one equation per return statement.\<close>

definition next_critical :: "MotorStateMachine \<Rightarrow> SensorSample \<Rightarrow> size_t" where
  "next_critical m s = (if is_critical (m_config m) s then m_critical_count m + 1 else 0)"

definition next_warning :: "MotorStateMachine \<Rightarrow> SensorSample \<Rightarrow> size_t" where
  "next_warning m s = (if is_warning (m_config m) s then m_warning_count m + 1 else 0)"

definition next_recovery :: "MotorStateMachine \<Rightarrow> SensorSample \<Rightarrow> size_t" where
  "next_recovery m s =
     (if \<not> is_warning (m_config m) s \<and> m_state m = MotorState.degraded \<and>
         is_recovered (m_config m) s
      then m_recovery_count m + 1 else 0)"

definition seen :: "MotorStateMachine \<Rightarrow> SensorSample \<Rightarrow> MotorStateMachine" where
  "seen m s = m\<lparr>m_last_sample := s, m_has_sample := True\<rparr>"

definition seen_offline :: "MotorStateMachine \<Rightarrow> SensorSample \<Rightarrow> MotorStateMachine" where
  "seen_offline m s =
     (seen m s)\<lparr>m_offline_count := m_offline_count m + 1, m_warning_count := 0,
                m_critical_count := 0, m_recovery_count := 0\<rparr>"

definition seen_online :: "MotorStateMachine \<Rightarrow> SensorSample \<Rightarrow> MotorStateMachine" where
  "seen_online m s =
     (seen m s)\<lparr>m_offline_count := 0, m_critical_count := next_critical m s,
                m_warning_count := next_warning m s, m_recovery_count := next_recovery m s\<rparr>"

lemma seen_simps [simp]:
  "m_state (seen m s) = m_state m" "m_config (seen m s) = m_config m"
  "m_last_sample (seen m s) = s" "m_has_sample (seen m s)"
  "m_offline_count (seen m s) = m_offline_count m"
  "m_critical_count (seen m s) = m_critical_count m"
  "m_warning_count (seen m s) = m_warning_count m"
  "m_recovery_count (seen m s) = m_recovery_count m"
  by (simp_all add: seen_def)

lemma seen_offline_simps [simp]:
  "m_state (seen_offline m s) = m_state m" "m_config (seen_offline m s) = m_config m"
  "m_last_sample (seen_offline m s) = s" "m_has_sample (seen_offline m s)"
  "m_offline_count (seen_offline m s) = m_offline_count m + 1"
  "m_critical_count (seen_offline m s) = 0" "m_warning_count (seen_offline m s) = 0"
  "m_recovery_count (seen_offline m s) = 0"
  by (simp_all add: seen_offline_def)

lemma seen_online_simps [simp]:
  "m_state (seen_online m s) = m_state m" "m_config (seen_online m s) = m_config m"
  "m_last_sample (seen_online m s) = s" "m_has_sample (seen_online m s)"
  "m_offline_count (seen_online m s) = 0"
  "m_critical_count (seen_online m s) = next_critical m s"
  "m_warning_count (seen_online m s) = next_warning m s"
  "m_recovery_count (seen_online m s) = next_recovery m s"
  by (simp_all add: seen_online_def)

text \<open>Entering a state clears all counters, so only the sample fields survive from before.\<close>

definition entered :: "MotorStateMachine \<Rightarrow> SensorSample \<Rightarrow> MotorState \<Rightarrow> MotorStateMachine" where
  "entered m s st = reset_counters ((seen m s)\<lparr>m_state := st\<rparr>)"

lemma entered_simps [simp]:
  "m_state (entered m s st) = st" "m_config (entered m s st) = m_config m"
  "m_last_sample (entered m s st) = s" "m_has_sample (entered m s st)"
  "m_offline_count (entered m s st) = 0" "m_critical_count (entered m s st) = 0"
  "m_warning_count (entered m s st) = 0" "m_recovery_count (entered m s st) = 0"
  "machine_inv (entered m s st)"
  by (simp_all add: entered_def)

lemma handle_sample_idle:
  "\<not> operating (m_state m) \<Longrightarrow> handle_sample m s = (unchanged m, seen m s)"
  by (simp add: handle_sample_def operating_def seen_def unchanged_def)

lemma handle_sample_offline:
  assumes "operating (m_state m)" and "\<not> online s"
  shows "handle_sample m s =
     (if offline_samples (m_config m) \<le> m_offline_count m + 1
      then (\<lparr>previous = m_state m, current = MotorState.fault_latched,
             reason = TransitionReason.sensor_offline, changed = True\<rparr>,
            entered m s MotorState.fault_latched)
      else (unchanged m, seen_offline m s))"
  using assms
  by (auto simp: handle_sample_def operating_def seen_offline_def seen_def entered_def
      transition_to_def reset_counters_def unchanged_def Let_def)

lemma handle_sample_critical:
  assumes "operating (m_state m)" and "online s"
    and "critical_samples (m_config m) \<le> next_critical m s"
  shows "handle_sample m s =
     (\<lparr>previous = m_state m, current = MotorState.fault_latched,
       reason = TransitionReason.critical_reading, changed = True\<rparr>,
      entered m s MotorState.fault_latched)"
  using assms
  by (auto simp: handle_sample_def operating_def next_critical_def seen_def entered_def
      transition_to_def reset_counters_def Let_def split: if_splits)

lemma handle_sample_healthy:
  assumes "m_state m = MotorState.healthy" and "online s"
    and "\<not> critical_samples (m_config m) \<le> next_critical m s"
  shows "handle_sample m s =
     (if warning_samples (m_config m) \<le> next_warning m s
      then (\<lparr>previous = m_state m, current = MotorState.degraded,
             reason = TransitionReason.warning_persisted, changed = True\<rparr>,
            entered m s MotorState.degraded)
      else (unchanged m, seen_online m s))"
  using assms
  by (auto simp: handle_sample_def next_critical_def next_warning_def next_recovery_def
      seen_online_def seen_def entered_def transition_to_def reset_counters_def unchanged_def
      Let_def split: if_splits)

lemma handle_sample_degraded:
  assumes "m_state m = MotorState.degraded" and "online s"
    and "\<not> critical_samples (m_config m) \<le> next_critical m s"
  shows "handle_sample m s =
     (if recovery_samples (m_config m) \<le> next_recovery m s
      then (\<lparr>previous = m_state m, current = MotorState.healthy,
             reason = TransitionReason.readings_recovered, changed = True\<rparr>,
            entered m s MotorState.healthy)
      else (unchanged m, seen_online m s))"
  using assms
  by (auto simp: handle_sample_def next_critical_def next_warning_def next_recovery_def
      seen_online_def seen_def entered_def transition_to_def reset_counters_def unchanged_def
      Let_def split: if_splits)

text \<open>Case analysis over the branches.\<close>

lemma handle_sample_cases:
  fixes m :: MotorStateMachine and s :: SensorSample
  obtains (idle) "\<not> operating (m_state m)"
  | (offline) "operating (m_state m)" "\<not> online s"
  | (critical) "operating (m_state m)" "online s"
      "critical_samples (m_config m) \<le> next_critical m s"
  | (healthy) "m_state m = MotorState.healthy" "online s"
      "\<not> critical_samples (m_config m) \<le> next_critical m s"
  | (degraded) "m_state m = MotorState.degraded" "online s"
      "\<not> critical_samples (m_config m) \<le> next_critical m s"
  unfolding operating_def by blast

lemmas handle_sample_branches = handle_sample_idle handle_sample_offline handle_sample_critical
  handle_sample_healthy handle_sample_degraded

lemma handle_sample_inv:
  assumes "machine_inv m"
  shows "machine_inv (snd (handle_sample m s))"
proof (cases rule: handle_sample_cases [where m = m and s = s])
  case idle
  with assms show ?thesis by (simp add: handle_sample_branches machine_inv_def)
next
  case offline
  with assms show ?thesis
    by (simp add: handle_sample_branches machine_inv_def counter_ok_less)
next
  case critical
  then show ?thesis by (simp add: handle_sample_branches)
next
  case healthy
  with assms show ?thesis
    by (simp add: handle_sample_branches machine_inv_def counter_ok_less next_recovery_def
        operating_def)
next
  case degraded
  with assms show ?thesis
    by (simp add: handle_sample_branches machine_inv_def counter_ok_less operating_def)
qed

lemma machine_step_inv: "machine_inv m \<Longrightarrow> machine_inv (machine_step m e)"
  by (auto simp: machine_step_def handle_def handle_sample_inv split: EventKind.splits)

lemma machine_run_inv: "machine_inv m \<Longrightarrow> machine_inv (machine_run m es)"
  by (induction es arbitrary: m) (auto intro: machine_step_inv)

section \<open>Specification over the history of samples\<close>

text \<open>
  The specification keeps no counters. It remembers the samples received since the current state
  was entered, newest first, and looks at the newest ones: a limit of \<open>n\<close> is met when the last
  \<open>n\<close> samples all show the condition.
\<close>

definition last_all :: "size_t \<Rightarrow> ('a \<Rightarrow> bool) \<Rightarrow> 'a list \<Rightarrow> bool" where
  "last_all n P hist \<longleftrightarrow> unat n \<le> length hist \<and> (\<forall>x \<in> set (take (unat n) hist). P x)"

type_synonym spec_state = "MotorState \<times> SensorSample list"

definition spec_sample :: "ProtectionConfig \<Rightarrow> spec_state \<Rightarrow> SensorSample \<Rightarrow> spec_state" where
  "spec_sample cfg = (\<lambda>(st, hist) s.
     if \<not> operating st then (st, hist)
     else let hist = s # hist in
       if \<not> online s then
         (if last_all (offline_samples cfg) (\<lambda>x. \<not> online x) hist
          then (MotorState.fault_latched, []) else (st, hist))
       else if last_all (critical_samples cfg) (\<lambda>x. online x \<and> is_critical cfg x) hist
       then (MotorState.fault_latched, [])
       else if st = MotorState.healthy \<and>
               last_all (warning_samples cfg) (\<lambda>x. online x \<and> is_warning cfg x) hist
       then (MotorState.degraded, [])
       else if st = MotorState.degraded \<and>
               last_all (recovery_samples cfg)
                 (\<lambda>x. online x \<and> \<not> is_warning cfg x \<and> is_recovered cfg x) hist
       then (MotorState.healthy, [])
       else (st, hist))"

definition spec_event :: "ProtectionConfig \<Rightarrow> spec_state \<Rightarrow> Event \<Rightarrow> spec_state" where
  "spec_event cfg = (\<lambda>(st, hist) e.
     if st = MotorState.safe_shutdown then (st, hist)
     else case kind e of
       EventKind.shutdown_requested \<Rightarrow> (MotorState.safe_shutdown, [])
     | EventKind.internal_fault \<Rightarrow> (MotorState.fault_latched, [])
     | EventKind.startup \<Rightarrow>
         if st = MotorState.booting then (MotorState.self_test, []) else (st, hist)
     | EventKind.self_test_passed \<Rightarrow>
         if st = MotorState.self_test then (MotorState.healthy, []) else (st, hist)
     | EventKind.reset_requested \<Rightarrow>
         if st = MotorState.fault_latched then (MotorState.self_test, []) else (st, hist)
     | EventKind.sensor_sample \<Rightarrow> spec_sample cfg (st, hist) (sample e))"

text \<open>The abstraction relation: each counter is the length of the matching run in the history.\<close>

definition refines :: "MotorStateMachine \<Rightarrow> spec_state \<Rightarrow> bool" where
  "refines m = (\<lambda>(st, hist). let cfg = m_config m in
     machine_inv m \<and> m_state m = st \<and>
     (operating st \<longrightarrow>
        unat (m_offline_count m) = run_length (\<lambda>x. \<not> online x) hist \<and>
        unat (m_critical_count m) = run_length (\<lambda>x. online x \<and> is_critical cfg x) hist) \<and>
     (st = MotorState.healthy \<longrightarrow>
        unat (m_warning_count m) = run_length (\<lambda>x. online x \<and> is_warning cfg x) hist) \<and>
     (st = MotorState.degraded \<longrightarrow>
        unat (m_recovery_count m) =
          run_length (\<lambda>x. online x \<and> \<not> is_warning cfg x \<and> is_recovered cfg x) hist))"

lemma last_all_run: "last_all n P hist \<longleftrightarrow> unat n \<le> run_length P hist"
  by (simp add: last_all_def run_length_ge_iff)

lemma counter_Suc: "counter_ok c n \<Longrightarrow> unat (c + 1) = Suc (unat c)"
  by (auto simp: counter_ok_def word_less_nat_alt intro: unat_Suc_if_less)

lemma refines_reset [simp]: "refines (reset_counters m) (st, []) \<longleftrightarrow> m_state m = st"
  by (auto simp: refines_def)

lemma refines_handle_sample:
  assumes "refines m (st, hist)"
  shows "refines (snd (handle_sample m s)) (spec_sample (m_config m) (st, hist) s)"
proof -
  have inv: "machine_inv (snd (handle_sample m s))"
    using assms handle_sample_inv by (simp add: refines_def Let_def)
  have st: "m_state m = st" using assms by (simp add: refines_def Let_def)
  have offline': "counter_ok (m_offline_count m) (offline_samples (m_config m))"
    and critical': "counter_ok (m_critical_count m) (critical_samples (m_config m))"
    and recovery': "counter_ok (m_recovery_count m) (recovery_samples (m_config m))"
    and warning': "st = MotorState.healthy \<Longrightarrow>
      counter_ok (m_warning_count m) (warning_samples (m_config m))"
    using assms by (auto simp: refines_def machine_inv_def Let_def)
  show ?thesis
  proof (cases rule: handle_sample_cases [where m = m and s = s])
    case idle
    with assms inv st show ?thesis
      by (simp add: handle_sample_branches refines_def spec_sample_def operating_def Let_def)
  next
    case offline
    with assms inv st counter_Suc [OF offline'] show ?thesis
      by (auto simp: handle_sample_branches refines_def spec_sample_def last_all_run
          word_le_nat_alt Let_def)
  next
    case critical
    with assms st counter_Suc [OF critical'] show ?thesis
      by (auto simp: handle_sample_branches refines_def spec_sample_def last_all_run
          word_le_nat_alt next_critical_def operating_def Let_def split: if_splits)
  next
    case healthy
    with assms inv st counter_Suc [OF critical'] counter_Suc [OF warning'] show ?thesis
      by (auto simp: handle_sample_branches refines_def spec_sample_def last_all_run
          word_le_nat_alt next_critical_def next_warning_def operating_def Let_def
          split: if_splits)
  next
    case degraded
    with assms inv st counter_Suc [OF critical'] counter_Suc [OF recovery'] show ?thesis
      by (auto simp: handle_sample_branches refines_def spec_sample_def last_all_run
          word_le_nat_alt next_critical_def next_recovery_def operating_def Let_def
          split: if_splits)
  qed
qed

lemma refines_machine_step:
  assumes "refines m (st, hist)"
  shows "refines (machine_step m e) (spec_event (m_config m) (st, hist) e)"
proof -
  have st: "m_state m = st" using assms by (simp add: refines_def Let_def)
  show ?thesis
    using assms st refines_handle_sample [OF assms, of "sample e"]
    by (cases "kind e") (auto simp: machine_step_def handle_def spec_event_def)
qed

lemma refines_machine_run:
  "refines m ss \<Longrightarrow> refines (machine_run m es) (foldl (spec_event (m_config m)) ss es)"
proof (induction es arbitrary: m ss)
  case Nil
  then show ?case by simp
next
  case (Cons e es)
  obtain st hist where ss: "ss = (st, hist)" by (cases ss)
  with Cons.prems have "refines (machine_step m e) (spec_event (m_config m) ss e)"
    using refines_machine_step by simp
  from Cons.IH [OF this] show ?case by simp
qed

lemma refines_init: "refines (MotorStateMachine_init cfg) (MotorState.booting, [])"
  using machine_inv_init by (simp add: refines_def operating_def MotorStateMachine_init_def)

section \<open>Transitions\<close>

text \<open>The transition graph, each edge with the reason the machine reports for it.\<close>

inductive edge :: "MotorState \<Rightarrow> TransitionReason \<Rightarrow> MotorState \<Rightarrow> bool" where
  boot: "edge MotorState.booting TransitionReason.startup_requested MotorState.self_test"
| pass: "edge MotorState.self_test TransitionReason.self_test_succeeded MotorState.healthy"
| warn: "edge MotorState.healthy TransitionReason.warning_persisted MotorState.degraded"
| recover: "edge MotorState.degraded TransitionReason.readings_recovered MotorState.healthy"
| critical: "operating st \<Longrightarrow> edge st TransitionReason.critical_reading MotorState.fault_latched"
| offline: "operating st \<Longrightarrow> edge st TransitionReason.sensor_offline MotorState.fault_latched"
| internal: "st \<noteq> MotorState.safe_shutdown \<Longrightarrow>
    edge st TransitionReason.internal_resource_failure MotorState.fault_latched"
| reset: "edge MotorState.fault_latched TransitionReason.manual_reset MotorState.self_test"
| shutdown: "st \<noteq> MotorState.safe_shutdown \<Longrightarrow>
    edge st TransitionReason.shutdown_requested MotorState.safe_shutdown"

inductive_cases edge_from_faultE: "edge MotorState.fault_latched r st"
inductive_cases edge_from_shutdownE: "edge MotorState.safe_shutdown r st"
inductive_simps edge_to_healthy: "edge st r MotorState.healthy"

text \<open>What a report says of the states before and after.\<close>

definition report_ok :: "MotorState \<Rightarrow> StateTransition \<Rightarrow> MotorState \<Rightarrow> bool" where
  "report_ok before rep after \<longleftrightarrow>
     previous rep = before \<and> current rep = after \<and> changed rep = (before \<noteq> after) \<and>
     (if reason rep = TransitionReason.none then before = after
      else edge before (reason rep) after)"

lemma report_ok_unchanged [simp]: "report_ok (m_state m) (unchanged m) (m_state m)"
  by (simp add: report_ok_def unchanged_def)

lemma handle_sample_report:
  "report_ok (m_state m) (fst (handle_sample m s)) (m_state (snd (handle_sample m s)))"
proof (cases rule: handle_sample_cases [where m = m and s = s])
  case offline
  then show ?thesis
    by (auto simp: handle_sample_branches report_ok_def unchanged_def operating_def
        intro: edge.intros)
next
  case critical
  then show ?thesis
    by (auto simp: handle_sample_branches report_ok_def operating_def intro: edge.intros)
qed (auto simp: handle_sample_branches report_ok_def unchanged_def intro: edge.intros)

lemma handle_report: "report_ok (m_state m) (fst (handle m e)) (m_state (snd (handle m e)))"
  using handle_sample_report [of m "sample e"]
  by (cases "kind e") (auto simp: handle_def report_ok_def unchanged_def intro: edge.intros)

lemma machine_step_edge:
  assumes "m_state (machine_step m e) \<noteq> m_state m"
  shows "edge (m_state m) (reason (fst (handle m e))) (m_state (machine_step m e))"
  using handle_report [of m e] assms
  by (auto simp: report_ok_def machine_step_def split: if_splits)

section \<open>Latching and shutdown\<close>

lemma machine_step_shutdown_stable:
  "m_state m = MotorState.safe_shutdown \<Longrightarrow> machine_step m e = m"
  by (simp add: machine_step_def handle_def)

lemma machine_step_shutdown_request:
  "kind e = EventKind.shutdown_requested \<Longrightarrow>
     m_state (machine_step m e) = MotorState.safe_shutdown"
  by (simp add: machine_step_def handle_def)

lemma machine_step_latched:
  assumes "m_state m = MotorState.fault_latched"
    and "kind e \<noteq> EventKind.reset_requested" and "kind e \<noteq> EventKind.shutdown_requested"
  shows "m_state (machine_step m e) = MotorState.fault_latched"
  using assms
  by (cases "kind e") (simp_all add: machine_step_def handle_def handle_sample_idle operating_def)

lemma machine_run_latched:
  assumes "m_state m = MotorState.fault_latched"
    and "\<forall>e \<in> set es. kind e \<noteq> EventKind.reset_requested \<and> kind e \<noteq> EventKind.shutdown_requested"
  shows "m_state (machine_run m es) = MotorState.fault_latched"
  using assms by (induction es arbitrary: m) (auto intro: machine_step_latched)

text \<open>
  What a supervisor needs from the machine it drives: some condition is terminal, and one
  distinguished event always leads to it.
\<close>

locale supervised_machine =
  fixes step :: "'m \<Rightarrow> 'e \<Rightarrow> 'm"
    and terminal :: "'m \<Rightarrow> bool"
    and stops :: "'e \<Rightarrow> bool"
  assumes terminal_stable: "terminal m \<Longrightarrow> terminal (step m e)"
    and stops_terminal: "stops e \<Longrightarrow> terminal (step m e)"
begin

lemma foldl_terminal: "terminal m \<Longrightarrow> terminal (foldl step m es)"
  by (induction es arbitrary: m) (simp_all add: terminal_stable)

lemma foldl_stops:
  assumes "e \<in> set es" and "stops e"
  shows "terminal (foldl step m es)"
proof -
  obtain xs ys where "es = xs @ e # ys" using assms(1) by (meson split_list)
  then show ?thesis using assms(2) by (simp add: foldl_terminal stops_terminal)
qed

end

interpretation motor: supervised_machine machine_step
  "\<lambda>m. m_state m = MotorState.safe_shutdown" "\<lambda>e. kind e = EventKind.shutdown_requested"
  by unfold_locales (simp_all add: machine_step_shutdown_stable machine_step_shutdown_request)

lemma machine_run_foldl: "machine_run m es = foldl machine_step m es"
  by (induction es arbitrary: m) simp_all

section \<open>Detection\<close>

text \<open>
  A configuration is usable when every limit is positive and no critical threshold lies below the
  warning threshold of the same quantity.
\<close>

definition config_ok :: "ProtectionConfig \<Rightarrow> bool" where
  "config_ok cfg \<longleftrightarrow>
     0 < warning_samples cfg \<and> 0 < critical_samples cfg \<and> 0 < recovery_samples cfg \<and>
     0 < offline_samples cfg \<and>
     dle (temperature_warning_c cfg) (temperature_critical_c cfg) \<and>
     dle (vibration_warning_mm_s cfg) (vibration_critical_mm_s cfg) \<and>
     dle (current_warning_a cfg) (current_critical_a cfg)"

lemma config_ok_default: "config_ok ProtectionConfig_default"
  by (simp add: config_ok_def ProtectionConfig_default_def dle_finite)

lemma critical_is_warning: "config_ok cfg \<Longrightarrow> is_critical cfg s \<Longrightarrow> is_warning cfg s"
  by (auto simp: config_ok_def is_critical_def is_warning_def dge_def intro: dle_trans)

lemma machine_step_sample:
  "m_state m \<noteq> MotorState.safe_shutdown \<Longrightarrow>
     machine_step m (Event_sensor_sample s) = snd (handle_sample m s)"
  by (simp add: machine_step_def handle_def)

lemma operating_not_shutdown: "operating st \<Longrightarrow> st \<noteq> MotorState.safe_shutdown"
  by (auto simp: operating_def)

lemma machine_samples_latched:
  assumes "m_state m = MotorState.fault_latched"
  shows "m_state (machine_samples m ss) = MotorState.fault_latched"
  unfolding machine_samples_def using assms by (intro machine_run_latched) auto

lemma degraded_detects_critical:
  assumes "m_state m = MotorState.degraded" and "machine_inv m" and "config_ok (m_config m)"
    and "\<forall>s \<in> set ss. online s \<and> is_critical (m_config m) s"
    and "unat (critical_samples (m_config m)) \<le> unat (m_critical_count m) + length ss"
    and "ss \<noteq> []"
  shows "m_state (machine_samples m ss) = MotorState.fault_latched"
  using assms
proof (induction ss arbitrary: m)
  case Nil
  then show ?case by simp
next
  case (Cons s ss)
  let ?m = "machine_step m (Event_sensor_sample s)"
  have s: "online s" "is_critical (m_config m) s" "is_warning (m_config m) s"
    using Cons.prems critical_is_warning by auto
  have step: "?m = snd (handle_sample m s)"
    using Cons.prems(1) by (simp add: machine_step_sample)
  have Suc: "unat (m_critical_count m + 1) = Suc (unat (m_critical_count m))"
    using Cons.prems(2) counter_Suc by (auto simp: machine_inv_def)
  show ?case
  proof (cases "critical_samples (m_config m) \<le> m_critical_count m + 1")
    case True
    then have "m_state ?m = MotorState.fault_latched"
      using Cons.prems(1) s
      by (simp add: step handle_sample_critical operating_def next_critical_def)
    then show ?thesis by (simp add: machine_samples_latched)
  next
    case False
    have rec: "\<not> recovery_samples (m_config m) \<le> next_recovery m s"
      using Cons.prems(3) s(3) by (simp add: config_ok_def next_recovery_def word_gt_0)
    have m: "?m = seen_online m s"
      using False Cons.prems(1) s rec
      by (simp add: step handle_sample_degraded next_critical_def)
    have "ss \<noteq> []"
      using False Cons.prems(5) Suc by (auto simp: word_le_nat_alt)
    moreover have "machine_inv ?m" using Cons.prems(2) by (rule machine_step_inv)
    ultimately have "m_state (machine_samples ?m ss) = MotorState.fault_latched"
      using Cons.prems s Suc by (intro Cons.IH) (auto simp: m next_critical_def)
    then show ?thesis by simp
  qed
qed

lemma healthy_detects_critical:
  assumes "m_state m = MotorState.healthy" and "machine_inv m" and "config_ok (m_config m)"
    and "\<forall>s \<in> set ss. online s \<and> is_critical (m_config m) s"
    and "2 * unat (critical_samples (m_config m)) \<le> Suc (unat (m_critical_count m) + length ss)"
  shows "m_state (machine_samples m ss) = MotorState.fault_latched"
  using assms
proof (induction ss arbitrary: m)
  case Nil
  then have "unat (m_critical_count m) < unat (critical_samples (m_config m))"
    by (auto simp: machine_inv_def counter_ok_def config_ok_def word_less_nat_alt)
  with Nil.prems(5) show ?case by simp
next
  case (Cons s ss)
  let ?m = "machine_step m (Event_sensor_sample s)" and ?K = "unat (critical_samples (m_config m))"
  have s: "online s" "is_critical (m_config m) s" "is_warning (m_config m) s"
    using Cons.prems critical_is_warning by auto
  have step: "?m = snd (handle_sample m s)"
    using Cons.prems(1) by (simp add: machine_step_sample)
  have Suc: "unat (m_critical_count m + 1) = Suc (unat (m_critical_count m))"
    using Cons.prems(2) counter_Suc by (auto simp: machine_inv_def)
  have inv: "machine_inv ?m" using Cons.prems(2) by (rule machine_step_inv)
  show ?case
  proof (cases "critical_samples (m_config m) \<le> m_critical_count m + 1")
    case True
    then have "m_state ?m = MotorState.fault_latched"
      using Cons.prems(1) s
      by (simp add: step handle_sample_critical operating_def next_critical_def)
    then show ?thesis by (simp add: machine_samples_latched)
  next
    case False
    then have less: "Suc (unat (m_critical_count m)) < ?K"
      by (simp add: word_le_nat_alt Suc)
    show ?thesis
    proof (cases "warning_samples (m_config m) \<le> next_warning m s")
      case True
      then have m: "?m = entered m s MotorState.degraded"
        using False Cons.prems(1) s by (simp add: step handle_sample_healthy next_critical_def)
      have "?K \<le> length ss" using less Cons.prems(5) by simp
      moreover from this have "ss \<noteq> []" using less by auto
      ultimately have "m_state (machine_samples ?m ss) = MotorState.fault_latched"
        using Cons.prems inv by (intro degraded_detects_critical) (auto simp: m)
      then show ?thesis by simp
    next
      case no_warn: False
      then have m: "?m = seen_online m s"
        using False Cons.prems(1) s by (simp add: step handle_sample_healthy next_critical_def)
      have "m_state (machine_samples ?m ss) = MotorState.fault_latched"
        using Cons.prems inv Suc s by (intro Cons.IH) (auto simp: m next_critical_def)
      then show ?thesis by simp
    qed
  qed
qed

lemma operating_detects_critical:
  assumes "operating (m_state m)" and "machine_inv m" and "config_ok (m_config m)"
    and "\<forall>s \<in> set ss. online s \<and> is_critical (m_config m) s"
    and "2 * unat (critical_samples (m_config m)) - 1 \<le> length ss"
  shows "m_state (machine_samples m ss) = MotorState.fault_latched"
proof (cases "m_state m = MotorState.healthy")
  case True
  then show ?thesis using assms by (intro healthy_detects_critical) auto
next
  case False
  then have "m_state m = MotorState.degraded" using assms(1) by (simp add: operating_def)
  moreover have K: "0 < unat (critical_samples (m_config m))"
    using assms(3) by (simp add: config_ok_def unat_gt_0 word_gt_0)
  moreover have "ss \<noteq> []" using K assms(5) by auto
  ultimately show ?thesis using assms by (intro degraded_detects_critical) auto
qed

lemma operating_detects_offline:
  assumes "operating (m_state m)" and "machine_inv m"
    and "\<forall>s \<in> set ss. \<not> online s"
    and "unat (offline_samples (m_config m)) \<le> unat (m_offline_count m) + length ss"
    and "ss \<noteq> []"
  shows "m_state (machine_samples m ss) = MotorState.fault_latched"
  using assms
proof (induction ss arbitrary: m)
  case Nil
  then show ?case by simp
next
  case (Cons s ss)
  let ?m = "machine_step m (Event_sensor_sample s)"
  have step: "?m = snd (handle_sample m s)"
    using Cons.prems(1) by (simp add: machine_step_sample operating_not_shutdown)
  have Suc: "unat (m_offline_count m + 1) = Suc (unat (m_offline_count m))"
    using Cons.prems(2) counter_Suc by (auto simp: machine_inv_def)
  show ?case
  proof (cases "offline_samples (m_config m) \<le> m_offline_count m + 1")
    case True
    then have "m_state ?m = MotorState.fault_latched"
      using Cons.prems(1,3) by (simp add: step handle_sample_offline)
    then show ?thesis by (simp add: machine_samples_latched)
  next
    case False
    then have m: "?m = seen_offline m s"
      using Cons.prems(1,3) by (simp add: step handle_sample_offline)
    have "ss \<noteq> []"
      using False Cons.prems(4) Suc by (auto simp: word_le_nat_alt)
    moreover have "machine_inv ?m" using Cons.prems(2) by (rule machine_step_inv)
    ultimately have "m_state (machine_samples ?m ss) = MotorState.fault_latched"
      using Cons.prems Suc by (intro Cons.IH) (auto simp: m)
    then show ?thesis by simp
  qed
qed

lemma band_keeps_state:
  assumes "operating (m_state m)" and "config_ok (m_config m)"
    and "\<forall>s \<in> set ss. online s \<and> \<not> is_critical (m_config m) s \<and> \<not> is_warning (m_config m) s \<and>
           \<not> is_recovered (m_config m) s"
  shows "m_state (machine_samples m ss) = m_state m"
  using assms
proof (induction ss arbitrary: m)
  case Nil
  then show ?case by simp
next
  case (Cons s ss)
  let ?m = "machine_step m (Event_sensor_sample s)"
  have "next_critical m s = 0" "next_warning m s = 0" "next_recovery m s = 0"
    using Cons.prems(3) by (simp_all add: next_critical_def next_warning_def next_recovery_def)
  then have m: "?m = seen_online m s"
    using Cons.prems
    by (auto simp: machine_step_sample operating_def config_ok_def handle_sample_healthy
        handle_sample_degraded)
  have "m_state (machine_samples ?m ss) = m_state ?m"
    using Cons.prems by (intro Cons.IH) (auto simp: m)
  then show ?case by (simp add: m)
qed

section \<open>Properties of the state machine\<close>

text \<open>
  C2. For every configuration and every sequence of events, the state of the machine, which keeps
  four wrapping counters, is the state of the specification that keeps the history of samples since
  the last state entry and looks at the newest ones.
\<close>

theorem machine_refines_history:
  "m_state (machine_run (MotorStateMachine_init cfg) es) =
     fst (foldl (spec_event cfg) (MotorState.booting, []) es)"
proof -
  have cfg: "m_config (MotorStateMachine_init cfg) = cfg"
    by (simp add: MotorStateMachine_init_def)
  have "refines (machine_run (MotorStateMachine_init cfg) es)
          (foldl (spec_event cfg) (MotorState.booting, []) es)"
    using refines_machine_run [OF refines_init, of cfg es] by (simp only: cfg)
  then show ?thesis by (simp add: refines_def case_prod_beta Let_def)
qed

text \<open>
  Every report of the machine is truthful: it names the state before and the state after the
  event, says whether they differ, and a reason other than \<open>none\<close> is an edge of the transition
  graph between the two.
\<close>

lemma handle_reports_edge:
  "report_ok (m_state m) (fst (handle m e)) (m_state (snd (handle m e)))"
  by (rule handle_report)

text \<open>
  C26. A latched fault stays latched through any sequence of events without a manual reset or a
  shutdown request, however good the readings are.
\<close>

theorem fault_stays_latched:
  assumes "m_state m = MotorState.fault_latched"
    and "\<forall>e \<in> set es. kind e \<noteq> EventKind.reset_requested \<and> kind e \<noteq> EventKind.shutdown_requested"
  shows "m_state (machine_run m es) = MotorState.fault_latched"
  using assms by (rule machine_run_latched)

theorem fault_stays_latched_witness:
  "m_state (machine_run
      (machine_step (MotorStateMachine_init ProtectionConfig_default) Event_internal_fault)
      [Event_sensor_sample SensorSample_default, Event_startup, Event_self_test_passed])
    = MotorState.fault_latched"
  by (rule fault_stays_latched) (simp_all add: machine_step_def handle_def MotorStateMachine_init_def)

text \<open>
  C27. A shutdown request wins: whatever happened before it and whatever follows, the machine ends
  in \<open>safe_shutdown\<close>.
\<close>

theorem shutdown_reaches_safe_state:
  "m_state (machine_run m (es @ Event_shutdown_requested # fs)) = MotorState.safe_shutdown"
  unfolding machine_run_foldl by (rule motor.foldl_stops [of Event_shutdown_requested]) simp_all

text \<open>
  C24. Detection bound: in any reachable operating state, \<open>2 * critical_samples - 1\<close> consecutive
  online critical samples latch the fault.
\<close>

theorem critical_run_latches:
  assumes "config_ok cfg"
    and "m = machine_run (MotorStateMachine_init cfg) es" and "operating (m_state m)"
    and "\<forall>s \<in> set ss. online s \<and> is_critical cfg s"
    and "2 * unat (critical_samples cfg) - 1 \<le> length ss"
  shows "m_state (machine_samples m ss) = MotorState.fault_latched"
proof -
  have "m_config m = cfg" using assms(2) by (simp add: MotorStateMachine_init_def)
  moreover have "machine_inv m" using assms(2) machine_run_inv machine_inv_init by simp
  ultimately show ?thesis using assms by (intro operating_detects_critical) auto
qed

lemma healthy_after_start:
  "machine_run (MotorStateMachine_init cfg) [Event_startup, Event_self_test_passed] =
     (MotorStateMachine_init cfg)\<lparr>m_state := MotorState.healthy\<rparr>"
  by (simp add: machine_step_def handle_def MotorStateMachine_init_def reset_counters_def)

theorem critical_run_latches_witness:
  "m_state (machine_samples
      (machine_run (MotorStateMachine_init ProtectionConfig_default)
         [Event_startup, Event_self_test_passed]) [hot_sample, hot_sample, hot_sample])
    = MotorState.fault_latched"
proof (rule critical_run_latches [OF config_ok_default refl])
  show "operating (m_state (machine_run (MotorStateMachine_init ProtectionConfig_default)
         [Event_startup, Event_self_test_passed]))"
    by (simp add: healthy_after_start operating_def del: machine_run.simps)
qed (simp_all add: hot_sample_def is_critical_def ProtectionConfig_default_def dge_finite)

text \<open>
  The bound on the number of critical samples cannot be lowered to \<open>critical_samples\<close>: when the first
  critical sample is also the warning sample that degrades the machine, entering \<open>degraded\<close> clears
  the critical counter. With the default configuration (two critical samples latch) two warm
  samples followed by two critical ones leave the machine degraded with a critical count of one.
\<close>

lemma degrading_loses_critical_sample:
  "let m = machine_samples
       (machine_run (MotorStateMachine_init ProtectionConfig_default)
          [Event_startup, Event_self_test_passed])
       [warm_sample, warm_sample, hot_sample, hot_sample]
   in m_state m = MotorState.degraded \<and> m_critical_count m = 1 \<and>
      critical_samples (m_config m) = 2"
proof -
  let ?cfg = ProtectionConfig_default
  define m0 where "m0 = (MotorStateMachine_init ?cfg)\<lparr>m_state := MotorState.healthy\<rparr>"
  have m0: "m_state m0 = MotorState.healthy" "m_config m0 = ?cfg" "m_warning_count m0 = 0"
      "m_critical_count m0 = 0"
    by (simp_all add: m0_def MotorStateMachine_init_def)
  have limits: "critical_samples ?cfg = 2" "warning_samples ?cfg = 3" "recovery_samples ?cfg = 5"
    by (simp_all add: ProtectionConfig_default_def)
  have warm: "online warm_sample" "is_warning ?cfg warm_sample" "\<not> is_critical ?cfg warm_sample"
    and hot: "online hot_sample" "is_warning ?cfg hot_sample" "is_critical ?cfg hot_sample"
    by (simp_all add: warm_sample_def hot_sample_def is_warning_def is_critical_def
        ProtectionConfig_default_def dge_finite)
  note eval = machine_step_sample handle_sample_healthy handle_sample_degraded next_critical_def
    next_warning_def next_recovery_def limits warm hot word_le_nat_alt
  define m1 where "m1 = seen_online m0 warm_sample"
  define m2 where "m2 = seen_online m1 warm_sample"
  define m3 where "m3 = entered m2 hot_sample MotorState.degraded"
  have s1: "machine_step m0 (Event_sensor_sample warm_sample) = m1"
    by (simp add: eval m0 m1_def)
  have m1: "m_state m1 = MotorState.healthy" "m_config m1 = ?cfg" "m_warning_count m1 = 1"
      "m_critical_count m1 = 0"
    by (simp_all add: m1_def eval m0)
  have s2: "machine_step m1 (Event_sensor_sample warm_sample) = m2"
    by (simp add: eval m1 m2_def)
  have m2: "m_state m2 = MotorState.healthy" "m_config m2 = ?cfg" "m_warning_count m2 = 2"
      "m_critical_count m2 = 0"
    by (simp_all add: m2_def eval m1)
  have s3: "machine_step m2 (Event_sensor_sample hot_sample) = m3"
    by (simp add: eval m2 m3_def)
  have m3: "m_state m3 = MotorState.degraded" "m_config m3 = ?cfg" "m_critical_count m3 = 0"
    by (simp_all add: m3_def m2)
  have s4: "machine_step m3 (Event_sensor_sample hot_sample) = seen_online m3 hot_sample"
    by (simp add: eval m3)
  show ?thesis
    unfolding healthy_after_start m0_def [symmetric]
    by (simp add: s1 s2 s3 s4 m3 eval Let_def)
qed

text \<open>
  C25. In any reachable operating state, \<open>offline_samples\<close> consecutive offline samples latch the
  fault.
\<close>

theorem offline_run_latches:
  assumes "m = machine_run (MotorStateMachine_init cfg) es" and "operating (m_state m)"
    and "\<forall>s \<in> set ss. \<not> online s" and "ss \<noteq> []"
    and "unat (offline_samples cfg) \<le> length ss"
  shows "m_state (machine_samples m ss) = MotorState.fault_latched"
proof -
  have "m_config m = cfg" using assms(1) by (simp add: MotorStateMachine_init_def)
  moreover have "machine_inv m" using assms(1) machine_run_inv machine_inv_init by simp
  ultimately show ?thesis using assms by (intro operating_detects_offline) auto
qed

theorem offline_run_latches_witness:
  "m_state (machine_samples
      (machine_run (MotorStateMachine_init ProtectionConfig_default)
         [Event_startup, Event_self_test_passed])
      (replicate 3 (hot_sample\<lparr>online := False\<rparr>)))
    = MotorState.fault_latched"
proof (rule offline_run_latches [OF refl])
  show "operating (m_state (machine_run (MotorStateMachine_init ProtectionConfig_default)
         [Event_startup, Event_self_test_passed]))"
    by (simp add: healthy_after_start operating_def del: machine_run.simps)
qed (simp_all add: ProtectionConfig_default_def)

text \<open>
  C28. Hysteresis: readings that are below every warning threshold but not yet below all recovery
  thresholds change neither a healthy nor a degraded machine, for as long as they last.
\<close>

theorem hysteresis_band:
  assumes "operating (m_state m)" and "config_ok (m_config m)"
    and "\<forall>s \<in> set ss. online s \<and> \<not> is_warning (m_config m) s \<and> \<not> is_recovered (m_config m) s"
  shows "m_state (machine_samples m ss) = m_state m"
  using assms critical_is_warning by (intro band_keeps_state) auto

theorem hysteresis_band_witness:
  "m_state (machine_samples
      ((MotorStateMachine_init ProtectionConfig_default)\<lparr>m_state := MotorState.degraded\<rparr>)
      (replicate 7 (hot_sample\<lparr>temperature_c := dlit 78\<rparr>)))
    = MotorState.degraded"
proof -
  let ?m = "(MotorStateMachine_init ProtectionConfig_default)\<lparr>m_state := MotorState.degraded\<rparr>"
  have "m_state (machine_samples ?m (replicate 7 (hot_sample\<lparr>temperature_c := dlit 78\<rparr>)))
      = m_state ?m"
  proof (rule hysteresis_band)
    show "config_ok (m_config ?m)"
      using config_ok_default by (simp add: MotorStateMachine_init_def)
  qed (simp_all add: operating_def MotorStateMachine_init_def ProtectionConfig_default_def
       hot_sample_def is_warning_def is_recovered_def dge_finite dle_finite)
  then show ?thesis by simp
qed

text \<open>
  In every reachable state the counters are clear or below their limits, the recovery counter
  is used in \<open>degraded\<close> only, and all counters are clear outside the operating states; so none of
  the counters the machine compares with a limit ever wraps around.
\<close>

lemma reachable_counters_bounded: "machine_inv (machine_run (MotorStateMachine_init cfg) es)"
  by (rule machine_run_inv [OF machine_inv_init])

end
