(* ===== verification/Sensor_Source.thy ===== *)
theory Sensor_Source
  imports Motor_FSM
begin

text \<open>
  The interface \<open>ISensorSource\<close> of \<open>include/edge_sentinel/hal/sensor_source.hpp\<close>: a source has a state
  and one operation, \<open>read\<close>, which also depends on what the outside world does at that moment (the
  bytes that have arrived, the answers of the kernel, the calls of other threads). The locales state
  what the four implementations have in common and what follows for the state machine that is fed
  with their samples.
\<close>

section \<open>Reading repeatedly\<close>

text \<open>The samples of a sequence of reads, one for each input from outside, and the final state.\<close>

fun source_reads :: "('e \<Rightarrow> 's \<Rightarrow> SensorSample \<times> 's) \<Rightarrow> 'e list \<Rightarrow> 's \<Rightarrow> SensorSample list \<times> 's" where
  "source_reads read [] s = ([], s)"
| "source_reads read (e # es) s =
     (let (v, s) = read e s; (vs, s) = source_reads read es s in (v # vs, s))"

text \<open>A condition on the input and the state that holds at each of the reads.\<close>

fun along :: "('e \<Rightarrow> 's \<Rightarrow> bool) \<Rightarrow> ('e \<Rightarrow> 's \<Rightarrow> SensorSample \<times> 's) \<Rightarrow> 'e list \<Rightarrow> 's \<Rightarrow> bool" where
  "along P read [] s \<longleftrightarrow> True"
| "along P read (e # es) s \<longleftrightarrow> P e s \<and> along P read es (snd (read e s))"

lemma source_reads_Cons:
  "fst (source_reads read (e # es) s) = fst (read e s) # fst (source_reads read es (snd (read e s)))"
  "snd (source_reads read (e # es) s) = snd (source_reads read es (snd (read e s)))"
  by (simp_all add: Let_def case_prod_beta)

lemma length_source_reads [simp]: "length (fst (source_reads read es s)) = length es"
  by (induction es arbitrary: s) (simp_all add: source_reads_Cons del: source_reads.simps(2))

lemma along_samples:
  assumes "along P read es s" and "\<And>e s. P e s \<Longrightarrow> Q (fst (read e s))"
  shows "\<forall>v \<in> set (fst (source_reads read es s)). Q v"
  using assms(1)
proof (induction es arbitrary: s)
  case (Cons e es)
  then show ?case
    using assms(2) [of e s] by (simp add: source_reads_Cons del: source_reads.simps(2)) blast
qed simp

section \<open>What every source promises\<close>

text \<open>Samples are numbered consecutively, by a 64-bit counter that wraps around.\<close>

locale sensor_source =
  fixes read :: "'e \<Rightarrow> 's \<Rightarrow> SensorSample \<times> 's"
    and number :: "'s \<Rightarrow> uint64"
  assumes sample_number: "sequence (fst (read e s)) = number s + 1"
    and next_number: "number (snd (read e s)) = number s + 1"
begin

lemma reads_numbered:
  "map sequence (fst (source_reads read es s)) =
     map (\<lambda>i. number s + of_nat i) [1..<Suc (length es)]"
proof (induction es arbitrary: s)
  case (Cons e es)
  have "map (\<lambda>i. number s + 1 + of_nat i) [1..<Suc (length es)] =
      map (\<lambda>i. number s + of_nat i) (map Suc [1..<Suc (length es)])"
    by (simp add: algebra_simps del: upt_Suc)
  moreover have "[1..<Suc (Suc (length es))] = 1 # map Suc [1..<Suc (length es)]"
    by (simp add: map_Suc_upt upt_conv_Cons del: upt_Suc)
  ultimately show ?case
    using Cons by (simp add: source_reads_Cons sample_number next_number
        del: source_reads.simps(2) upt_Suc)
qed simp

lemma reads_distinct:
  assumes "length es < 2 ^ 64"
  shows "distinct (map sequence (fst (source_reads read es s)))"
proof -
  have "inj_on (\<lambda>i. number s + of_nat i) {1..<Suc (length es)}"
  proof (rule inj_onI)
    fix i j
    assume ij: "i \<in> {1..<Suc (length es)}" "j \<in> {1..<Suc (length es)}"
      and eq: "number s + of_nat i = number s + of_nat j"
    have "(of_nat i :: uint64) = of_nat j" using eq by simp
    moreover have "unat (of_nat i :: uint64) = i" "unat (of_nat j :: uint64) = j"
      using ij assms by (simp_all add: unat_of_nat)
    ultimately show "i = j" by metis
  qed
  then show ?thesis unfolding reads_numbered by (simp add: distinct_map del: upt_Suc)
qed

lemma critical_latches:
  assumes "operating (m_state m)" and "machine_inv m" and "config_ok (m_config m)"
    and "2 * unat (critical_samples (m_config m)) - 1 \<le> length es"
    and "along (\<lambda>e s. online (fst (read e s)) \<and> is_critical (m_config m) (fst (read e s))) read es s"
  shows "m_state (machine_samples m (fst (source_reads read es s))) = MotorState.fault_latched"
  by (rule operating_detects_critical [OF assms(1-3) along_samples [OF assms(5)]])
     (use assms(4) in simp_all)

end

text \<open>
  A source that notices silence: when the input from outside carries no measurement, the sample is
  marked offline.
\<close>

locale monitored_source = sensor_source read number
  for read :: "'e \<Rightarrow> 's \<Rightarrow> SensorSample \<times> 's" and number :: "'s \<Rightarrow> uint64" +
  fixes silent :: "'e \<Rightarrow> 's \<Rightarrow> bool"
  assumes silent_offline: "silent e s \<Longrightarrow> \<not> online (fst (read e s))"
begin

text \<open>So a source that stays silent long enough stops the motor.\<close>

lemma silence_latches:
  assumes "operating (m_state m)" and "machine_inv m"
    and "unat (offline_samples (m_config m)) \<le> length es" and "es \<noteq> []"
    and "along silent read es s"
  shows "m_state (machine_samples m (fst (source_reads read es s))) = MotorState.fault_latched"
proof (rule operating_detects_offline [OF assms(1,2)])
  show "\<forall>v \<in> set (fst (source_reads read es s)). \<not> online v"
    by (rule along_samples [OF assms(5)]) (rule silent_offline)
  show "fst (source_reads read es s) \<noteq> []"
    using assms(4) length_source_reads [of read es s] by (metis length_0_conv)
qed (use assms(3) in simp)

end

end
