(* ===== verification/Sensor_Adapters.thy ===== *)
theory Sensor_Adapters
  imports Uart_Protocol Can_Protocol I2c_Sensor Unique_Fd Sensor_Source
begin

text \<open>
  The Linux sensor sources of \<open>src/linux/sensor_adapters.cpp\<close> (declared in
  \<open>include/edge_sentinel/linux/sensor_adapters.hpp\<close>): UART, SocketCAN and I2C. System calls are
  outside the program: their answers are arguments of the constructors and of \<open>read\<close>. Descriptors are
  opened and closed in the table of \<open>Unique_Fd\<close>.
\<close>

section \<open>Model: common parts\<close>

definition EAGAIN :: int where
  "EAGAIN = 11"

definition EINVAL :: int where
  "EINVAL = 22"

text \<open>The constants \<open>B9600\<close>, \<open>B57600\<close> and \<open>B115200\<close> of Linux, and 0 for other rates.\<close>

definition baud_constant :: "int \<Rightarrow> uint32" where
  "baud_constant baud_rate =
     (if baud_rate = 9600 then 13
      else if baud_rate = 57600 then 4097
      else if baud_rate = 115200 then 4098
      else 0)"

text \<open>
  What the kernel answers when a source waits for input and then reads: \<open>poll\<close> reports no input in
  time, \<open>read\<close> delivers some data (nothing at the end of the file), or fails with an error number.
\<close>

datatype 'a input =
    NoInput
  | Data 'a
  | ReadError int

section \<open>Model: UART\<close>

record termios =
  c_cflag :: uint32
  c_vmin :: uint8
  c_vtime :: uint8

text \<open>
  The kernel and the C library as the constructor sees them: \<open>open\<close> (the answer and the error number),
  \<open>tcgetattr\<close> and \<open>tcsetattr\<close> (an error number if they fail), and the library functions that put a
  terminal into raw mode and set its speeds.
\<close>

record uart_os =
  uo_open :: "string \<Rightarrow> int \<times> int"
  uo_tcgetattr :: "int \<Rightarrow> int + termios"
  uo_tcsetattr :: "int \<Rightarrow> termios \<Rightarrow> int option"
  uo_cfmakeraw :: "termios \<Rightarrow> termios"
  uo_cfsetispeed :: "uint32 \<Rightarrow> termios \<Rightarrow> termios"
  uo_cfsetospeed :: "uint32 \<Rightarrow> termios \<Rightarrow> termios"

text \<open>\<open>CLOCAL | CREAD\<close>, \<open>CSTOPB\<close> and \<open>CRTSCTS\<close> of Linux.\<close>

definition uart_settings :: "uart_os \<Rightarrow> uint32 \<Rightarrow> termios \<Rightarrow> termios" where
  "uart_settings os speed settings =
     (let settings = uo_cfmakeraw os settings;
          settings = uo_cfsetispeed os speed settings;
          settings = uo_cfsetospeed os speed settings;
          settings = settings\<lparr>c_cflag := c_cflag settings OR 0x880\<rparr>;
          settings = settings\<lparr>c_cflag := c_cflag settings AND NOT 0x40\<rparr>;
          settings = settings\<lparr>c_cflag := c_cflag settings AND NOT 0x80000000\<rparr>
      in settings\<lparr>c_vmin := 0, c_vtime := 1\<rparr>)"

record UartSensorSource =
  us_descriptor :: UniqueFd
  us_decoder :: UartFrameDecoder
  us_sample :: SensorSample
  us_sequence :: uint64
  us_error_number :: int

definition UartSensorSource_init :: UartSensorSource where
  "UartSensorSource_init =
     \<lparr>us_descriptor = UniqueFd_default, us_decoder = UartFrameDecoder_init,
      us_sample = SensorSample_default, us_sequence = 0, us_error_number = 0\<rparr>"

definition uart_construct ::
    "uart_os \<Rightarrow> string \<Rightarrow> int \<Rightarrow> fd_table \<Rightarrow> UartSensorSource \<times> fd_table" where
  "uart_construct os device_path baud_rate t =
     (let src = UartSensorSource_init; speed = baud_constant baud_rate in
      if speed = 0 then (src\<lparr>us_error_number := EINVAL\<rparr>, t)
      else
        let (answer, errno) = uo_open os device_path;
            (d, t) = open_fd answer t;
            candidate = UniqueFd_of d in
        if \<not> fd_valid candidate then (src\<lparr>us_error_number := errno\<rparr>, fd_destroy candidate t)
        else case uo_tcgetattr os d of
          Inl errno \<Rightarrow> (src\<lparr>us_error_number := errno\<rparr>, fd_destroy candidate t)
        | Inr settings \<Rightarrow>
            (case uo_tcsetattr os d (uart_settings os speed settings) of
               Some errno \<Rightarrow> (src\<lparr>us_error_number := errno\<rparr>, fd_destroy candidate t)
             | None \<Rightarrow>
                 let (descriptor, candidate, t) = fd_move_assign (us_descriptor src) candidate t
                 in (src\<lparr>us_descriptor := descriptor, us_sample := (us_sample src)\<lparr>SensorSample.online := True\<rparr>\<rparr>,
                     fd_destroy candidate t)))"

text \<open>The body of the loop over the received bytes: the decoder, the sample, whether a frame arrived.\<close>

definition uart_consume ::
    "UartFrameDecoder \<times> SensorSample \<times> bool \<Rightarrow> byte \<Rightarrow> UartFrameDecoder \<times> SensorSample \<times> bool" where
  "uart_consume st b =
     (let (decoder, v, received) = st; (frame, decoder) = feed decoder b in
      case frame of
        None \<Rightarrow> (decoder, v, received)
      | Some f \<Rightarrow>
          (let measurement = decode_uart_measurement f;
               v = apply_measurement v measurement;
               v = (if me_kind measurement \<noteq> MeasurementKind.online then v\<lparr>SensorSample.online := True\<rparr> else v)
           in (decoder, v, True)))"

text \<open>At most 128 bytes are read at a time.\<close>

definition uart_read :: "byte list input \<Rightarrow> UartSensorSource \<Rightarrow> SensorSample \<times> UartSensorSource" where
  "uart_read inp src =
     (let src = src\<lparr>us_sequence := us_sequence src + 1\<rparr>;
          (src, received) =
            (if fd_valid (us_descriptor src)
             then case inp of
                 NoInput \<Rightarrow> (src, False)
               | Data bytes \<Rightarrow>
                   (let (decoder, v, received) =
                          foldl uart_consume (us_decoder src, us_sample src, False) (take 128 bytes)
                    in (src\<lparr>us_decoder := decoder, us_sample := v\<rparr>, received))
               | ReadError errno \<Rightarrow>
                   (if errno \<noteq> EAGAIN \<and> errno \<noteq> EINTR then src\<lparr>us_error_number := errno\<rparr> else src, False)
             else (src, False));
          v = us_sample src;
          v = (if \<not> received then v\<lparr>SensorSample.online := False\<rparr> else v);
          v = v\<lparr>sequence := us_sequence src\<rparr>
      in (v, src\<lparr>us_sample := v\<rparr>))"

definition uart_valid :: "UartSensorSource \<Rightarrow> bool" where
  "uart_valid src = fd_valid (us_descriptor src)"

definition uart_error_number :: "UartSensorSource \<Rightarrow> int" where
  "uart_error_number src = us_error_number src"

section \<open>Model: SocketCAN\<close>

text \<open>The kernel's answers: \<open>socket\<close>, the interface index, and \<open>bind\<close> (an error number if it fails).\<close>

record can_os =
  co_socket :: "int \<times> int"
  co_ifindex :: "int \<Rightarrow> string \<Rightarrow> int + int"
  co_bind :: "int \<Rightarrow> int \<Rightarrow> int option"

record SocketCanSensorSource =
  cs_descriptor :: UniqueFd
  cs_sample :: SensorSample
  cs_sequence :: uint64
  cs_error_number :: int

definition SocketCanSensorSource_init :: SocketCanSensorSource where
  "SocketCanSensorSource_init =
     \<lparr>cs_descriptor = UniqueFd_default, cs_sample = SensorSample_default, cs_sequence = 0,
      cs_error_number = 0\<rparr>"

definition IFNAMSIZ :: nat where
  "IFNAMSIZ = 16"

definition can_construct ::
    "can_os \<Rightarrow> string \<Rightarrow> fd_table \<Rightarrow> SocketCanSensorSource \<times> fd_table" where
  "can_construct os interface_name t =
     (let src = SocketCanSensorSource_init in
      if interface_name = [] \<or> IFNAMSIZ \<le> length interface_name
      then (src\<lparr>cs_error_number := EINVAL\<rparr>, t)
      else
        let (answer, errno) = co_socket os;
            (d, t) = open_fd answer t;
            candidate = UniqueFd_of d in
        if \<not> fd_valid candidate then (src\<lparr>cs_error_number := errno\<rparr>, fd_destroy candidate t)
        else case co_ifindex os d interface_name of
          Inl errno \<Rightarrow> (src\<lparr>cs_error_number := errno\<rparr>, fd_destroy candidate t)
        | Inr ifindex \<Rightarrow>
            (case co_bind os d ifindex of
               Some errno \<Rightarrow> (src\<lparr>cs_error_number := errno\<rparr>, fd_destroy candidate t)
             | None \<Rightarrow>
                 let (descriptor, candidate, t) = fd_move_assign (cs_descriptor src) candidate t
                 in (src\<lparr>cs_descriptor := descriptor, cs_sample := (cs_sample src)\<lparr>SensorSample.online := True\<rparr>\<rparr>,
                     fd_destroy candidate t)))"

text \<open>A frame as the kernel delivers it; \<open>None\<close> stands for a read of another length.\<close>

record can_frame =
  cf_can_id :: uint32
  cf_can_dlc :: uint8
  cf_data :: "byte list"

definition CAN_EFF_MASK :: uint32 where
  "CAN_EFF_MASK = 0x1FFFFFFF"

definition can_message_of :: "can_frame \<Rightarrow> CanMessage" where
  "can_message_of frame =
     \<lparr>cm_id = cf_can_id frame AND CAN_EFF_MASK, cm_length = cf_can_dlc frame, cm_data = cf_data frame\<rparr>"

definition can_read ::
    "can_frame option input \<Rightarrow> SocketCanSensorSource \<Rightarrow> SensorSample \<times> SocketCanSensorSource" where
  "can_read inp src =
     (let src = src\<lparr>cs_sequence := cs_sequence src + 1\<rparr>;
          (src, received) =
            (if fd_valid (cs_descriptor src)
             then case inp of
                 NoInput \<Rightarrow> (src, False)
               | Data None \<Rightarrow> (src, False)
               | Data (Some frame) \<Rightarrow>
                   (case decode_can_message (can_message_of frame) of
                      None \<Rightarrow> (src, False)
                    | Some measurement \<Rightarrow>
                        (let v = apply_measurement (cs_sample src) measurement;
                             v = (if me_kind measurement \<noteq> MeasurementKind.online
                                  then v\<lparr>SensorSample.online := True\<rparr> else v)
                         in (src\<lparr>cs_sample := v\<rparr>, True)))
               | ReadError errno \<Rightarrow>
                   (if errno \<noteq> EAGAIN \<and> errno \<noteq> EINTR then src\<lparr>cs_error_number := errno\<rparr> else src, False)
             else (src, False));
          v = cs_sample src;
          v = (if \<not> received then v\<lparr>SensorSample.online := False\<rparr> else v);
          v = v\<lparr>sequence := cs_sequence src\<rparr>
      in (v, src\<lparr>cs_sample := v\<rparr>))"

definition can_valid :: "SocketCanSensorSource \<Rightarrow> bool" where
  "can_valid src = fd_valid (cs_descriptor src)"

definition can_error_number :: "SocketCanSensorSource \<Rightarrow> int" where
  "can_error_number src = cs_error_number src"

section \<open>Model: I2C\<close>

record LinuxI2cBus =
  lb_descriptor :: UniqueFd
  lb_device_address :: uint16
  lb_error_number :: int

definition i2c_bus_construct ::
    "(string \<Rightarrow> int \<times> int) \<Rightarrow> string \<Rightarrow> uint16 \<Rightarrow> fd_table \<Rightarrow> LinuxI2cBus \<times> fd_table" where
  "i2c_bus_construct open_device device_path device_address t =
     (let bus = \<lparr>lb_descriptor = UniqueFd_default, lb_device_address = device_address,
                 lb_error_number = 0\<rparr> in
      if 0x7F < device_address then (bus\<lparr>lb_error_number := EINVAL\<rparr>, t)
      else
        let (answer, errno) = open_device device_path;
            (d, t) = open_fd answer t;
            (descriptor, t) = fd_reset (lb_descriptor bus) d t;
            bus = bus\<lparr>lb_descriptor := descriptor\<rparr>
        in (if \<not> fd_valid descriptor then bus\<lparr>lb_error_number := errno\<rparr> else bus, t))"

record i2c_msg =
  im_addr :: uint16
  im_flags :: uint16
  im_len :: uint16
  im_buf :: "byte list"

text \<open>A write of the register number followed by a read; \<open>I2C_M_RD\<close> is 1, the buffer starts as zeros.\<close>

definition i2c_messages :: "uint16 \<Rightarrow> uint8 \<Rightarrow> nat \<Rightarrow> i2c_msg list" where
  "i2c_messages device_address reg n =
     [\<lparr>im_addr = device_address, im_flags = 0, im_len = 1, im_buf = [reg]\<rparr>,
      \<lparr>im_addr = device_address, im_flags = 1, im_len = of_nat n, im_buf = replicate n 0\<rparr>]"

text \<open>
  The transaction \<open>I2C_RDWR\<close>: the kernel answers with the number of messages transferred, the error
  number and the bytes it has put into the buffer of the second message.
\<close>

type_synonym i2c_ioctl = "int \<Rightarrow> i2c_msg list \<Rightarrow> int \<times> int \<times> byte list"

definition i2c_read_register :: "i2c_ioctl \<Rightarrow> LinuxI2cBus bus" where
  "i2c_read_register ioctl bus reg n =
     (if \<not> fd_valid (lb_descriptor bus) \<or> n = 0 \<or> 65535 < n
      then (None, bus\<lparr>lb_error_number := EINVAL\<rparr>)
      else
        let (count, errno, bytes) =
              ioctl (u_descriptor (lb_descriptor bus)) (i2c_messages (lb_device_address bus) reg n)
        in if count \<noteq> 2 then (None, bus\<lparr>lb_error_number := errno\<rparr>) else (Some bytes, bus))"

definition bus_valid :: "LinuxI2cBus \<Rightarrow> bool" where
  "bus_valid bus = fd_valid (lb_descriptor bus)"

definition bus_error_number :: "LinuxI2cBus \<Rightarrow> int" where
  "bus_error_number bus = lb_error_number bus"

record I2cSensorSource =
  is_bus :: LinuxI2cBus
  is_reader :: I2cSensorReader

definition i2c_construct ::
    "(string \<Rightarrow> int \<times> int) \<Rightarrow> string \<Rightarrow> uint16 \<Rightarrow> fd_table \<Rightarrow> I2cSensorSource \<times> fd_table" where
  "i2c_construct open_device device_path device_address t =
     (let (bus, t) = i2c_bus_construct open_device device_path device_address t
      in (\<lparr>is_bus = bus, is_reader = I2cSensorReader_init\<rparr>, t))"

definition i2c_source_read :: "i2c_ioctl \<Rightarrow> I2cSensorSource \<Rightarrow> SensorSample \<times> I2cSensorSource" where
  "i2c_source_read ioctl src =
     (let (v, reader, bus) = i2c_read (i2c_read_register ioctl) (is_bus src) (is_reader src)
      in (v, \<lparr>is_bus = bus, is_reader = reader\<rparr>))"

definition i2c_valid :: "I2cSensorSource \<Rightarrow> bool" where
  "i2c_valid src = bus_valid (is_bus src)"

definition i2c_error_number :: "I2cSensorSource \<Rightarrow> int" where
  "i2c_error_number src = bus_error_number (is_bus src)"

section \<open>Specification\<close>

text \<open>What one frame does to the sample, and the readings of a sample.\<close>

definition uart_apply :: "SensorSample \<Rightarrow> UartFrame \<Rightarrow> SensorSample" where
  "uart_apply v f =
     (let v = apply_measurement v (decode_uart_measurement f)
      in if uf_kind f \<noteq> MeasurementKind.online then v\<lparr>SensorSample.online := True\<rparr> else v)"

definition readings :: "SensorSample \<Rightarrow> double \<times> double \<times> double" where
  "readings v = (temperature_c v, vibration_mm_s v, current_a v)"

text \<open>When a read brings no measurement.\<close>

definition uart_silent :: "byte list input \<Rightarrow> UartSensorSource \<Rightarrow> bool" where
  "uart_silent inp src \<longleftrightarrow>
     (case inp of
        Data bytes \<Rightarrow> fd_valid (us_descriptor src) \<longrightarrow> fst (feed_all (us_decoder src) (take 128 bytes)) = []
      | _ \<Rightarrow> True)"

definition can_silent :: "can_frame option input \<Rightarrow> SocketCanSensorSource \<Rightarrow> bool" where
  "can_silent inp src \<longleftrightarrow>
     (case inp of
        Data (Some frame) \<Rightarrow>
          fd_valid (cs_descriptor src) \<longrightarrow> decode_can_message (can_message_of frame) = None
      | _ \<Rightarrow> True)"

definition i2c_silent :: "i2c_ioctl \<Rightarrow> I2cSensorSource \<Rightarrow> bool" where
  "i2c_silent ioctl src \<longleftrightarrow>
     fst (i2c_registers (i2c_read_register ioctl) (is_bus src)) = None"

section \<open>Reading\<close>

lemma decode_kind [simp]: "me_kind (decode_uart_measurement f) = uf_kind f"
  by (simp add: decode_uart_measurement_def)

lemma uart_consume_bytes:
  "foldl uart_consume (d, v, received) bs =
     (let (fs, d') = feed_all d bs in (d', foldl uart_apply v fs, received \<or> fs \<noteq> []))"
proof (induction bs arbitrary: d v received)
  case (Cons b bs)
  obtain f d1 where f: "feed d b = (f, d1)" by (cases "feed d b")
  show ?case
  proof (cases f)
    case None
    then show ?thesis
      using Cons f by (simp add: uart_consume_def split: prod.split)
  next
    case (Some g)
    then have "uart_consume (d, v, received) b = (d1, uart_apply v g, True)"
      using f by (simp add: uart_consume_def uart_apply_def Let_def)
    then show ?thesis using Cons f Some by (simp add: Let_def split: prod.split)
  qed
qed simp

text \<open>The four effects of a read of the UART.\<close>

lemma uart_read_bytes:
  assumes "fd_valid (us_descriptor src)" and "feed_all (us_decoder src) (take 128 bs) = (fs, d)"
  shows "us_decoder (snd (uart_read (Data bs) src)) = d"
    and "fst (uart_read (Data bs) src) =
      (foldl uart_apply (us_sample src) fs)\<lparr>sequence := us_sequence src + 1,
        SensorSample.online := (fs \<noteq> [] \<and> SensorSample.online (foldl uart_apply (us_sample src) fs))\<rparr>"
    and "us_descriptor (snd (uart_read (Data bs) src)) = us_descriptor src"
  using assms by (auto simp: uart_read_def uart_consume_bytes Let_def)

lemma uart_read_sample: "us_sample (snd (uart_read inp src)) = fst (uart_read inp src)"
  by (simp add: uart_read_def Let_def case_prod_beta)

lemma uart_read_number:
  "sequence (fst (uart_read inp src)) = us_sequence src + 1"
  "us_sequence (snd (uart_read inp src)) = us_sequence src + 1"
  by (auto simp: uart_read_def Let_def split: prod.split input.split)

interpretation uart_source: monitored_source uart_read us_sequence uart_silent
proof (unfold_locales, goal_cases)
  case (3 inp src)
  then show ?case
    by (cases inp) (auto simp: uart_read_def uart_silent_def uart_consume_bytes Let_def split: prod.splits)
qed (simp_all add: uart_read_number)

lemma can_read_number:
  "sequence (fst (can_read inp src)) = cs_sequence src + 1"
  "cs_sequence (snd (can_read inp src)) = cs_sequence src + 1"
  by (auto simp: can_read_def Let_def split: prod.split input.split option.split)

interpretation can_source: monitored_source can_read cs_sequence can_silent
proof (unfold_locales, goal_cases)
  case (3 inp src)
  then show ?case
    by (auto simp: can_read_def can_silent_def Let_def split: prod.splits input.splits option.splits)
qed (simp_all add: can_read_number)

text \<open>A message with a temperature sets that field and marks the sample online.\<close>

lemma can_read_temperature:
  assumes "can_valid src" and "can_message_of frame = can_value_message kCanTemperatureId v"
  shows "SensorSample.online (fst (can_read (Data (Some frame)) src))"
    and "temperature_c (fst (can_read (Data (Some frame)) src)) = ddiv (double_of_int (sint v)) (dlit 1000)"
    and "can_valid (snd (can_read (Data (Some frame)) src))"
proof -
  have "decode_can_message (can_message_of frame) =
      Some \<lparr>me_kind = MeasurementKind.temperature, me_value = ddiv (double_of_int (sint v)) (dlit 1000)\<rparr>"
    by (simp add: assms(2) decode_can_message_def can_value_message_def kCanTemperatureId_def
        kCanOnlineId_def byte_simps)
  then show "SensorSample.online (fst (can_read (Data (Some frame)) src))"
    and "temperature_c (fst (can_read (Data (Some frame)) src)) = ddiv (double_of_int (sint v)) (dlit 1000)"
    and "can_valid (snd (can_read (Data (Some frame)) src))"
    using assms(1) by (simp_all add: can_read_def can_valid_def apply_measurement_def Let_def)
qed

lemma i2c_source_number:
  "sequence (fst (i2c_source_read ioctl src)) = i_sequence (is_reader src) + 1"
  "i_sequence (is_reader (snd (i2c_source_read ioctl src))) = i_sequence (is_reader src) + 1"
  by (auto simp: i2c_source_read_def i2c_read_def Let_def split: prod.split option.split)

interpretation i2c_source: monitored_source i2c_source_read "\<lambda>src. i_sequence (is_reader src)" i2c_silent
proof (unfold_locales, goal_cases)
  case (3 ioctl src)
  then show ?case
    by (auto simp: i2c_source_read_def i2c_silent_def i2c_read_def Let_def split: prod.splits option.splits)
qed (simp_all add: i2c_source_number)

text \<open>Only the readings of a sample matter for the readings that a frame leaves.\<close>

lemma readings_apply:
  assumes "readings v = readings w"
  shows "readings (uart_apply v f) = readings (uart_apply w f)"
  using assms
  by (cases "uf_kind f") (simp_all add: readings_def uart_apply_def apply_measurement_def Let_def)

lemma readings_apply_all:
  "readings v = readings w \<Longrightarrow> readings (foldl uart_apply v fs) = readings (foldl uart_apply w fs)"
proof (induction fs arbitrary: v w)
  case (Cons f fs)
  show ?case unfolding foldl_Cons by (rule Cons.IH [OF readings_apply [OF Cons.prems]])
qed simp

lemma readings_simps [simp]:
  "readings (v\<lparr>sequence := n\<rparr>) = readings v" "readings (v\<lparr>SensorSample.online := b\<rparr>) = readings v"
  by (simp_all add: readings_def)

text \<open>However the bytes are split into reads, the decoder and the readings end up the same.\<close>

lemma uart_chunks:
  assumes "fd_valid (us_descriptor src)" and "\<forall>c \<in> set cs. length c \<le> 128"
    and "feed_all (us_decoder src) (concat cs) = (fs, d)"
  shows "let src' = snd (source_reads uart_read (map Data cs) src) in
    us_decoder src' = d \<and> readings (us_sample src') = readings (foldl uart_apply (us_sample src) fs)"
  using assms
proof (induction cs arbitrary: src fs)
  case (Cons c cs)
  let ?src = "snd (uart_read (Data c) src)"
  obtain fs1 d1 where 1: "feed_all (us_decoder src) c = (fs1, d1)" by (cases "feed_all (us_decoder src) c")
  obtain fs2 where 2: "feed_all d1 (concat cs) = (fs2, d)" "fs = fs1 @ fs2"
    using Cons.prems(3) 1 by (auto simp: feed_all_append split: prod.splits)
  have "take 128 c = c" using Cons.prems(2) by simp
  then have r: "us_decoder ?src = d1" "readings (us_sample ?src) = readings (foldl uart_apply (us_sample src) fs1)"
    "fd_valid (us_descriptor ?src)"
    using uart_read_bytes [OF Cons.prems(1), of c fs1 d1] 1 Cons.prems(1) by (simp_all add: uart_read_sample)
  have "readings (foldl uart_apply (us_sample ?src) fs2) = readings (foldl uart_apply (us_sample src) fs)"
    using readings_apply_all [OF r(2), of fs2] 2(2) by simp
  then show ?case
    using Cons.IH [of ?src fs2] Cons.prems(2) r 2(1)
    by (simp add: source_reads_Cons Let_def del: source_reads.simps(2))
qed simp

section \<open>Descriptors\<close>

lemma uart_construct_owned:
  assumes own: "fds_owned others held t" and c: "uart_construct os path rate t = (src, t')"
  shows "fds_owned others (held + held_fd (us_descriptor src)) t'"
proof (cases "baud_constant rate = 0")
  case True
  then show ?thesis using assms by (auto simp: uart_construct_def UartSensorSource_init_def Let_def)
next
  case False
  obtain answer errno where o: "uo_open os path = (answer, errno)" by (cases "uo_open os path")
  obtain d t1 where d: "open_fd answer t = (d, t1)" by (cases "open_fd answer t")
  obtain desc cand t2 where m: "fd_move_assign UniqueFd_default (UniqueFd_of d) t1 = (desc, cand, t2)"
    by (cases "fd_move_assign UniqueFd_default (UniqueFd_of d) t1") auto
  note own1 = open_owned [OF own d]
  show ?thesis
    using c False o d m own1 destroy_owned [OF own1] adopt_candidate [OF m]
    by (auto simp: uart_construct_def UartSensorSource_init_def Let_def split: if_splits sum.splits option.splits)
qed

lemma can_construct_owned:
  assumes own: "fds_owned others held t" and c: "can_construct os name t = (src, t')"
  shows "fds_owned others (held + held_fd (cs_descriptor src)) t'"
proof (cases "name = [] \<or> IFNAMSIZ \<le> length name")
  case True
  then show ?thesis using assms by (auto simp: can_construct_def SocketCanSensorSource_init_def Let_def)
next
  case False
  obtain answer errno where o: "co_socket os = (answer, errno)" by (cases "co_socket os")
  obtain d t1 where d: "open_fd answer t = (d, t1)" by (cases "open_fd answer t")
  obtain desc cand t2 where m: "fd_move_assign UniqueFd_default (UniqueFd_of d) t1 = (desc, cand, t2)"
    by (cases "fd_move_assign UniqueFd_default (UniqueFd_of d) t1") auto
  note own1 = open_owned [OF own d]
  show ?thesis
    using c False o d m own1 destroy_owned [OF own1] adopt_candidate [OF m]
    by (auto simp: can_construct_def SocketCanSensorSource_init_def Let_def split: if_splits sum.splits option.splits)
qed

lemma i2c_construct_owned:
  assumes own: "fds_owned others held t" and c: "i2c_construct op path addr t = (src, t')"
  shows "fds_owned others (held + held_fd (lb_descriptor (is_bus src))) t'"
proof (cases "0x7F < addr")
  case True
  then show ?thesis using assms by (auto simp: i2c_construct_def i2c_bus_construct_def Let_def)
next
  case False
  obtain answer errno where o: "op path = (answer, errno)" by (cases "op path")
  obtain d t1 where d: "open_fd answer t = (d, t1)" by (cases "open_fd answer t")
  have r: "fd_reset UniqueFd_default d t1 = (UniqueFd_of d, t1)"
    by (simp add: fd_reset_def UniqueFd_default_def UniqueFd_of_def)
  show ?thesis
    using c False o d r open_owned [OF own d]
    by (auto simp: i2c_construct_def i2c_bus_construct_def Let_def split: if_splits)
qed

section \<open>Properties\<close>

text \<open>
  C37. Constructing a sensor source never leaks a descriptor, whichever system call fails: afterwards
  the descriptors of the process are those it had before and the one the source holds, if it is valid;
  nothing was closed twice.
\<close>

theorem constructors_do_not_leak:
  assumes "fds_owned others held t"
  shows "(\<forall>src t'. uart_construct uart_sys path rate t = (src, t') \<longrightarrow>
      fds_owned others (held + held_fd (us_descriptor src)) t') \<and>
    (\<forall>src t'. can_construct can_sys name t = (src, t') \<longrightarrow>
      fds_owned others (held + held_fd (cs_descriptor src)) t') \<and>
    (\<forall>src t'. i2c_construct open_device device addr t = (src, t') \<longrightarrow>
      fds_owned others (held + held_fd (lb_descriptor (is_bus src))) t')"
  using uart_construct_owned [OF assms] can_construct_owned [OF assms] i2c_construct_owned [OF assms]
  by (intro conjI allI impI)

text \<open>A serial line that opens as descriptor 3 and cannot be configured.\<close>

theorem constructors_do_not_leak_witness:
  "let os = \<lparr>uo_open = (\<lambda>_. (3, 0)), uo_tcgetattr = (\<lambda>_. Inl 25), uo_tcsetattr = (\<lambda>_ _. None),
             uo_cfmakeraw = id, uo_cfsetispeed = (\<lambda>_. id), uo_cfsetospeed = (\<lambda>_. id)\<rparr>;
       (src, t) = uart_construct os ''/dev/ttyS0'' 9600 \<lparr>ft_open = {0, 1, 2}, ft_bad_closes = 0\<rparr>
   in us_error_number src = 25 \<and> \<not> uart_valid src \<and> fds_owned {0, 1, 2} {#} t"
proof -
  let ?os = "\<lparr>uo_open = (\<lambda>_. (3, 0)), uo_tcgetattr = (\<lambda>_. Inl 25), uo_tcsetattr = (\<lambda>_ _. None),
             uo_cfmakeraw = id, uo_cfsetispeed = (\<lambda>_. id), uo_cfsetospeed = (\<lambda>_. id)\<rparr>"
  let ?t = "\<lparr>ft_open = {0, 1, 2}, ft_bad_closes = 0\<rparr>"
  obtain src t where c: "uart_construct ?os ''/dev/ttyS0'' 9600 ?t = (src, t)"
    by (cases "uart_construct ?os ''/dev/ttyS0'' 9600 ?t")
  have "fds_owned {0, 1, 2} {#} ?t" by (simp add: fds_owned_def)
  from constructors_do_not_leak [OF this] c
  have "fds_owned {0, 1, 2} (held_fd (us_descriptor src)) t" by fastforce
  moreover have "us_descriptor src = UniqueFd_default" "us_error_number src = 25"
    using c by (auto simp: uart_construct_def baud_constant_def open_fd_def UniqueFd_of_def fd_valid_def
        UartSensorSource_init_def Let_def)
  ultimately show ?thesis
    unfolding c Let_def by (simp add: uart_valid_def fd_valid_def UniqueFd_default_def [symmetric])
      (simp add: UniqueFd_default_def)
qed

text \<open>
  C38. Nothing depends on how the serial line splits the stream: if frames with arbitrary bytes between
  them that do not contain the magic number arrive in pieces of at most 128 bytes, then after the last
  read the readings are those that the frames leave when applied one after the other, and no error was
  counted.
\<close>

theorem uart_frames_reach_sample:
  assumes "uart_valid src" and "us_decoder src = UartFrameDecoder_init"
    and "length gs = length fs" and "\<forall>g \<in> set gs. no_magic g"
    and "concat cs = weave gs fs" and "\<forall>c \<in> set cs. length c \<le> 128"
  shows "let src' = snd (source_reads uart_read (map Data cs) src) in
    readings (us_sample src') = readings (foldl uart_apply (us_sample src) fs) \<and>
    d_crc_errors (us_decoder src') = 0 \<and> d_format_errors (us_decoder src') = 0"
proof -
  have init: "between_frames UartFrameDecoder_init" "d_position UartFrameDecoder_init = 0"
    "d_crc_errors UartFrameDecoder_init = 0" "d_format_errors UartFrameDecoder_init = 0"
    by (simp_all add: between_frames_def UartFrameDecoder_init_def kUartFrameSize_def)
  obtain d where d: "feed_all (us_decoder src) (concat cs) = (fs, d)" "d_crc_errors d = 0" "d_format_errors d = 0"
    using feed_weave [OF assms(3,4) init(1,2)] init(3,4) assms(2,5) by auto
  show ?thesis
    using uart_chunks [OF _ assms(6) d(1)] assms(1) d(2,3) by (simp add: uart_valid_def Let_def)
qed

theorem uart_frames_reach_sample_witness:
  "let src = UartSensorSource_init\<lparr>us_descriptor := UniqueFd_of 3\<rparr>;
       bytes = encode_uart_frame magic_frame;
       src' = snd (source_reads uart_read [Data (take 5 bytes), Data (drop 5 bytes)] src)
   in readings (us_sample src') = readings (uart_apply SensorSample_default magic_frame)"
proof -
  let ?src = "UartSensorSource_init\<lparr>us_descriptor := UniqueFd_of 3\<rparr>"
  let ?cs = "[take 5 (encode_uart_frame magic_frame), drop 5 (encode_uart_frame magic_frame)]"
  have "let src' = snd (source_reads uart_read (map Data ?cs) ?src) in
    readings (us_sample src') = readings (foldl uart_apply (us_sample ?src) [magic_frame]) \<and>
    d_crc_errors (us_decoder src') = 0 \<and> d_format_errors (us_decoder src') = 0"
    by (rule uart_frames_reach_sample [of _ "[[]]"])
       (simp_all add: uart_valid_def fd_valid_def UniqueFd_of_def UartSensorSource_init_def)
  then show ?thesis by (simp add: Let_def UartSensorSource_init_def)
qed

text \<open>
  A remote request for the temperature carries no data, but the source does not look at the flag that
  marks it: it takes the request for a measurement of zero degrees.
\<close>

lemma remote_request_read_as_zero:
  assumes "can_valid src"
  shows "let frame = \<lparr>cf_can_id = 0x40000000 OR kCanTemperatureId, cf_can_dlc = 4, cf_data = replicate 8 0\<rparr>;
      v = fst (can_read (Data (Some frame)) src)
    in SensorSample.online v \<and> temperature_c v = ddiv (double_of_int 0) (dlit 1000)"
  using assms
  by (simp add: can_read_def can_valid_def can_message_of_def decode_can_message_def CAN_EFF_MASK_def
      kCanTemperatureId_def kCanOnlineId_def join32_def apply_measurement_def Let_def)

end
