(* ===== verification/Object_Pool.thy ===== *)
theory Object_Pool
  imports Prelude "HOL-Library.Multiset"
begin

text \<open>
  The fixed-capacity object pool of \<open>include/edge_sentinel/memory/fixed_object_pool.hpp\<close>: an array of
  slots, a free list threaded through the free slots, and move-only handles that own an object and
  return its slot. Every method of the pool runs under its mutex and is one function on the pool
  record. A pointer is a number, \<open>0\<close> is \<open>nullptr\<close>, and the object of slot \<open>i\<close> is at
  \<open>base + i * stride\<close>, where \<open>base\<close> is the address of the slot array and \<open>stride\<close> the size of a slot.
\<close>

section \<open>Model of the pool\<close>

datatype PoolReleaseResult = released | foreign_pointer | double_release

record PoolStats =
  ps_capacity :: nat
  ps_in_use :: nat
  ps_high_watermark :: nat
  ps_successful_allocations :: size_t
  ps_successful_releases :: size_t
  ps_allocation_failures :: size_t
  ps_invalid_releases :: size_t

definition PoolStats_default :: PoolStats where
  "PoolStats_default =
     \<lparr>ps_capacity = 0, ps_in_use = 0, ps_high_watermark = 0, ps_successful_allocations = 0,
      ps_successful_releases = 0, ps_allocation_failures = 0, ps_invalid_releases = 0\<rparr>"

text \<open>The storage of a slot holds a living object between construction and destruction.\<close>

record 'a Slot =
  sl_storage :: "'a option"
  sl_next :: nat
  sl_occupied :: bool

record 'a FixedObjectPool =
  p_slots :: "'a Slot list"
  p_free_head :: nat
  p_stats :: PoolStats
  p_base :: nat
  p_stride :: nat

abbreviation (input) kNoSlot :: "'a FixedObjectPool \<Rightarrow> nat" where
  "kNoSlot p \<equiv> length (p_slots p)"

type_synonym pointer = nat

abbreviation (input) nullptr :: pointer where
  "nullptr \<equiv> 0"

text \<open>The constructor: the loop links each slot to the next, then the last link is cut.\<close>

definition FixedObjectPool_init :: "nat \<Rightarrow> nat \<Rightarrow> nat \<Rightarrow> 'a FixedObjectPool" where
  "FixedObjectPool_init capacity base stride =
     (let slots = map (\<lambda>index. \<lparr>sl_storage = None, sl_next = index + 1, sl_occupied = False\<rparr>)
                    [0..<capacity];
          slots = slots[capacity - 1 := (slots ! (capacity - 1))\<lparr>sl_next := capacity\<rparr>]
      in \<lparr>p_slots = slots, p_free_head = 0, p_stats = PoolStats_default, p_base = base,
          p_stride = stride\<rparr>)"

text \<open>The address \<open>slots_[index].object()\<close>.\<close>

definition slot_object :: "'a FixedObjectPool \<Rightarrow> nat \<Rightarrow> pointer" where
  "slot_object p index = p_base p + index * p_stride p"

text \<open>The search loop of \<open>find_slot\<close>, from a given index on.\<close>

function find_slot_from :: "'a FixedObjectPool \<Rightarrow> pointer \<Rightarrow> nat \<Rightarrow> nat" where
  "find_slot_from p obj index =
     (if index < length (p_slots p)
      then if slot_object p index = obj then index else find_slot_from p obj (index + 1)
      else kNoSlot p)"
  by pat_completeness auto
termination
  by (relation "measure (\<lambda>(p, obj, index). length (p_slots p) - index)") auto

definition find_slot :: "'a FixedObjectPool \<Rightarrow> pointer \<Rightarrow> nat" where
  "find_slot p obj = (if obj = nullptr then kNoSlot p else find_slot_from p obj 0)"

text \<open>A handle is bound to the pool or to none.\<close>

record Handle =
  h_pool :: bool
  h_object :: pointer

definition Handle_empty :: Handle where
  "Handle_empty = \<lparr>h_pool = False, h_object = nullptr\<rparr>"

text \<open>
  \<open>try_create\<close>: the argument is the object the constructor builds, or \<open>None\<close> if the constructor
  throws; the result is the handle, or \<open>None\<close> if the exception leaves the call.
\<close>

definition try_create ::
    "'a FixedObjectPool \<Rightarrow> 'a option \<Rightarrow> Handle option \<times> 'a FixedObjectPool" where
  "try_create p arguments =
     (if p_free_head p = kNoSlot p
      then (Some Handle_empty, p\<lparr>p_stats := (p_stats p)
              \<lparr>ps_allocation_failures := ps_allocation_failures (p_stats p) + 1\<rparr>\<rparr>)
      else (case arguments of
        None \<Rightarrow> (None, p)
      | Some v \<Rightarrow>
         (let index = p_free_head p;
              slot = (p_slots p ! index)\<lparr>sl_storage := Some v\<rparr>;
              object = slot_object p index;
              p = p\<lparr>p_free_head := sl_next slot\<rparr>;
              slot = slot\<lparr>sl_next := kNoSlot p\<rparr>;
              slot = slot\<lparr>sl_occupied := True\<rparr>;
              p = p\<lparr>p_slots := (p_slots p)[index := slot]\<rparr>;
              st = (p_stats p)\<lparr>ps_in_use := ps_in_use (p_stats p) + 1\<rparr>;
              st = st\<lparr>ps_successful_allocations := ps_successful_allocations st + 1\<rparr>;
              st = (if ps_high_watermark st < ps_in_use st
                    then st\<lparr>ps_high_watermark := ps_in_use st\<rparr> else st)
          in (Some \<lparr>h_pool = True, h_object = object\<rparr>, p\<lparr>p_stats := st\<rparr>))))"

definition destroy ::
    "'a FixedObjectPool \<Rightarrow> pointer \<Rightarrow> PoolReleaseResult \<times> 'a FixedObjectPool" where
  "destroy p obj =
     (let index = find_slot p obj in
      if index = kNoSlot p
      then (PoolReleaseResult.foreign_pointer, p\<lparr>p_stats := (p_stats p)
              \<lparr>ps_invalid_releases := ps_invalid_releases (p_stats p) + 1\<rparr>\<rparr>)
      else let slot = p_slots p ! index in
        if \<not> sl_occupied slot
        then (PoolReleaseResult.double_release, p\<lparr>p_stats := (p_stats p)
                \<lparr>ps_invalid_releases := ps_invalid_releases (p_stats p) + 1\<rparr>\<rparr>)
        else
          let slot = slot\<lparr>sl_storage := None\<rparr>;
              slot = slot\<lparr>sl_occupied := False\<rparr>;
              slot = slot\<lparr>sl_next := p_free_head p\<rparr>;
              p = p\<lparr>p_slots := (p_slots p)[index := slot]\<rparr>;
              p = p\<lparr>p_free_head := index\<rparr>;
              st = (p_stats p)\<lparr>ps_in_use := ps_in_use (p_stats p) - 1\<rparr>;
              st = st\<lparr>ps_successful_releases := ps_successful_releases st + 1\<rparr>
          in (PoolReleaseResult.released, p\<lparr>p_stats := st\<rparr>))"

definition pool_stats :: "'a FixedObjectPool \<Rightarrow> PoolStats" where
  "pool_stats p = (p_stats p)\<lparr>ps_capacity := length (p_slots p)\<rparr>"

definition outstanding :: "'a FixedObjectPool \<Rightarrow> nat" where
  "outstanding p = ps_in_use (pool_stats p)"

text \<open>The destructor ends the lifetime of the objects in occupied slots.\<close>

definition FixedObjectPool_destruct :: "'a FixedObjectPool \<Rightarrow> 'a FixedObjectPool" where
  "FixedObjectPool_destruct p =
     p\<lparr>p_slots := map (\<lambda>slot. if sl_occupied slot then slot\<lparr>sl_storage := None\<rparr> else slot)
                   (p_slots p)\<rparr>"

text \<open>The address and the pool after a creation whose constructor does not throw.\<close>

definition create_object :: "'a FixedObjectPool \<Rightarrow> 'a \<Rightarrow> pointer \<times> 'a FixedObjectPool" where
  "create_object p v =
     (case try_create p (Some v) of
        (Some h, p') \<Rightarrow> (h_object h, p')
      | (None, p') \<Rightarrow> (nullptr, p'))"

text \<open>Any sequence of calls, with any constructor outcomes and any pointers.\<close>

datatype 'a pool_op = TryCreate "'a option" | Destroy pointer

fun pool_do :: "'a FixedObjectPool \<Rightarrow> 'a pool_op \<Rightarrow> 'a FixedObjectPool" where
  "pool_do p (TryCreate arguments) = snd (try_create p arguments)"
| "pool_do p (Destroy obj) = snd (destroy p obj)"

definition pool_run :: "'a FixedObjectPool \<Rightarrow> 'a pool_op list \<Rightarrow> 'a FixedObjectPool" where
  "pool_run p xs = foldl pool_do p xs"

section \<open>Model of the handles\<close>

text \<open>A program state: the pool, and its handle variables, addressed by index.\<close>

record 'a pool_state =
  s_pool :: "'a FixedObjectPool"
  s_handles :: "Handle list"

definition handle_reset :: "'a pool_state \<Rightarrow> nat \<Rightarrow> 'a pool_state" where
  "handle_reset s h =
     (let object = h_object (s_handles s ! h);
          pool = h_pool (s_handles s ! h);
          s = s\<lparr>s_handles := (s_handles s)[h := Handle_empty]\<rparr>
      in if object \<noteq> nullptr \<and> pool then s\<lparr>s_pool := snd (destroy (s_pool s) object)\<rparr> else s)"

text \<open>\<open>std::exchange\<close> on both members of the source, into the target.\<close>

definition handle_steal :: "'a pool_state \<Rightarrow> nat \<Rightarrow> nat \<Rightarrow> 'a pool_state" where
  "handle_steal s h other =
     (let stolen = s_handles s ! other
      in s\<lparr>s_handles := (s_handles s)[other := Handle_empty, h := stolen]\<rparr>)"

definition handle_move_assign :: "'a pool_state \<Rightarrow> nat \<Rightarrow> nat \<Rightarrow> 'a pool_state" where
  "handle_move_assign s h other =
     (if h \<noteq> other then handle_steal (handle_reset s h) h other else s)"

text \<open>The destructor, and what a handle says about its object.\<close>

definition handle_destroy :: "'a pool_state \<Rightarrow> nat \<Rightarrow> 'a pool_state" where
  "handle_destroy s h = handle_reset s h"

definition handle_get :: "Handle \<Rightarrow> pointer" where
  "handle_get h = h_object h"

definition handle_valid :: "Handle \<Rightarrow> bool" where
  "handle_valid h \<longleftrightarrow> h_object h \<noteq> nullptr"

definition handle_release :: "'a pool_state \<Rightarrow> nat \<Rightarrow> pointer \<times> 'a pool_state" where
  "handle_release s h =
     (h_object (s_handles s ! h), s\<lparr>s_handles := (s_handles s)[h := Handle_empty]\<rparr>)"

text \<open>
  The statement \<open>h = pool.try_create(...)\<close>: the new handle is a temporary, which the assignment
  moves from after resetting \<open>h\<close>; an exception leaves before the assignment.
\<close>

definition handle_create :: "'a pool_state \<Rightarrow> nat \<Rightarrow> 'a option \<Rightarrow> 'a pool_state" where
  "handle_create s h arguments =
     (case try_create (s_pool s) arguments of
        (None, p) \<Rightarrow> s\<lparr>s_pool := p\<rparr>
      | (Some tmp, p) \<Rightarrow>
         (let s = handle_reset (s\<lparr>s_pool := p\<rparr>) h in s\<lparr>s_handles := (s_handles s)[h := tmp]\<rparr>))"

text \<open>
  What a program that only uses handles does. A new handle variable starts empty or moves from
  another one; a variable that leaves its scope is reset and removed.
\<close>

datatype 'a handle_op =
    Declare
  | MoveConstruct nat
  | Create nat "'a option"
  | Reset nat
  | MoveAssign nat nat
  | LeaveScope

fun handle_do :: "'a pool_state \<Rightarrow> 'a handle_op \<Rightarrow> 'a pool_state" where
  "handle_do s Declare = s\<lparr>s_handles := s_handles s @ [Handle_empty]\<rparr>"
| "handle_do s (MoveConstruct other) =
     (if other < length (s_handles s)
      then handle_steal (s\<lparr>s_handles := s_handles s @ [Handle_empty]\<rparr>) (length (s_handles s)) other
      else s)"
| "handle_do s (Create h arguments) =
     (if h < length (s_handles s) then handle_create s h arguments else s)"
| "handle_do s (Reset h) = (if h < length (s_handles s) then handle_reset s h else s)"
| "handle_do s (MoveAssign h other) =
     (if h < length (s_handles s) \<and> other < length (s_handles s)
      then handle_move_assign s h other else s)"
| "handle_do s LeaveScope =
     (if s_handles s = [] then s
      else let s = handle_reset s (length (s_handles s) - 1)
           in s\<lparr>s_handles := butlast (s_handles s)\<rparr>)"

definition handle_run :: "'a pool_state \<Rightarrow> 'a handle_op list \<Rightarrow> 'a pool_state" where
  "handle_run s xs = foldl handle_do s xs"

section \<open>Invariant and abstraction\<close>

text \<open>The free list from a head on visits the given slots and ends.\<close>

fun free_chain :: "'a Slot list \<Rightarrow> nat \<Rightarrow> nat list \<Rightarrow> bool" where
  "free_chain slots head [] \<longleftrightarrow> head = length slots"
| "free_chain slots head (i # is) \<longleftrightarrow>
     head = i \<and> i < length slots \<and> free_chain slots (sl_next (slots ! i)) is"

text \<open>The free list visits every free slot once and nothing else.\<close>

definition free_list_ok :: "'a Slot list \<Rightarrow> nat \<Rightarrow> bool" where
  "free_list_ok slots head \<longleftrightarrow>
     (\<exists>free. free_chain slots head free \<and> distinct free \<and>
        set free = {i. i < length slots \<and> \<not> sl_occupied (slots ! i)})"

definition pool_inv :: "'a FixedObjectPool \<Rightarrow> bool" where
  "pool_inv p \<longleftrightarrow>
     0 < p_base p \<and> 0 < p_stride p \<and>
     (\<forall>i < length (p_slots p). sl_occupied (p_slots p ! i) = (sl_storage (p_slots p ! i) \<noteq> None)) \<and>
     free_list_ok (p_slots p) (p_free_head p) \<and>
     ps_in_use (p_stats p) = count_if sl_occupied (p_slots p) \<and>
     ps_in_use (p_stats p) \<le> ps_high_watermark (p_stats p) \<and>
     ps_high_watermark (p_stats p) \<le> length (p_slots p) \<and>
     ps_successful_allocations (p_stats p) - ps_successful_releases (p_stats p) =
       of_nat (ps_in_use (p_stats p))"

text \<open>The living objects by address.\<close>

definition live :: "'a FixedObjectPool \<Rightarrow> pointer \<Rightarrow> 'a option" where
  "live p obj =
     (let index = find_slot p obj
      in if index < length (p_slots p) then sl_storage (p_slots p ! index) else None)"

text \<open>
  \<open>operator*\<close> and \<open>operator->\<close>: the object of the handle. Where there is none, the behaviour is undefined.
\<close>

definition handle_deref :: "'a FixedObjectPool \<Rightarrow> Handle \<Rightarrow> 'a option" where
  "handle_deref p h = live p (handle_get h)"

lemma handle_deref_live [simp]: "handle_deref p h = live p (h_object h)"
  by (simp add: handle_deref_def handle_get_def)

text \<open>The addresses that non-empty handles hold.\<close>

definition held :: "Handle list \<Rightarrow> pointer multiset" where
  "held hs = mset (filter (\<lambda>a. a \<noteq> nullptr) (map h_object hs))"

definition held_one :: "Handle \<Rightarrow> pointer multiset" where
  "held_one h = (if h_object h = nullptr then {#} else {#h_object h#})"

text \<open>Every living object has exactly one owner among the given addresses.\<close>

definition owned_by :: "(pointer \<Rightarrow> 'a option) \<Rightarrow> pointer multiset \<Rightarrow> bool" where
  "owned_by l owners \<longleftrightarrow> finite (dom l) \<and> mset_set (dom l) = owners"

definition handles_inv :: "'a pool_state \<Rightarrow> bool" where
  "handles_inv s \<longleftrightarrow>
     pool_inv (s_pool s) \<and> owned_by (live (s_pool s)) (held (s_handles s)) \<and>
     (\<forall>h \<in> set (s_handles s). h_pool h = (h_object h \<noteq> nullptr)) \<and>
     ps_invalid_releases (p_stats (s_pool s)) = 0"

text \<open>A pool of two slots, for examples.\<close>

definition two_slots :: "nat FixedObjectPool" where
  "two_slots = FixedObjectPool_init 2 4096 16"

section \<open>Addresses\<close>

declare find_slot_from.simps [simp del]

lemma find_slot_from_le: "find_slot_from p obj index \<le> length (p_slots p)"
  by (induction p obj index rule: find_slot_from.induct) (subst find_slot_from.simps, auto)

lemma find_slot_from_found:
  "find_slot_from p obj index < length (p_slots p) \<Longrightarrow>
     slot_object p (find_slot_from p obj index) = obj"
  by (induction p obj index rule: find_slot_from.induct)
     (subst find_slot_from.simps, subst (asm) (2) find_slot_from.simps, auto split: if_splits)

lemma find_slot_from_skip:
  "index \<le> i \<Longrightarrow> i < length (p_slots p) \<Longrightarrow>
     (\<And>j. index \<le> j \<Longrightarrow> j < i \<Longrightarrow> slot_object p j \<noteq> obj) \<Longrightarrow>
     find_slot_from p obj index = find_slot_from p obj i"
proof (induction "i - index" arbitrary: index)
  case (Suc n)
  then have "find_slot_from p obj index = find_slot_from p obj (index + 1)"
    by (subst find_slot_from.simps) simp
  with Suc show ?case by simp
qed simp

lemma slot_object_inject: "0 < p_stride p \<Longrightarrow> slot_object p i = slot_object p j \<longleftrightarrow> i = j"
  by (simp add: slot_object_def)

lemma find_slot_object:
  assumes "0 < p_base p" and "0 < p_stride p" and "i < length (p_slots p)"
  shows "find_slot p (slot_object p i) = i"
proof -
  have "find_slot_from p (slot_object p i) 0 = find_slot_from p (slot_object p i) i"
    using assms by (intro find_slot_from_skip) (auto simp: slot_object_inject)
  also have "\<dots> = i" using assms by (subst find_slot_from.simps) simp
  finally show ?thesis using assms by (simp add: find_slot_def slot_object_def)
qed

lemma find_slot_le: "find_slot p obj \<le> length (p_slots p)"
  by (simp add: find_slot_def find_slot_from_le)

lemma find_slot_found:
  "find_slot p obj < length (p_slots p) \<Longrightarrow> slot_object p (find_slot p obj) = obj"
  by (auto simp: find_slot_def find_slot_from_found split: if_splits)

text \<open>The search depends only on the layout, not on the contents of the slots.\<close>

lemma find_slot_from_cong:
  assumes "length (p_slots p) = length (p_slots p')" and "p_base p = p_base p'"
    and "p_stride p = p_stride p'"
  shows "find_slot_from p obj index = find_slot_from p' obj index"
  using assms
proof (induction p obj index rule: find_slot_from.induct)
  case (1 p obj index)
  then show ?case
    by (subst find_slot_from.simps, subst (2) find_slot_from.simps) (simp add: slot_object_def)
qed

lemma find_slot_cong:
  "length (p_slots p) = length (p_slots p') \<Longrightarrow> p_base p = p_base p' \<Longrightarrow> p_stride p = p_stride p' \<Longrightarrow>
     find_slot p obj = find_slot p' obj"
  using find_slot_from_cong [of p p' obj 0] by (simp add: find_slot_def)

lemma pool_inv_layout: "pool_inv p \<Longrightarrow> 0 < p_base p" "pool_inv p \<Longrightarrow> 0 < p_stride p"
  by (auto simp: pool_inv_def)

lemma pool_inv_storage:
  "pool_inv p \<Longrightarrow> i < length (p_slots p) \<Longrightarrow>
     sl_occupied (p_slots p ! i) = (sl_storage (p_slots p ! i) \<noteq> None)"
  by (simp add: pool_inv_def)

lemma pool_inv_in_use: "pool_inv p \<Longrightarrow> ps_in_use (p_stats p) = count_if sl_occupied (p_slots p)"
  by (simp add: pool_inv_def)

lemma live_slot:
  "pool_inv p \<Longrightarrow> i < length (p_slots p) \<Longrightarrow> live p (slot_object p i) = sl_storage (p_slots p ! i)"
  by (simp add: live_def find_slot_object pool_inv_layout)

lemma dom_live:
  assumes "pool_inv p"
  shows "dom (live p) = slot_object p ` {i. i < length (p_slots p) \<and> sl_occupied (p_slots p ! i)}"
    (is "?l = ?r")
proof
  show "?l \<subseteq> ?r"
  proof
    fix a
    assume "a \<in> ?l"
    then have i: "find_slot p a < length (p_slots p)"
      and "sl_storage (p_slots p ! find_slot p a) \<noteq> None"
      by (auto simp: live_def Let_def split: if_splits)
    then show "a \<in> ?r"
      using find_slot_found [OF i] pool_inv_storage [OF assms i]
      by (intro image_eqI [of _ _ "find_slot p a"]) simp_all
  qed
  show "?r \<subseteq> ?l" using live_slot [OF assms] pool_inv_storage [OF assms] by auto
qed

lemma card_dom_live: "pool_inv p \<Longrightarrow> card (dom (live p)) = ps_in_use (p_stats p)"
proof -
  assume inv: "pool_inv p"
  have "inj_on (slot_object p) {i. i < length (p_slots p) \<and> sl_occupied (p_slots p ! i)}"
    using pool_inv_layout [OF inv] by (simp add: inj_on_def slot_object_inject)
  then show ?thesis
    using dom_live [OF inv] pool_inv_in_use [OF inv]
    by (simp add: card_image count_if_def length_filter_conv_card)
qed

lemma finite_dom_live: "pool_inv p \<Longrightarrow> finite (dom (live p))"
  using dom_live [of p] by simp

section \<open>The free list\<close>

lemma free_chain_frame:
  "free_chain slots head free \<Longrightarrow> i \<notin> set free \<Longrightarrow> free_chain (slots[i := x]) head free"
  by (induction free arbitrary: head) auto

lemma free_chain_end: "free_chain slots head free \<Longrightarrow> head = length slots \<longleftrightarrow> free = []"
  by (cases free) auto

lemma free_chain_upt:
  assumes "\<And>i. i < n \<Longrightarrow> sl_next (slots ! i) = Suc i" and "length slots = n"
  shows "k \<le> n \<Longrightarrow> free_chain slots k [k..<n]"
proof (induction "n - k" arbitrary: k)
  case 0
  then show ?case using assms(2) by simp
next
  case (Suc m)
  then have "[k..<n] = k # [Suc k..<n]" by (simp add: upt_conv_Cons)
  then show ?case using Suc assms by simp
qed

lemma pool_inv_free:
  assumes "pool_inv p"
  obtains free where "free_chain (p_slots p) (p_free_head p) free" "distinct free"
    "set free = {i. i < length (p_slots p) \<and> \<not> sl_occupied (p_slots p ! i)}"
  using assms unfolding pool_inv_def free_list_ok_def by blast

lemma pool_full_iff:
  assumes "pool_inv p"
  shows "p_free_head p = kNoSlot p \<longleftrightarrow> (\<forall>i < length (p_slots p). sl_occupied (p_slots p ! i))"
proof -
  obtain free where "free_chain (p_slots p) (p_free_head p) free" "distinct free"
    "set free = {i. i < length (p_slots p) \<and> \<not> sl_occupied (p_slots p ! i)}"
    by (rule pool_inv_free [OF assms])
  moreover have "free = [] \<longleftrightarrow> set free = {}" by simp
  ultimately show ?thesis using free_chain_end [of "p_slots p" "p_free_head p" free] by simp
qed

lemma pool_free_head:
  assumes "pool_inv p" and "p_free_head p \<noteq> kNoSlot p"
  shows "p_free_head p < length (p_slots p) \<and> \<not> sl_occupied (p_slots p ! p_free_head p)"
proof -
  obtain free where "free_chain (p_slots p) (p_free_head p) free" "distinct free"
    "set free = {i. i < length (p_slots p) \<and> \<not> sl_occupied (p_slots p ! i)}"
    by (rule pool_inv_free [OF assms(1)])
  moreover from this(1) assms(2) have "p_free_head p \<in> set free" by (cases free) auto
  ultimately show ?thesis by simp
qed

lemma count_if_all: "count_if P xs = length xs \<longleftrightarrow> (\<forall>i < length xs. P (xs ! i))"
proof -
  have "count_if P xs = length xs \<longleftrightarrow> (\<forall>x \<in> set xs. P x)"
    unfolding count_if_def by (metis filter_id_conv length_filter_less less_irrefl)
  then show ?thesis by (simp add: all_set_conv_all_nth)
qed

lemma pool_full_in_use:
  assumes "pool_inv p"
  shows "p_free_head p = kNoSlot p \<longleftrightarrow> ps_in_use (p_stats p) = length (p_slots p)"
  using pool_full_iff [OF assms] count_if_all [of sl_occupied "p_slots p"] pool_inv_in_use [OF assms]
  by simp

lemma init_simps [simp]:
  "length (p_slots (FixedObjectPool_init capacity base stride)) = capacity"
  "p_free_head (FixedObjectPool_init capacity base stride) = 0"
  "p_stats (FixedObjectPool_init capacity base stride) = PoolStats_default"
  "p_base (FixedObjectPool_init capacity base stride) = base"
  "p_stride (FixedObjectPool_init capacity base stride) = stride"
  by (simp_all add: FixedObjectPool_init_def Let_def)

lemma pool_inv_init:
  assumes "0 < capacity" and "0 < base" and "0 < stride"
  shows "pool_inv (FixedObjectPool_init capacity base stride)"
proof -
  let ?p = "FixedObjectPool_init capacity base stride :: 'a FixedObjectPool"
  have nth: "p_slots ?p ! i = \<lparr>sl_storage = None, sl_next = Suc i, sl_occupied = False\<rparr>"
    if "i < capacity" for i
    using that assms(1) by (auto simp: FixedObjectPool_init_def Let_def nth_list_update)
  have "free_chain (p_slots ?p) 0 [0..<capacity]"
    by (rule free_chain_upt) (simp_all add: nth)
  then have "free_list_ok (p_slots ?p) 0"
    unfolding free_list_ok_def by (intro exI [of _ "[0..<capacity]"]) (auto simp: nth)
  moreover have "count_if sl_occupied (p_slots ?p) = 0"
    by (simp add: count_if_0_iff nth)
  ultimately show ?thesis
    using assms unfolding pool_inv_def
    by (simp add: nth PoolStats_default_def)
qed

section \<open>Creating and destroying\<close>

lemma slot_overwrite:
  fixes slot :: "'a Slot"
  shows "slot\<lparr>sl_storage := a, sl_next := b, sl_occupied := c\<rparr> =
      \<lparr>sl_storage = a, sl_next = b, sl_occupied = c\<rparr>"
    and "slot\<lparr>sl_storage := a, sl_occupied := c, sl_next := b\<rparr> =
      \<lparr>sl_storage = a, sl_next = b, sl_occupied = c\<rparr>"
  by (cases slot; simp)+

lemma try_create_full:
  "p_free_head p = kNoSlot p \<Longrightarrow>
     try_create p arguments = (Some Handle_empty, p\<lparr>p_stats := (p_stats p)
       \<lparr>ps_allocation_failures := ps_allocation_failures (p_stats p) + 1\<rparr>\<rparr>)"
  by (simp add: try_create_def)

lemma try_create_throws: "p_free_head p \<noteq> kNoSlot p \<Longrightarrow> try_create p None = (None, p)"
  by (simp add: try_create_def)

lemma try_create_object:
  assumes "p_free_head p \<noteq> kNoSlot p"
  shows "fst (try_create p (Some v)) =
      Some \<lparr>h_pool = True, h_object = slot_object p (p_free_head p)\<rparr>"
    and "p_slots (snd (try_create p (Some v))) =
      (p_slots p)[p_free_head p := \<lparr>sl_storage = Some v, sl_next = kNoSlot p, sl_occupied = True\<rparr>]"
    and "p_free_head (snd (try_create p (Some v))) = sl_next (p_slots p ! p_free_head p)"
    and "p_base (snd (try_create p (Some v))) = p_base p"
    and "p_stride (snd (try_create p (Some v))) = p_stride p"
    and "ps_in_use (p_stats (snd (try_create p (Some v)))) = Suc (ps_in_use (p_stats p))"
    and "ps_high_watermark (p_stats (snd (try_create p (Some v)))) =
      max (ps_high_watermark (p_stats p)) (Suc (ps_in_use (p_stats p)))"
    and "ps_successful_allocations (p_stats (snd (try_create p (Some v)))) =
      ps_successful_allocations (p_stats p) + 1"
    and "ps_successful_releases (p_stats (snd (try_create p (Some v)))) =
      ps_successful_releases (p_stats p)"
    and "ps_invalid_releases (p_stats (snd (try_create p (Some v)))) =
      ps_invalid_releases (p_stats p)"
  using assms by (simp_all add: try_create_def Let_def max_def slot_overwrite)

lemma destroy_foreign:
  "find_slot p obj = kNoSlot p \<Longrightarrow>
     destroy p obj = (PoolReleaseResult.foreign_pointer, p\<lparr>p_stats := (p_stats p)
       \<lparr>ps_invalid_releases := ps_invalid_releases (p_stats p) + 1\<rparr>\<rparr>)"
  by (simp add: destroy_def)

lemma destroy_double:
  "find_slot p obj \<noteq> kNoSlot p \<Longrightarrow> \<not> sl_occupied (p_slots p ! find_slot p obj) \<Longrightarrow>
     destroy p obj = (PoolReleaseResult.double_release, p\<lparr>p_stats := (p_stats p)
       \<lparr>ps_invalid_releases := ps_invalid_releases (p_stats p) + 1\<rparr>\<rparr>)"
  by (simp add: destroy_def Let_def)

lemma destroy_object:
  assumes "find_slot p obj \<noteq> kNoSlot p" and "sl_occupied (p_slots p ! find_slot p obj)"
  shows "fst (destroy p obj) = PoolReleaseResult.released"
    and "p_slots (snd (destroy p obj)) = (p_slots p)
      [find_slot p obj := \<lparr>sl_storage = None, sl_next = p_free_head p, sl_occupied = False\<rparr>]"
    and "p_free_head (snd (destroy p obj)) = find_slot p obj"
    and "p_base (snd (destroy p obj)) = p_base p"
    and "p_stride (snd (destroy p obj)) = p_stride p"
    and "ps_in_use (p_stats (snd (destroy p obj))) = ps_in_use (p_stats p) - 1"
    and "ps_high_watermark (p_stats (snd (destroy p obj))) = ps_high_watermark (p_stats p)"
    and "ps_successful_allocations (p_stats (snd (destroy p obj))) =
      ps_successful_allocations (p_stats p)"
    and "ps_successful_releases (p_stats (snd (destroy p obj))) =
      ps_successful_releases (p_stats p) + 1"
    and "ps_invalid_releases (p_stats (snd (destroy p obj))) = ps_invalid_releases (p_stats p)"
  using assms by (simp_all add: destroy_def Let_def slot_overwrite)

text \<open>A change of the statistics alone.\<close>

lemma find_slot_stats: "find_slot (p\<lparr>p_stats := st\<rparr>) obj = find_slot p obj"
  by (rule find_slot_cong) simp_all

lemma live_stats: "live (p\<lparr>p_stats := st\<rparr>) = live p"
  by (rule ext) (simp add: live_def find_slot_stats Let_def)

lemma pool_inv_bump:
  "pool_inv (p\<lparr>p_stats := (p_stats p)\<lparr>ps_allocation_failures := n\<rparr>\<rparr>) = pool_inv p"
  "pool_inv (p\<lparr>p_stats := (p_stats p)\<lparr>ps_invalid_releases := n\<rparr>\<rparr>) = pool_inv p"
  by (simp_all add: pool_inv_def)

text \<open>A change of one slot, as seen by address.\<close>

lemma live_update:
  assumes "pool_inv p" and "i < length (p_slots p)" and "p_slots p' = (p_slots p)[i := x]"
    and "p_base p' = p_base p" and "p_stride p' = p_stride p"
  shows "live p' = (live p)(slot_object p i := sl_storage x)"
proof
  fix a
  have find: "find_slot p' a = find_slot p a" by (rule find_slot_cong) (simp_all add: assms)
  show "live p' a = ((live p)(slot_object p i := sl_storage x)) a"
  proof (cases "a = slot_object p i")
    case True
    then have "find_slot p a = i"
      using find_slot_object pool_inv_layout [OF assms(1)] assms(2) by blast
    then show ?thesis using True assms(2,3) find by (simp add: live_def Let_def)
  next
    case False
    then have "find_slot p a \<noteq> i"
      using find_slot_found [of p a] assms(2) by auto
    then show ?thesis using False assms(3) find by (simp add: live_def Let_def)
  qed
qed

lemma pool_inv_update:
  assumes "pool_inv p" and "p_slots p' = (p_slots p)[i := x]" and "i < length (p_slots p)"
    and "p_base p' = p_base p" and "p_stride p' = p_stride p"
    and "sl_occupied x = (sl_storage x \<noteq> None)"
    and "free_list_ok ((p_slots p)[i := x]) (p_free_head p')"
    and "ps_in_use (p_stats p') = count_if sl_occupied ((p_slots p)[i := x])"
    and "ps_in_use (p_stats p') \<le> ps_high_watermark (p_stats p')"
    and "ps_high_watermark (p_stats p') \<le> length (p_slots p)"
    and "ps_successful_allocations (p_stats p') - ps_successful_releases (p_stats p') =
      of_nat (ps_in_use (p_stats p'))"
  shows "pool_inv p'"
  using assms unfolding pool_inv_def by (simp add: nth_list_update)

lemma free_list_create:
  assumes "free_list_ok slots head" and "head \<noteq> length slots" and "sl_occupied x"
  shows "free_list_ok (slots[head := x]) (sl_next (slots ! head))"
proof -
  obtain free where chain: "free_chain slots head free" and d: "distinct free"
    and free: "set free = {i. i < length slots \<and> \<not> sl_occupied (slots ! i)}"
    using assms(1) unfolding free_list_ok_def by blast
  obtain rest where rest: "free = head # rest" using chain assms(2) by (cases free) auto
  then have "set rest = set free - {head}" using d by auto
  moreover have "sl_occupied (slots[head := x] ! i) \<longleftrightarrow> i = head \<or> sl_occupied (slots ! i)"
    if "i < length slots" for i
    using that assms(3) by (cases "i = head") simp_all
  ultimately have "set rest = {i. i < length slots \<and> \<not> sl_occupied (slots[head := x] ! i)}"
    unfolding free by blast
  moreover have "free_chain (slots[head := x]) (sl_next (slots ! head)) rest"
    using chain d rest by (intro free_chain_frame) auto
  moreover have "distinct rest" using d rest by simp
  ultimately show ?thesis unfolding free_list_ok_def length_list_update by blast
qed

lemma free_list_destroy:
  assumes "free_list_ok slots (sl_next x)" and "i < length slots" and "sl_occupied (slots ! i)"
    and "\<not> sl_occupied x"
  shows "free_list_ok (slots[i := x]) i"
proof -
  obtain free where chain: "free_chain slots (sl_next x) free" and d: "distinct free"
    and free: "set free = {i. i < length slots \<and> \<not> sl_occupied (slots ! i)}"
    using assms(1) unfolding free_list_ok_def by blast
  have i: "i \<notin> set free" using free assms(3) by simp
  have "sl_occupied (slots[i := x] ! j) \<longleftrightarrow> j \<noteq> i \<and> sl_occupied (slots ! j)"
    if "j < length slots" for j
    using that assms(4) by (cases "j = i") simp_all
  then have "set (i # free) = {j. j < length slots \<and> \<not> sl_occupied (slots[i := x] ! j)}"
    using assms(2) unfolding list.set free by blast
  moreover have "free_chain (slots[i := x]) i (i # free)"
    using free_chain_frame [OF chain i] assms(2) by simp
  moreover have "distinct (i # free)" using d i by simp
  ultimately show ?thesis unfolding free_list_ok_def length_list_update by blast
qed

lemma pool_inv_free_list: "pool_inv p \<Longrightarrow> free_list_ok (p_slots p) (p_free_head p)"
  by (simp add: pool_inv_def)

lemma pool_inv_counters:
  assumes "pool_inv p"
  shows "ps_in_use (p_stats p) \<le> ps_high_watermark (p_stats p)"
    and "ps_high_watermark (p_stats p) \<le> length (p_slots p)"
    and "ps_successful_allocations (p_stats p) - ps_successful_releases (p_stats p) =
      of_nat (ps_in_use (p_stats p))"
  using assms by (simp_all add: pool_inv_def)

lemma count_if_le: "count_if P xs \<le> length xs"
  by (simp add: count_if_def)

lemma try_create_inv:
  assumes "pool_inv p" and "p_free_head p \<noteq> kNoSlot p"
  shows "pool_inv (snd (try_create p (Some v)))"
proof -
  let ?x = "\<lparr>sl_storage = Some v, sl_next = kNoSlot p, sl_occupied = True\<rparr>"
  note new = try_create_object [OF assms(2), of v]
  have i: "p_free_head p < length (p_slots p)" "\<not> sl_occupied (p_slots p ! p_free_head p)"
    using pool_free_head [OF assms] by simp_all
  have count: "count_if sl_occupied ((p_slots p)[p_free_head p := ?x]) = Suc (ps_in_use (p_stats p))"
    using count_if_update [OF i(1), of sl_occupied ?x] i(2) pool_inv_in_use [OF assms(1)] by simp
  then have "Suc (ps_in_use (p_stats p)) \<le> length (p_slots p)"
    using count_if_le [of sl_occupied "(p_slots p)[p_free_head p := ?x]"] by simp
  then show ?thesis
    using pool_inv_counters [OF assms(1)] count i(1) new
      free_list_create [OF pool_inv_free_list [OF assms(1)] assms(2), of ?x]
    by (intro pool_inv_update [OF assms(1) new(2)]) (simp_all add: algebra_simps)
qed

lemma destroy_inv:
  assumes "pool_inv p"
  shows "pool_inv (snd (destroy p obj))"
proof (cases "find_slot p obj \<noteq> kNoSlot p \<and> sl_occupied (p_slots p ! find_slot p obj)")
  case False
  then show ?thesis
    using assms
    by (cases "find_slot p obj = kNoSlot p") (auto simp: destroy_foreign destroy_double pool_inv_bump)
next
  case True
  let ?x = "\<lparr>sl_storage = None, sl_next = p_free_head p, sl_occupied = False\<rparr>"
  note new = destroy_object [OF True [THEN conjunct1] True [THEN conjunct2]]
  have i: "find_slot p obj < length (p_slots p)" using True find_slot_le [of p obj] by simp
  define k where "k = count_if sl_occupied ((p_slots p)[find_slot p obj := ?x])"
  have k: "ps_in_use (p_stats p) = Suc k"
    using count_if_update [OF i, of sl_occupied ?x] True pool_inv_in_use [OF assms]
    by (simp add: k_def)
  have "free_list_ok ((p_slots p)[find_slot p obj := ?x]) (find_slot p obj)"
    using free_list_destroy [of "p_slots p" ?x "find_slot p obj"] pool_inv_free_list [OF assms] i True
    by simp
  then show ?thesis
    using pool_inv_counters [OF assms] i
    by (intro pool_inv_update [OF assms new(2) i]) (simp_all add: new k algebra_simps flip: k_def)
qed

section \<open>Effect on the living objects\<close>

text \<open>Only a creation that finds the pool full counts as a failed allocation.\<close>

lemma create_failures:
  assumes "p_free_head p \<noteq> kNoSlot p"
  shows "ps_allocation_failures (p_stats (snd (try_create p (Some v)))) = ps_allocation_failures (p_stats p)"
  using assms by (simp add: try_create_def Let_def)

lemma destroy_failures:
  "ps_allocation_failures (p_stats (snd (destroy p a))) = ps_allocation_failures (p_stats p)"
  by (simp add: destroy_def Let_def)

lemma create_object_full:
  assumes "p_free_head p = kNoSlot p"
  shows "fst (create_object p v) = nullptr" and "live (snd (create_object p v)) = live p"
    and "pool_inv p \<Longrightarrow> pool_inv (snd (create_object p v))"
    and "length (p_slots (snd (create_object p v))) = length (p_slots p)"
    and "ps_invalid_releases (p_stats (snd (create_object p v))) = ps_invalid_releases (p_stats p)"
  using assms
  by (simp_all add: create_object_def try_create_full Handle_empty_def live_stats pool_inv_bump)

lemma create_object_eq:
  "p_free_head p \<noteq> kNoSlot p \<Longrightarrow>
     create_object p v = (slot_object p (p_free_head p), snd (try_create p (Some v)))"
  using try_create_object(1) [of p v]
  by (cases "try_create p (Some v)") (simp add: create_object_def)

lemma create_object_room:
  assumes "pool_inv p" and "p_free_head p \<noteq> kNoSlot p"
  shows "fst (create_object p v) \<noteq> nullptr" and "live p (fst (create_object p v)) = None"
    and "live (snd (create_object p v)) = (live p)(fst (create_object p v) \<mapsto> v)"
    and "pool_inv (snd (create_object p v))"
    and "length (p_slots (snd (create_object p v))) = length (p_slots p)"
    and "ps_invalid_releases (p_stats (snd (create_object p v))) = ps_invalid_releases (p_stats p)"
proof -
  note new = try_create_object [OF assms(2), of v]
  have i: "p_free_head p < length (p_slots p)" "\<not> sl_occupied (p_slots p ! p_free_head p)"
    using pool_free_head [OF assms] by simp_all
  show "fst (create_object p v) \<noteq> nullptr"
    using pool_inv_layout(1) [OF assms(1)] by (simp add: create_object_eq [OF assms(2)] slot_object_def)
  show "live p (fst (create_object p v)) = None"
    using live_slot [OF assms(1) i(1)] pool_inv_storage [OF assms(1) i(1)] i(2)
    by (simp add: create_object_eq [OF assms(2)])
  show "live (snd (create_object p v)) = (live p)(fst (create_object p v) \<mapsto> v)"
    using live_update [OF assms(1) i(1) new(2) new(4,5)]
    by (simp add: create_object_eq [OF assms(2)])
  show "pool_inv (snd (create_object p v))"
    using try_create_inv [OF assms] by (simp add: create_object_eq [OF assms(2)])
  show "length (p_slots (snd (create_object p v))) = length (p_slots p)"
    and "ps_invalid_releases (p_stats (snd (create_object p v))) = ps_invalid_releases (p_stats p)"
    by (simp_all add: create_object_eq [OF assms(2)] new)
qed

lemma live_Some_slot:
  assumes "pool_inv p" and "live p obj \<noteq> None"
  shows "find_slot p obj \<noteq> kNoSlot p \<and> sl_occupied (p_slots p ! find_slot p obj)"
  using assms pool_inv_storage [OF assms(1), of "find_slot p obj"]
  by (auto simp: live_def Let_def split: if_splits)

lemma destroy_live:
  assumes "pool_inv p" and "live p obj \<noteq> None"
  shows "fst (destroy p obj) = PoolReleaseResult.released"
    and "live (snd (destroy p obj)) = (live p)(obj := None)"
    and "length (p_slots (snd (destroy p obj))) = length (p_slots p)"
    and "ps_invalid_releases (p_stats (snd (destroy p obj))) = ps_invalid_releases (p_stats p)"
proof -
  have slot: "find_slot p obj \<noteq> kNoSlot p" "sl_occupied (p_slots p ! find_slot p obj)"
    using live_Some_slot [OF assms] by simp_all
  note new = destroy_object [OF slot]
  have i: "find_slot p obj < length (p_slots p)" using slot(1) find_slot_le [of p obj] by simp
  show "live (snd (destroy p obj)) = (live p)(obj := None)"
    using live_update [OF assms(1) i new(2) new(4,5)] find_slot_found [OF i] by simp
qed (simp_all add: destroy_object live_Some_slot [OF assms])

lemma destroy_dead:
  assumes "pool_inv p" and "live p obj = None"
  shows "destroy p obj =
      (if \<exists>i < length (p_slots p). obj = slot_object p i then PoolReleaseResult.double_release
       else PoolReleaseResult.foreign_pointer,
       p\<lparr>p_stats := (p_stats p)\<lparr>ps_invalid_releases := ps_invalid_releases (p_stats p) + 1\<rparr>\<rparr>)"
proof (cases "find_slot p obj = kNoSlot p")
  case True
  then have "\<not> (\<exists>i < length (p_slots p). obj = slot_object p i)"
    using find_slot_object [OF pool_inv_layout [OF assms(1)]] by auto
  then show ?thesis using True by (simp add: destroy_foreign)
next
  case False
  then have i: "find_slot p obj < length (p_slots p)" using find_slot_le [of p obj] by simp
  then have "\<exists>i < length (p_slots p). obj = slot_object p i"
    using find_slot_found [OF i] by metis
  moreover have "\<not> sl_occupied (p_slots p ! find_slot p obj)"
    using assms i pool_inv_storage [OF assms(1) i] by (simp add: live_def)
  ultimately show ?thesis using False by (simp add: destroy_double)
qed

section \<open>The allocator interface\<close>

text \<open>Ownership as bookkeeping on multisets of addresses.\<close>

lemma owned_by_create:
  "owned_by l owners \<Longrightarrow> l a = None \<Longrightarrow> owned_by (l(a \<mapsto> v)) (add_mset a owners)"
  by (auto simp: owned_by_def domIff)

lemma owned_by_destroy:
  "owned_by l owners \<Longrightarrow> a \<in># owners \<Longrightarrow> l a \<noteq> None \<and> owned_by (l(a := None)) (owners - {#a#})"
  by (auto simp: owned_by_def mset_set_Diff)

text \<open>
  What the owners of objects rely on: an allocator of limited capacity whose living objects are
  found by address, that hands out addresses not in use, and that gives back exactly what is asked.
\<close>

locale object_allocator =
  fixes inv :: "'p \<Rightarrow> bool"
    and objects :: "'p \<Rightarrow> pointer \<Rightarrow> 'a option"
    and limit :: "'p \<Rightarrow> nat"
    and invalid :: "'p \<Rightarrow> size_t"
    and create :: "'p \<Rightarrow> 'a \<Rightarrow> pointer \<times> 'p"
    and dispose :: "'p \<Rightarrow> pointer \<Rightarrow> PoolReleaseResult \<times> 'p"
  assumes bounded: "inv p \<Longrightarrow> finite (dom (objects p)) \<and> card (dom (objects p)) \<le> limit p"
    and not_null: "inv p \<Longrightarrow> objects p nullptr = None"
    and create_fails: "inv p \<Longrightarrow> card (dom (objects p)) = limit p \<Longrightarrow> create p v = (a, p') \<Longrightarrow>
      a = nullptr \<and> inv p' \<and> objects p' = objects p \<and> limit p' = limit p \<and> invalid p' = invalid p"
    and create_succeeds: "inv p \<Longrightarrow> card (dom (objects p)) < limit p \<Longrightarrow> create p v = (a, p') \<Longrightarrow>
      a \<noteq> nullptr \<and> inv p' \<and> objects p a = None \<and> objects p' = (objects p)(a \<mapsto> v) \<and>
      limit p' = limit p \<and> invalid p' = invalid p"
    and dispose_object: "inv p \<Longrightarrow> objects p a \<noteq> None \<Longrightarrow> dispose p a = (r, p') \<Longrightarrow>
      r = PoolReleaseResult.released \<and> inv p' \<and> objects p' = (objects p)(a := None) \<and>
      limit p' = limit p \<and> invalid p' = invalid p"
begin

lemma own_size:
  assumes "inv p" and "owned_by (objects p) owners"
  shows "size owners = card (dom (objects p)) \<and> size owners \<le> limit p"
  using assms bounded [OF assms(1)] by (auto simp: owned_by_def)

lemma own_create:
  assumes "inv p" and "owned_by (objects p) owners" and "create p v = (a, p')"
  shows "inv p' \<and> limit p' = limit p \<and> invalid p' = invalid p \<and>
    owned_by (objects p') (if a = nullptr then owners else add_mset a owners) \<and>
    (a = nullptr \<longleftrightarrow> size owners = limit p)"
proof (cases "card (dom (objects p)) = limit p")
  case True
  then show ?thesis using create_fails [OF assms(1) True assms(3)] own_size [OF assms(1,2)] assms(2) by simp
next
  case False
  then have "card (dom (objects p)) < limit p" using bounded [OF assms(1)] by simp
  from create_succeeds [OF assms(1) this assms(3)] show ?thesis
    using owned_by_create [OF assms(2)] own_size [OF assms(1,2)] False by simp
qed

lemma create_keeps:
  assumes "inv p" and "create p v = (a, p')" and "objects p b \<noteq> None"
  shows "objects p' b = objects p b"
proof (cases "card (dom (objects p)) = limit p")
  case True
  then show ?thesis using create_fails [OF assms(1) True assms(2)] by simp
next
  case False
  then have "card (dom (objects p)) < limit p" using bounded [OF assms(1)] by simp
  from create_succeeds [OF assms(1) this assms(2)] show ?thesis using assms(3) by auto
qed

lemma create_live:
  assumes "inv p" and "create p v = (a, p')" and "a \<noteq> nullptr"
  shows "objects p' a = Some v"
proof (cases "card (dom (objects p)) = limit p")
  case True
  then show ?thesis using create_fails [OF assms(1) True assms(2)] assms(3) by simp
next
  case False
  then have "card (dom (objects p)) < limit p" using bounded [OF assms(1)] by simp
  from create_succeeds [OF assms(1) this assms(2)] show ?thesis by simp
qed

lemma own_others:
  assumes "inv p" and "owned_by (objects p) owners" and "a \<in># owners" and "b \<in># owners - {#a#}"
  shows "b \<noteq> a"
proof
  assume "b = a"
  then have "2 \<le> count owners a"
    using assms(4) by (simp add: in_diff_count)
  moreover have "count owners a \<le> 1"
    using assms(2) by (auto simp: owned_by_def count_mset_set')
  ultimately show False by simp
qed

lemma own_dispose:
  assumes "inv p" and "owned_by (objects p) owners" and "a \<in># owners" and "dispose p a = (r, p')"
  shows "r = PoolReleaseResult.released \<and> inv p' \<and> limit p' = limit p \<and> invalid p' = invalid p \<and>
    objects p' = (objects p)(a := None) \<and> owned_by (objects p') (owners - {#a#})"
  using dispose_object [OF assms(1) _ assms(4)] owned_by_destroy [OF assms(2,3)] by simp

lemma owner_not_null:
  "inv p \<Longrightarrow> owned_by (objects p) owners \<Longrightarrow> a \<in># owners \<Longrightarrow> a \<noteq> nullptr \<and> objects p a \<noteq> None"
  using owned_by_destroy [of "objects p" owners a] not_null [of p] by metis

end

lemma live_nullptr: "pool_inv p \<Longrightarrow> live p nullptr = None"
  by (simp add: live_def find_slot_def)

interpretation op: object_allocator pool_inv live "\<lambda>p. length (p_slots p)"
  "\<lambda>p. ps_invalid_releases (p_stats p)" create_object destroy
proof (unfold_locales, goal_cases)
  case (1 p)
  then show ?case
    using finite_dom_live card_dom_live pool_inv_counters(1,2) [of p] by fastforce
next
  case (2 p)
  then show ?case by (rule live_nullptr)
next
  case (3 p v a p')
  then have "p_free_head p = kNoSlot p" using pool_full_in_use card_dom_live by metis
  then show ?case using create_object_full [of p v] 3 by simp
next
  case (4 p v a p')
  then have "p_free_head p \<noteq> kNoSlot p"
    using pool_full_in_use card_dom_live by (metis less_irrefl)
  then show ?case using create_object_room [of p v] 4 by simp
next
  case (5 p a r p')
  then show ?case using destroy_live [of p a] destroy_inv [of p a] by simp
qed

section \<open>Handles\<close>

lemma held_simps [simp]:
  "held [] = {#}" "held (h # hs) = held_one h + held hs" "held (xs @ ys) = held xs + held ys"
  "held_one Handle_empty = {#}"
  by (simp_all add: held_def held_one_def Handle_empty_def)

lemma held_update: "h < length hs \<Longrightarrow> held (hs[h := x]) + held_one (hs ! h) = held hs + held_one x"
proof (induction hs arbitrary: h)
  case (Cons y ys)
  then show ?case by (cases h) (auto simp: ac_simps)
qed simp

lemma handle_ok_update:
  "\<forall>h \<in> set hs. h_pool h = (h_object h \<noteq> nullptr) \<Longrightarrow> h_pool x = (h_object x \<noteq> nullptr) \<Longrightarrow>
     \<forall>h \<in> set (hs[i := x]). h_pool h = (h_object h \<noteq> nullptr)"
  using set_update_subset_insert [of hs i x] by blast

lemma handle_reset_inv:
  assumes "handles_inv s" and "h < length (s_handles s)"
  shows "handles_inv (handle_reset s h)"
proof (cases "h_object (s_handles s ! h) = nullptr")
  case True
  then have "held ((s_handles s)[h := Handle_empty]) = held (s_handles s)"
    using held_update [OF assms(2), of Handle_empty] by (simp add: held_one_def Handle_empty_def)
  then show ?thesis
    using assms(1) True handle_ok_update [of "s_handles s" Handle_empty h]
    by (simp add: handles_inv_def handle_reset_def Handle_empty_def)
next
  case False
  let ?a = "h_object (s_handles s ! h)"
  have held: "held (s_handles s) = add_mset ?a (held ((s_handles s)[h := Handle_empty]))"
    using held_update [OF assms(2), of Handle_empty] False
    by (simp add: held_one_def Handle_empty_def)
  have inv: "pool_inv (s_pool s)" "owned_by (live (s_pool s)) (held (s_handles s))"
    "h_pool (s_handles s ! h)"
    using assms False by (simp_all add: handles_inv_def)
  have "?a \<in># held (s_handles s)" by (simp add: held)
  from op.own_dispose [OF inv(1,2) this, of "fst (destroy (s_pool s) ?a)" "snd (destroy (s_pool s) ?a)"]
  show ?thesis
    using assms(1) False inv(3) handle_ok_update [of "s_handles s" Handle_empty h]
    by (auto simp: handles_inv_def handle_reset_def Handle_empty_def held)
qed

lemma handle_reset_simps [simp]:
  "s_handles (handle_reset s h) = (s_handles s)[h := Handle_empty]"
  by (simp add: handle_reset_def Let_def)

lemma handle_steal_inv:
  assumes "handles_inv s" and "h < length (s_handles s)" and "i < length (s_handles s)" and "h \<noteq> i"
    and "s_handles s ! h = Handle_empty"
  shows "handles_inv (handle_steal s h i)"
proof -
  let ?hs = "(s_handles s)[i := Handle_empty]"
  have "held (?hs[h := s_handles s ! i]) = held (s_handles s)"
    using held_update [of h ?hs "s_handles s ! i"] held_update [OF assms(3), of Handle_empty] assms(2,4,5)
    by simp
  moreover have "\<forall>h \<in> set ?hs. h_pool h = (h_object h \<noteq> nullptr)"
    using assms(1) by (intro handle_ok_update) (simp_all add: handles_inv_def Handle_empty_def)
  moreover have "h_pool (s_handles s ! i) = (h_object (s_handles s ! i) \<noteq> nullptr)"
    using assms(1,3) by (simp add: handles_inv_def)
  ultimately show ?thesis
    using assms(1) handle_ok_update [of ?hs "s_handles s ! i" h]
    by (simp add: handles_inv_def handle_steal_def)
qed

lemma handle_move_assign_inv:
  assumes "handles_inv s" and "h < length (s_handles s)" and "i < length (s_handles s)"
  shows "handles_inv (handle_move_assign s h i)"
  using assms handle_reset_inv [OF assms(1,2)]
  by (auto simp: handle_move_assign_def intro!: handle_steal_inv)

lemma try_create_handle:
  "try_create p (Some v) = (Some (let a = fst (create_object p v) in
      \<lparr>h_pool = (a \<noteq> nullptr), h_object = a\<rparr>), snd (create_object p v))" if "pool_inv p"
proof (cases "p_free_head p = kNoSlot p")
  case True
  then show ?thesis by (simp add: create_object_def try_create_full Handle_empty_def)
next
  case False
  then show ?thesis
    using create_object_room(1) [OF that False, of v] create_object_eq [OF False, of v]
      try_create_object(1) [OF False, of v]
    by (simp add: prod_eq_iff)
qed

lemma handle_create_inv:
  assumes "handles_inv s" and "h < length (s_handles s)"
  shows "handles_inv (handle_create s h arguments)"
proof -
  have inv: "pool_inv (s_pool s)" using assms(1) by (simp add: handles_inv_def)
  show ?thesis
  proof (cases arguments)
    case None
    show ?thesis
    proof (cases "p_free_head (s_pool s) = kNoSlot (s_pool s)")
      case True
      let ?s = "s\<lparr>s_pool := snd (try_create (s_pool s) None)\<rparr>"
      have "handles_inv ?s"
        using assms(1) True by (simp add: handles_inv_def try_create_full live_stats pool_inv_bump)
      then have "handles_inv (handle_reset ?s h)" using assms(2) by (intro handle_reset_inv) simp_all
      then show ?thesis
        using None True by (simp add: handle_create_def try_create_full handles_inv_def)
    next
      case False
      then show ?thesis using assms(1) None by (simp add: handle_create_def try_create_throws)
    qed
  next
    case (Some v)
    let ?a = "fst (create_object (s_pool s) v)" and ?p = "snd (create_object (s_pool s) v)"
    let ?tmp = "\<lparr>h_pool = (?a \<noteq> nullptr), h_object = ?a\<rparr>"
    let ?s = "s\<lparr>s_pool := ?p, s_handles := s_handles s @ [?tmp]\<rparr>"
    have "handles_inv ?s"
      using assms(1) op.own_create [OF inv, of "held (s_handles s)" v ?a ?p]
      by (auto simp: handles_inv_def held_one_def split: if_splits)
    then have "handles_inv (handle_move_assign ?s h (length (s_handles s)))"
      using assms(2) by (intro handle_move_assign_inv) simp_all
    moreover have "handle_move_assign ?s h (length (s_handles s)) =
        (handle_create s h arguments)\<lparr>s_handles := s_handles (handle_create s h arguments) @ [Handle_empty]\<rparr>"
      using assms(2) Some
      by (simp add: handle_create_def handle_move_assign_def handle_steal_def handle_reset_def
          try_create_handle [OF inv] nth_append list_update_append Let_def)
    ultimately show ?thesis by (simp add: handles_inv_def)
  qed
qed

lemma handle_declare_inv: "handles_inv s \<Longrightarrow> handles_inv (s\<lparr>s_handles := s_handles s @ [Handle_empty]\<rparr>)"
  by (simp add: handles_inv_def Handle_empty_def held_one_def)

lemma handle_leave_inv:
  assumes "handles_inv s" and "s_handles s \<noteq> []"
  shows "handles_inv (handle_do s LeaveScope)"
proof -
  let ?s = "handle_reset s (length (s_handles s) - 1)"
  have "handles_inv ?s" using assms by (intro handle_reset_inv) simp_all
  moreover have "s_handles ?s = butlast (s_handles ?s) @ [Handle_empty]"
    using assms(2) by (cases "s_handles s" rule: rev_cases) (simp_all add: list_update_append)
  then have "held (s_handles ?s) = held (butlast (s_handles ?s))"
    by (metis add.right_neutral held_simps(1,2,3,4))
  ultimately show ?thesis
    using assms(2) by (simp add: handles_inv_def Let_def) (meson in_set_butlastD)
qed

lemma handle_do_inv: "handles_inv s \<Longrightarrow> handles_inv (handle_do s x)"
proof (cases x)
  case (MoveConstruct i)
  assume "handles_inv s"
  then show ?thesis
    using MoveConstruct handle_declare_inv [of s]
      handle_steal_inv [of "s\<lparr>s_handles := s_handles s @ [Handle_empty]\<rparr>" "length (s_handles s)" i]
    by simp
next
  case LeaveScope
  assume "handles_inv s"
  then show ?thesis using LeaveScope handle_leave_inv [of s] by (cases "s_handles s = []") simp_all
qed (simp_all add: handle_declare_inv handle_create_inv handle_reset_inv handle_move_assign_inv)

lemma handle_run_inv: "handles_inv s \<Longrightarrow> handles_inv (handle_run s xs)"
  unfolding handle_run_def by (induction xs arbitrary: s) (simp_all add: handle_do_inv)

lemma init_no_objects:
  assumes "0 < capacity" and "0 < base" and "0 < stride"
  shows "live (FixedObjectPool_init capacity base stride) = Map.empty"
proof -
  let ?p = "FixedObjectPool_init capacity base stride :: 'a FixedObjectPool"
  have "card (dom (live ?p)) = 0" "finite (dom (live ?p))"
    using card_dom_live [OF pool_inv_init [OF assms]] finite_dom_live [OF pool_inv_init [OF assms]]
    by (simp_all add: PoolStats_default_def)
  then show ?thesis by simp
qed

lemma handles_inv_init:
  assumes "0 < capacity" and "0 < base" and "0 < stride"
  shows "handles_inv \<lparr>s_pool = FixedObjectPool_init capacity base stride, s_handles = []\<rparr>"
  by (simp add: handles_inv_def owned_by_def PoolStats_default_def pool_inv_init [OF assms]
      init_no_objects [OF assms])

lemma pool_do_inv: "pool_inv p \<Longrightarrow> pool_inv (pool_do p x)"
proof (cases x)
  case (TryCreate arguments)
  assume inv: "pool_inv p"
  show ?thesis
  proof (cases "p_free_head p = kNoSlot p")
    case True
    then show ?thesis using TryCreate inv by (simp add: try_create_full pool_inv_bump)
  next
    case False
    then show ?thesis
      using TryCreate inv by (cases arguments) (simp_all add: try_create_inv try_create_throws)
  qed
qed (simp add: destroy_inv)

lemma pool_run_inv: "pool_inv p \<Longrightarrow> pool_inv (pool_run p xs)"
  unfolding pool_run_def by (induction xs arbitrary: p) (simp_all add: pool_do_inv)

lemma pool_do_length: "length (p_slots (pool_do p x)) = length (p_slots p)"
proof (cases x)
  case (TryCreate arguments)
  then show ?thesis by (cases arguments) (simp_all add: try_create_def Let_def)
next
  case (Destroy obj)
  then show ?thesis by (simp add: destroy_def Let_def)
qed

lemma pool_run_length: "length (p_slots (pool_run p xs)) = length (p_slots p)"
  unfolding pool_run_def by (induction xs arbitrary: p) (simp_all add: pool_do_length)

section \<open>Properties\<close>

text \<open>
  C19. The pool is an allocator of at most \<open>Capacity\<close> living objects. While fewer are alive,
  \<open>try_create\<close> returns a non-null address that no living object has, and the new object is found
  there; all others stay where they are. When all slots are taken it returns an empty handle and
  changes no object. If the constructor throws, the pool is exactly as before.
\<close>

theorem try_create_allocates:
  assumes "pool_inv p"
  shows "(if card (dom (live p)) < length (p_slots p)
     then try_create p None = (None, p) \<and>
       (\<exists>a p'. try_create p (Some v) = (Some \<lparr>h_pool = True, h_object = a\<rparr>, p') \<and> pool_inv p' \<and>
          a \<noteq> nullptr \<and> live p a = None \<and> live p' = (live p)(a \<mapsto> v))
     else \<exists>p'. try_create p arguments = (Some Handle_empty, p') \<and> pool_inv p' \<and> live p' = live p)"
proof (cases "p_free_head p = kNoSlot p")
  case True
  then have "\<not> card (dom (live p)) < length (p_slots p)"
    using pool_full_in_use [OF assms] card_dom_live [OF assms] by simp
  then show ?thesis
    using True assms by (simp add: try_create_full pool_inv_bump live_stats)
next
  case False
  then have "card (dom (live p)) < length (p_slots p)"
    using pool_full_in_use [OF assms] op.bounded [OF assms] card_dom_live [OF assms] by simp
  then show ?thesis
    using False try_create_throws [OF False] try_create_handle [OF assms, of v]
      create_object_room [OF assms False, of v]
    by (simp add: Let_def)
qed

lemma two_slots_inv: "pool_inv two_slots"
  unfolding two_slots_def by (rule pool_inv_init) simp_all

theorem try_create_allocates_witness:
  "\<exists>a p'. try_create two_slots (Some 5) = (Some \<lparr>h_pool = True, h_object = a\<rparr>, p') \<and>
     live p' a = Some 5"
proof -
  have "card (dom (live two_slots)) < length (p_slots two_slots)"
    unfolding card_dom_live [OF two_slots_inv]
    by (simp add: two_slots_def PoolStats_default_def)
  then show ?thesis using try_create_allocates [OF two_slots_inv, of 5 None] by auto
qed

text \<open>
  C18. \<open>destroy\<close> classifies every pointer correctly and touches nothing but the object named. The
  address of a living object is released and that object alone dies; the address of a free slot is
  reported as a double release, any other pointer, null included, as foreign, and in both cases
  only the counter of invalid releases changes.
\<close>

theorem destroy_classifies:
  assumes "pool_inv p"
  shows "(if live p obj \<noteq> None
     then fst (destroy p obj) = PoolReleaseResult.released \<and>
       live (snd (destroy p obj)) = (live p)(obj := None) \<and> pool_inv (snd (destroy p obj))
     else destroy p obj =
       (if \<exists>i < length (p_slots p). obj = slot_object p i then PoolReleaseResult.double_release
        else PoolReleaseResult.foreign_pointer,
        p\<lparr>p_stats := (p_stats p)\<lparr>ps_invalid_releases := ps_invalid_releases (p_stats p) + 1\<rparr>\<rparr>))"
  using destroy_live(1,2) [OF assms, of obj] destroy_inv [OF assms, of obj]
    destroy_dead [OF assms, of obj] by simp

theorem destroy_classifies_witness:
  "fst (destroy two_slots 4112) = PoolReleaseResult.double_release \<and>
   fst (destroy two_slots 4100) = PoolReleaseResult.foreign_pointer"
proof -
  have none: "live two_slots a = None" for a
    unfolding two_slots_def by (simp add: init_no_objects)
  have "\<exists>i < 2. (4112 :: nat) = 4096 + i * 16" by (intro exI [of _ 1]) simp
  moreover have "\<not> (\<exists>i < 2. (4100 :: nat) = 4096 + i * 16)" by presburger
  moreover have "length (p_slots two_slots) = 2" "slot_object two_slots i = 4096 + i * 16" for i
    by (simp_all add: two_slots_def slot_object_def)
  ultimately show ?thesis
    using destroy_classifies [OF two_slots_inv, of 4112] destroy_classifies [OF two_slots_inv, of 4100]
      none by simp
qed

text \<open>
  Whatever sequence of creations, with and without exceptions, and of releases of arbitrary
  pointers is performed on a fresh pool, its bookkeeping is exact: the number of objects in use is
  the number of living objects, it is at most the high watermark, which is at most the capacity;
  allocations minus releases, in wrapping arithmetic, is the number in use; and the free list
  visits every free slot once and nothing else.
\<close>

lemma pool_stats_exact:
  assumes "0 < capacity" and "0 < base" and "0 < stride"
  shows "let p = pool_run (FixedObjectPool_init capacity base stride) xs; st = pool_stats p in
    outstanding p = card (dom (live p)) \<and> ps_in_use st \<le> ps_high_watermark st \<and>
    ps_high_watermark st \<le> capacity \<and> ps_capacity st = capacity \<and>
    ps_successful_allocations st - ps_successful_releases st = of_nat (ps_in_use st) \<and>
    free_list_ok (p_slots p) (p_free_head p)"
proof -
  let ?p = "pool_run (FixedObjectPool_init capacity base stride) xs"
  have inv: "pool_inv ?p" by (rule pool_run_inv [OF pool_inv_init [OF assms]])
  have "length (p_slots ?p) = capacity" by (simp add: pool_run_length)
  then show ?thesis
    using pool_inv_counters [OF inv] card_dom_live [OF inv] pool_inv_free_list [OF inv]
    by (simp add: Let_def pool_stats_def outstanding_def)
qed

text \<open>
  C17. A program that uses the pool through handles only (creating, resetting, move-constructing and
  move-assigning them, also to themselves, and leaving scopes) never releases an object twice and
  never leaks one: no release is ever invalid, every living object is held by exactly one handle,
  and the number of objects in use is the number of non-empty handles, so the pool is empty once
  all handles are gone.
\<close>

theorem handles_own_objects:
  assumes "0 < capacity" and "0 < base" and "0 < stride"
  shows "let s = handle_run \<lparr>s_pool = FixedObjectPool_init capacity base stride, s_handles = []\<rparr> xs in
    ps_invalid_releases (pool_stats (s_pool s)) = 0 \<and>
    held (s_handles s) = mset_set (dom (live (s_pool s))) \<and>
    outstanding (s_pool s) = size (held (s_handles s))"
proof -
  let ?s = "handle_run \<lparr>s_pool = FixedObjectPool_init capacity base stride, s_handles = []\<rparr> xs"
  have inv: "handles_inv ?s" by (rule handle_run_inv [OF handles_inv_init [OF assms]])
  then have "pool_inv (s_pool ?s)" "owned_by (live (s_pool ?s)) (held (s_handles ?s))"
    by (simp_all add: handles_inv_def)
  then show ?thesis
    using inv op.own_size [of "s_pool ?s"] card_dom_live [of "s_pool ?s"]
    by (simp add: Let_def handles_inv_def pool_stats_def outstanding_def owned_by_def)
qed

theorem handles_own_objects_witness:
  "let s = handle_run \<lparr>s_pool = FixedObjectPool_init 1 8 8, s_handles = []\<rparr>
      [Declare, Create 0 (Some (3 :: nat)), MoveConstruct 0, MoveAssign 1 1] in
    held (s_handles s) = mset_set (dom (live (s_pool s)))"
  using handles_own_objects [of 1 8 8 "[Declare, Create 0 (Some (3 :: nat)), MoveConstruct 0, MoveAssign 1 1]"]
  unfolding Let_def by simp

text \<open>
  The diagnosis of double releases ends when the slot is used again. The slot released last is
  the one handed out next, so an object created right after a release has the address of the dead
  one, and a second release of the stale pointer is accepted and destroys the new object.
\<close>

lemma stale_release_hits_new_object:
  assumes "pool_inv p" and "live p obj \<noteq> None"
  shows "\<exists>p'. try_create (snd (destroy p obj)) (Some v) =
      (Some \<lparr>h_pool = True, h_object = obj\<rparr>, p') \<and>
    live p' = (live p)(obj \<mapsto> v) \<and> fst (destroy p' obj) = PoolReleaseResult.released"
proof -
  have slot: "find_slot p obj \<noteq> kNoSlot p" "sl_occupied (p_slots p ! find_slot p obj)"
    using live_Some_slot [OF assms] by simp_all
  note gone = destroy_object [OF slot]
  let ?d = "snd (destroy p obj)"
  let ?p' = "snd (try_create ?d (Some v))"
  have i: "find_slot p obj < length (p_slots p)" using slot(1) find_slot_le [of p obj] by simp
  have inv: "pool_inv ?d" by (rule destroy_inv [OF assms(1)])
  have head: "p_free_head ?d \<noteq> kNoSlot ?d" using i gone(2,3) by simp
  have addr: "slot_object ?d (p_free_head ?d) = obj"
    using find_slot_found [OF i] gone(3,4,5) by (simp add: slot_object_def)
  have live: "live ?p' = (live p)(obj \<mapsto> v)"
    using create_object_room(3) [OF inv head, of v] destroy_live(2) [OF assms]
    by (simp add: create_object_eq [OF head] addr)
  then have "fst (destroy ?p' obj) = PoolReleaseResult.released"
    using destroy_live(1) [OF try_create_inv [OF inv head, of v], of obj] by simp
  then show ?thesis
    using live try_create_object(1) [OF head, of v] addr by (simp add: prod_eq_iff)
qed

end
