(* ===== verification/Runtime_Metrics.thy ===== *)
theory Runtime_Metrics
  imports Prelude
begin

text \<open>
  The counters of \<open>include/edge_sentinel/runtime/runtime_metrics.hpp\<close>. Each counter is an atomic 64-bit
  number that wraps around; every recording function is one step. The compare-and-exchange loop of
  \<open>record_processed\<close> has a single caller, the control task, so nothing changes the maximum between its
  load and its exchange, and the loop stores the larger of the two values.
\<close>

record RuntimeMetrics =
  mt_events_published :: uint64
  mt_events_processed :: uint64
  mt_events_dropped :: uint64
  mt_transitions :: uint64
  mt_monitor_ticks :: uint64
  mt_last_event_latency_ns :: uint64
  mt_max_event_latency_ns :: uint64

definition RuntimeMetrics_init :: RuntimeMetrics where
  "RuntimeMetrics_init =
     \<lparr>mt_events_published = 0, mt_events_processed = 0, mt_events_dropped = 0, mt_transitions = 0,
      mt_monitor_ticks = 0, mt_last_event_latency_ns = 0, mt_max_event_latency_ns = 0\<rparr>"

definition record_published :: "RuntimeMetrics \<Rightarrow> RuntimeMetrics" where
  "record_published m = m\<lparr>mt_events_published := mt_events_published m + 1\<rparr>"

definition record_processed :: "RuntimeMetrics \<Rightarrow> uint64 \<Rightarrow> RuntimeMetrics" where
  "record_processed m latency_ns =
     (let m = m\<lparr>mt_events_processed := mt_events_processed m + 1\<rparr>;
          m = m\<lparr>mt_last_event_latency_ns := latency_ns\<rparr>;
          observed = mt_max_event_latency_ns m
      in if observed < latency_ns then m\<lparr>mt_max_event_latency_ns := latency_ns\<rparr> else m)"

definition record_dropped :: "RuntimeMetrics \<Rightarrow> RuntimeMetrics" where
  "record_dropped m = m\<lparr>mt_events_dropped := mt_events_dropped m + 1\<rparr>"

definition record_transition :: "RuntimeMetrics \<Rightarrow> RuntimeMetrics" where
  "record_transition m = m\<lparr>mt_transitions := mt_transitions m + 1\<rparr>"

definition record_monitor_tick :: "RuntimeMetrics \<Rightarrow> RuntimeMetrics" where
  "record_monitor_tick m = m\<lparr>mt_monitor_ticks := mt_monitor_ticks m + 1\<rparr>"

record RuntimeMetricsSnapshot =
  events_published :: uint64
  events_processed :: uint64
  events_dropped :: uint64
  transitions :: uint64
  monitor_ticks :: uint64
  last_event_latency_ns :: uint64
  max_event_latency_ns :: uint64

text \<open>The seven loads of \<open>snapshot\<close> are separate: load number \<open>k\<close> finds the counters \<open>m k\<close>.\<close>

definition metrics_snapshot :: "(nat \<Rightarrow> RuntimeMetrics) \<Rightarrow> RuntimeMetricsSnapshot" where
  "metrics_snapshot m =
     \<lparr>events_published = mt_events_published (m 0), events_processed = mt_events_processed (m 1),
      events_dropped = mt_events_dropped (m 2), transitions = mt_transitions (m 3),
      monitor_ticks = mt_monitor_ticks (m 4), last_event_latency_ns = mt_last_event_latency_ns (m 5),
      max_event_latency_ns = mt_max_event_latency_ns (m 6)\<rparr>"

lemma record_simps [simp]:
  "mt_events_published (record_published m) = mt_events_published m + 1"
  "mt_events_processed (record_published m) = mt_events_processed m"
  "mt_events_published (record_processed m l) = mt_events_published m"
  "mt_events_processed (record_processed m l) = mt_events_processed m + 1"
  "mt_events_published (record_dropped m) = mt_events_published m"
  "mt_events_processed (record_dropped m) = mt_events_processed m"
  "mt_events_published (record_transition m) = mt_events_published m"
  "mt_events_processed (record_transition m) = mt_events_processed m"
  "mt_events_published (record_monitor_tick m) = mt_events_published m"
  "mt_events_processed (record_monitor_tick m) = mt_events_processed m"
  by (simp_all add: record_published_def record_processed_def record_dropped_def
      record_transition_def record_monitor_tick_def Let_def)

text \<open>The maximum over any number of processed events is the greatest latency recorded so far.\<close>

lemma record_processed_max:
  "mt_max_event_latency_ns (foldl record_processed m ls) = foldl max (mt_max_event_latency_ns m) ls"
proof (induction ls arbitrary: m)
  case (Cons l ls)
  have "mt_max_event_latency_ns (record_processed m l) = max (mt_max_event_latency_ns m) l"
    by (auto simp: record_processed_def Let_def max_def)
  then show ?case using Cons by simp
qed simp

end
