(* ===== verification/Edge_Runtime.thy ===== *)
theory Edge_Runtime
  imports Motor_FSM Bounded_Queue Object_Pool Runtime_Metrics
begin

text \<open>
  The runtime of \<open>include/edge_sentinel/runtime/edge_runtime.hpp\<close>: any number of threads publish events
  through the object pool and the bounded queue, the control task takes them from the queue, feeds
  the state machine and returns the pool slots, and one thread starts and stops the whole. Every
  critical section, atomic access and pool or queue call is one step; the steps of all threads
  interleave freely. A wait that can end by a timeout may end at any time; the sensor reading, the
  clock and the events of other callers are arbitrary.
\<close>

section \<open>Model\<close>

datatype PublishResult =
    published
  | not_running
  | pool_exhausted
  | queue_full
  | queue_timeout
  | queue_closed

definition kEventPoolCapacity :: nat where
  "kEventPoolCapacity = 256"

definition kEventQueueCapacity :: nat where
  "kEventQueueCapacity = 128"

text \<open>Durations are integers in milliseconds, time points integers in nanoseconds.\<close>

record RuntimeConfig =
  sample_period :: int
  monitor_period :: int
  event_push_timeout :: int
  protection :: ProtectionConfig

definition RuntimeConfig_default :: RuntimeConfig where
  "RuntimeConfig_default =
     \<lparr>sample_period = 100, monitor_period = 1000, event_push_timeout = 10,
      protection = ProtectionConfig_default\<rparr>"

record PooledEvent =
  pe_event :: Event
  pe_created_at :: int

text \<open>
  Where a call of \<open>publish\<close> stands: before the test of \<open>accepting_events_\<close>, before the creation of the
  pool object, before or in \<open>wait_push\<close>, before the release of a handle that was not accepted, before
  one of the two counters, and at the end.
\<close>

datatype pub_pc =
    PIdle
  | PCheck Event
  | PCreate Event
  | PPush Handle
  | PRelease Handle PublishResult
  | PPublished
  | PDropped PublishResult
  | PReturn PublishResult

text \<open>Where the control task stands; it holds the popped handle until the end of the loop body.\<close>

datatype control_pc =
    CNone
  | CPop
  | CHandle Handle
  | CProcessed Handle uint64 bool
  | CTransition Handle
  | CRelease Handle
  | CExit

text \<open>Where \<open>start\<close> and \<open>stop\<close> stand.\<close>

datatype main_pc =
    MInit
  | MStartup
  | MSelfTest
  | MRunning
  | MShutdown
  | MWait
  | MJoin
  | MJoinControl
  | MDone

text \<open>
  The runtime object, its threads, and two history variables: the events the queue has accepted and
  the events the state machine has handled, in order. Publisher 0 is the thread that calls \<open>start\<close>
  and \<open>stop\<close>, publisher 1 is the sensor task, the others are callers from outside.
\<close>

record runtime =
  r_pool :: "PooledEvent FixedObjectPool"
  r_queue :: "Handle BoundedQueue"
  r_machine :: MotorStateMachine
  r_metrics :: RuntimeMetrics
  r_started :: bool
  r_stopped :: bool
  r_accepting :: bool
  r_running :: bool
  r_stop_requested :: bool
  r_pubs :: "pub_pc list"
  r_control :: control_pc
  r_main :: main_pc
  h_accepted :: "Event list"
  h_handled :: "Event list"

definition runtime_init :: "ProtectionConfig \<Rightarrow> nat \<Rightarrow> nat \<Rightarrow> nat \<Rightarrow> runtime" where
  "runtime_init cfg base stride publishers =
     \<lparr>r_pool = FixedObjectPool_init kEventPoolCapacity base stride,
      r_queue = BoundedQueue_init kEventQueueCapacity,
      r_machine = MotorStateMachine_init cfg, r_metrics = RuntimeMetrics_init,
      r_started = False, r_stopped = False, r_accepting = False, r_running = False,
      r_stop_requested = False, r_pubs = replicate publishers PIdle, r_control = CNone,
      r_main = MInit, h_accepted = [], h_handled = []\<rparr>"

text \<open>The event behind a handle.\<close>

definition event_at :: "PooledEvent FixedObjectPool \<Rightarrow> Handle \<Rightarrow> Event" where
  "event_at p h = pe_event (the (live p (h_object h)))"

text \<open>The translation of a refused push into the result of \<open>publish\<close>.\<close>

fun refused :: "QueuePushResult \<Rightarrow> PublishResult" where
  "refused QueuePushResult.full = PublishResult.queue_full"
| "refused QueuePushResult.timeout = PublishResult.queue_timeout"
| "refused _ = PublishResult.queue_closed"

text \<open>
  One step of a call of \<open>publish\<close>, at a time \<open>now\<close>; \<open>expired\<close> says whether the push timeout has passed.
  \<open>None\<close> means that the call has to wait, or is over.
\<close>

fun publish_step :: "runtime \<Rightarrow> int \<Rightarrow> bool \<Rightarrow> pub_pc \<Rightarrow> (pub_pc \<times> runtime) option" where
  "publish_step s now expired PIdle = None"
| "publish_step s now expired (PCheck e) =
     Some (if r_accepting s then PCreate e else PReturn PublishResult.not_running, s)"
| "publish_step s now expired (PCreate e) =
     (case try_create (r_pool s) (Some \<lparr>pe_event = e, pe_created_at = now\<rparr>) of
        (None, p) \<Rightarrow> None
      | (Some h, p) \<Rightarrow>
          Some (if h_object h = nullptr then PDropped PublishResult.pool_exhausted else PPush h,
                s\<lparr>r_pool := p\<rparr>))"
| "publish_step s now expired (PPush h) =
     (case wait_push (r_queue s) h expired of
        None \<Rightarrow> None
      | Some (r, q) \<Rightarrow>
          Some (if r = QueuePushResult.pushed
                then (PPublished, s\<lparr>r_queue := q, h_accepted := h_accepted s @ [event_at (r_pool s) h]\<rparr>)
                else (PRelease h (refused r), s\<lparr>r_queue := q\<rparr>)))"
| "publish_step s now expired (PRelease h r) =
     Some (PDropped r, s\<lparr>r_pool := snd (destroy (r_pool s) (h_object h))\<rparr>)"
| "publish_step s now expired PPublished =
     Some (PReturn PublishResult.published, s\<lparr>r_metrics := record_published (r_metrics s)\<rparr>)"
| "publish_step s now expired (PDropped r) =
     Some (PReturn r, s\<lparr>r_metrics := record_dropped (r_metrics s)\<rparr>)"
| "publish_step s now expired (PReturn r) = None"

text \<open>
  One step of the control task. Dereferencing a handle whose object is not alive is undefined
  behaviour, and then there is no step.
\<close>

fun control_step :: "runtime \<Rightarrow> int \<Rightarrow> control_pc \<Rightarrow> (control_pc \<times> runtime) option" where
  "control_step s now CNone = None"
| "control_step s now CPop =
     (case wait_pop (r_queue s) of
        None \<Rightarrow> None
      | Some (None, q) \<Rightarrow> Some (CExit, s\<lparr>r_queue := q\<rparr>)
      | Some (Some h, q) \<Rightarrow> Some (CHandle h, s\<lparr>r_queue := q\<rparr>))"
| "control_step s now (CHandle h) =
     (case handle_deref (r_pool s) h of
        None \<Rightarrow> None
      | Some pe \<Rightarrow>
          (let latency = word_of_int (now - pe_created_at pe);
               (transition, m) = handle (r_machine s) (pe_event pe)
           in Some (CProcessed h latency (changed transition),
                    s\<lparr>r_machine := m, h_handled := h_handled s @ [pe_event pe]\<rparr>)))"
| "control_step s now (CProcessed h latency ch) =
     Some (if ch then CTransition h else CRelease h,
           s\<lparr>r_metrics := record_processed (r_metrics s) latency\<rparr>)"
| "control_step s now (CTransition h) =
     Some (CRelease h, s\<lparr>r_metrics := record_transition (r_metrics s)\<rparr>)"
| "control_step s now (CRelease h) =
     Some (CPop, s\<lparr>r_pool := snd (destroy (r_pool s) (h_object h))\<rparr>)"
| "control_step s now CExit = None"

definition set_pub :: "runtime \<Rightarrow> nat \<Rightarrow> pub_pc \<Rightarrow> runtime" where
  "set_pub s i pc = s\<lparr>r_pubs := (r_pubs s)[i := pc]\<rparr>"

text \<open>
  The steps of \<open>start\<close>, from its guard on: publishing the two start-up events, one after the other, is
  the work of publisher 0, and the next step is taken when its call has returned.
\<close>

fun returned :: "pub_pc \<Rightarrow> bool" where
  "returned (PReturn r) = True"
| "returned _ = False"

definition start_step :: "runtime \<Rightarrow> runtime option" where
  "start_step s =
     (case r_main s of
        MInit \<Rightarrow>
          if r_started s then None
          else Some (set_pub (s\<lparr>r_started := True, r_accepting := True, r_running := True,
                 r_control := CPop, r_main := MStartup\<rparr>) 0 (PCheck Event_startup))
      | MStartup \<Rightarrow>
          if returned (r_pubs s ! 0)
          then Some (set_pub (s\<lparr>r_main := MSelfTest\<rparr>) 0 (PCheck Event_self_test_passed)) else None
      | MSelfTest \<Rightarrow>
          if returned (r_pubs s ! 0) then Some (set_pub (s\<lparr>r_main := MRunning\<rparr>) 0 PIdle) else None
      | _ \<Rightarrow> None)"

text \<open>
  The steps of \<open>stop\<close>. The wait for the safe state ends when that state is reached or after a second,
  whatever comes first, so it may end in any state of the machine; joining the sensor task waits for
  its last call of \<open>publish\<close>, joining the control task for the end of its loop.
\<close>

definition stop_step :: "runtime \<Rightarrow> runtime option" where
  "stop_step s =
     (case r_main s of
        MRunning \<Rightarrow>
          if \<not> r_started s \<or> r_stopped s then None
          else Some (set_pub (s\<lparr>r_stopped := True, r_main := MShutdown\<rparr>) 0
                 (PCheck Event_shutdown_requested))
      | MShutdown \<Rightarrow>
          if returned (r_pubs s ! 0)
          then Some (set_pub (s\<lparr>r_accepting := False, r_main := MWait\<rparr>) 0 PIdle) else None
      | MWait \<Rightarrow> Some (s\<lparr>r_stop_requested := True, r_main := MJoin\<rparr>)
      | MJoin \<Rightarrow>
          if r_pubs s ! 1 = PIdle
          then Some (s\<lparr>r_queue := close (r_queue s), r_main := MJoinControl\<rparr>) else None
      | MJoinControl \<Rightarrow>
          if r_control s = CExit then Some (s\<lparr>r_running := False, r_main := MDone\<rparr>) else None
      | _ \<Rightarrow> None)"

text \<open>The destructor begins with a call of \<open>stop\<close>.\<close>

definition runtime_destroy :: "runtime \<Rightarrow> runtime option" where
  "runtime_destroy s = stop_step s"

text \<open>
  The sensor task calls \<open>publish\<close> with what it has read, and the monitor task counts its turns; both run
  from the end of \<open>start\<close> until \<open>stop\<close> has joined them. When they do so is the matter of their loops,
  which \<open>Runtime_Tasks\<close> has; here they may do it at any time.
\<close>

definition sensor_step :: "runtime \<Rightarrow> SensorSample \<Rightarrow> runtime option" where
  "sensor_step s reading =
     (if r_main s \<in> {MRunning, MShutdown, MWait, MJoin} \<and> r_pubs s ! 1 = PIdle
      then Some (set_pub s 1 (PCheck (Event_sensor_sample reading))) else None)"

definition monitor_step :: "runtime \<Rightarrow> runtime option" where
  "monitor_step s =
     (if r_main s \<in> {MRunning, MShutdown, MWait, MJoin}
      then Some (s\<lparr>r_metrics := record_monitor_tick (r_metrics s)\<rparr>) else None)"

inductive rt_step :: "runtime \<Rightarrow> runtime \<Rightarrow> bool" where
  publish: "i < length (r_pubs s) \<Longrightarrow> publish_step s now expired (r_pubs s ! i) = Some (pc, s') \<Longrightarrow>
     rt_step s (set_pub s' i pc)"
| call: "2 \<le> i \<Longrightarrow> i < length (r_pubs s) \<Longrightarrow> r_pubs s ! i = PIdle \<Longrightarrow>
     rt_step s (set_pub s i (PCheck e))"
| return: "1 \<le> i \<Longrightarrow> i < length (r_pubs s) \<Longrightarrow> returned (r_pubs s ! i) \<Longrightarrow>
     rt_step s (set_pub s i PIdle)"
| control: "control_step s now (r_control s) = Some (pc, s') \<Longrightarrow> rt_step s (s'\<lparr>r_control := pc\<rparr>)"
| sensor: "sensor_step s reading = Some s' \<Longrightarrow> rt_step s s'"
| monitor: "monitor_step s = Some s' \<Longrightarrow> rt_step s s'"
| start: "start_step s = Some s' \<Longrightarrow> rt_step s s'"
| stop: "stop_step s = Some s' \<Longrightarrow> rt_step s s'"

text \<open>
  The queries. \<open>snapshot\<close> holds the mutex of the state machine only, so its ten reads may find different
  states of the runtime: read number \<open>k\<close> finds the state \<open>s k\<close>.
\<close>

definition running :: "runtime \<Rightarrow> bool" where
  "running s = r_running s"

record RuntimeSnapshot =
  rs_machine :: MachineSnapshot
  rs_metrics :: RuntimeMetricsSnapshot
  rs_pool :: PoolStats
  rs_queue :: QueueStats

definition runtime_snapshot :: "(nat \<Rightarrow> runtime) \<Rightarrow> RuntimeSnapshot" where
  "runtime_snapshot s =
     \<lparr>rs_machine = machine_snapshot (r_machine (s 0)),
      rs_metrics = metrics_snapshot (\<lambda>k. r_metrics (s (k + 1))),
      rs_pool = pool_stats (r_pool (s 8)), rs_queue = queue_stats (r_queue (s 9))\<rparr>"

text \<open>Reachable states, for a given number of publishers and a pool at a given address.\<close>

inductive rt_reachable :: "ProtectionConfig \<Rightarrow> nat \<Rightarrow> nat \<Rightarrow> nat \<Rightarrow> runtime \<Rightarrow> bool"
  for cfg base stride publishers where
  rt_init: "rt_reachable cfg base stride publishers (runtime_init cfg base stride publishers)"
| rt_next: "rt_reachable cfg base stride publishers s \<Longrightarrow> rt_step s t \<Longrightarrow>
     rt_reachable cfg base stride publishers t"

section \<open>Invariant\<close>

text \<open>The pool addresses that each thread and the queue hold.\<close>

fun pub_holds :: "pub_pc \<Rightarrow> pointer multiset" where
  "pub_holds (PPush h) = {#h_object h#}"
| "pub_holds (PRelease h r) = {#h_object h#}"
| "pub_holds _ = {#}"

fun control_holds :: "control_pc \<Rightarrow> pointer multiset" where
  "control_holds (CHandle h) = {#h_object h#}"
| "control_holds (CProcessed h l ch) = {#h_object h#}"
| "control_holds (CTransition h) = {#h_object h#}"
| "control_holds (CRelease h) = {#h_object h#}"
| "control_holds _ = {#}"

definition rt_owners :: "runtime \<Rightarrow> pointer multiset" where
  "rt_owners s =
     sum_list (map pub_holds (r_pubs s)) + mset (map h_object (queue_items (r_queue s))) +
     control_holds (r_control s)"

text \<open>The event the control task has taken from the queue and not yet handled.\<close>

fun control_event :: "PooledEvent FixedObjectPool \<Rightarrow> control_pc \<Rightarrow> Event list" where
  "control_event p (CHandle h) = [event_at p h]"
| "control_event p _ = []"

fun is_published :: "pub_pc \<Rightarrow> bool" where
  "is_published PPublished = True"
| "is_published _ = False"

fun is_processed :: "control_pc \<Rightarrow> bool" where
  "is_processed (CProcessed h l ch) = True"
| "is_processed _ = False"

definition rt_resources :: "runtime \<Rightarrow> bool" where
  "rt_resources s \<longleftrightarrow>
     pool_inv (r_pool s) \<and> length (p_slots (r_pool s)) = kEventPoolCapacity \<and>
     queue_inv (r_queue s) \<and> Capacity (r_queue s) = kEventQueueCapacity \<and>
     owned_by (live (r_pool s)) (rt_owners s) \<and> ps_invalid_releases (p_stats (r_pool s)) = 0"

definition rt_order :: "ProtectionConfig \<Rightarrow> runtime \<Rightarrow> bool" where
  "rt_order cfg s \<longleftrightarrow>
     h_accepted s = h_handled s @ control_event (r_pool s) (r_control s) @
       map (event_at (r_pool s)) (queue_items (r_queue s)) \<and>
     r_machine s = machine_run (MotorStateMachine_init cfg) (h_handled s)"

definition rt_counters :: "runtime \<Rightarrow> bool" where
  "rt_counters s \<longleftrightarrow>
     mt_events_published (r_metrics s) + of_nat (count_if is_published (r_pubs s)) =
       of_nat (length (h_accepted s)) \<and>
     mt_events_processed (r_metrics s) + of_bool (is_processed (r_control s)) =
       of_nat (length (h_handled s))"

definition rt_phases :: "runtime \<Rightarrow> bool" where
  "rt_phases s \<longleftrightarrow>
     (q_closed (r_queue s) \<longleftrightarrow> r_main s \<in> {MJoinControl, MDone}) \<and>
     (r_control s = CExit \<longrightarrow> q_closed (r_queue s) \<and> queue_items (r_queue s) = []) \<and>
     (r_main s = MDone \<longrightarrow> r_control s = CExit) \<and>
     (r_control s = CNone \<longleftrightarrow> r_main s = MInit) \<and> 2 \<le> length (r_pubs s) \<and>
     (r_main s \<in> {MInit, MRunning, MWait, MJoin, MJoinControl, MDone} \<longrightarrow> r_pubs s ! 0 = PIdle) \<and>
     (r_main s \<in> {MInit, MJoinControl, MDone} \<longrightarrow> r_pubs s ! 1 = PIdle) \<and>
     (r_accepting s \<longleftrightarrow> r_main s \<in> {MStartup, MSelfTest, MRunning, MShutdown}) \<and>
     (r_running s \<longleftrightarrow> r_main s \<notin> {MInit, MDone}) \<and>
     (r_started s \<longleftrightarrow> r_main s \<noteq> MInit) \<and>
     (r_stopped s \<longleftrightarrow> r_main s \<in> {MShutdown, MWait, MJoin, MJoinControl, MDone}) \<and>
     (r_stop_requested s \<longleftrightarrow> r_main s \<in> {MJoin, MJoinControl, MDone})"

definition rt_inv :: "ProtectionConfig \<Rightarrow> runtime \<Rightarrow> bool" where
  "rt_inv cfg s \<longleftrightarrow> rt_resources s \<and> rt_order cfg s \<and> rt_counters s \<and> rt_phases s"

section \<open>Progress and runs\<close>

text \<open>A thread that neither holds a handle nor owes a count may change its place freely.\<close>

definition quiet :: "pub_pc \<Rightarrow> bool" where
  "quiet pc \<longleftrightarrow> pub_holds pc = {#} \<and> \<not> is_published pc"

text \<open>What is left to do for the control task once the queue is closed, and for a call of \<open>publish\<close>.\<close>

fun control_rank :: "control_pc \<Rightarrow> nat" where
  "control_rank CPop = 1"
| "control_rank (CHandle h) = 5"
| "control_rank (CProcessed h l ch) = 4"
| "control_rank (CTransition h) = 3"
| "control_rank (CRelease h) = 2"
| "control_rank _ = 0"

definition drain_rank :: "runtime \<Rightarrow> nat" where
  "drain_rank s = 6 * length (queue_items (r_queue s)) + control_rank (r_control s)"

fun publish_rank :: "pub_pc \<Rightarrow> nat" where
  "publish_rank (PCheck e) = 5"
| "publish_rank (PCreate e) = 4"
| "publish_rank (PPush h) = 3"
| "publish_rank (PRelease h r) = 2"
| "publish_rank PPublished = 1"
| "publish_rank (PDropped r) = 1"
| "publish_rank _ = 0"

text \<open>
  Where everything has come to rest: the runtime is stopped and no call of \<open>publish\<close> is under way.
\<close>

definition all_idle :: "runtime \<Rightarrow> bool" where
  "all_idle s \<longleftrightarrow> (\<forall>pc \<in> set (r_pubs s). pc = PIdle)"

text \<open>A step of publisher \<open>i\<close> in a call of \<open>publish\<close>.\<close>

definition own_step :: "nat \<Rightarrow> runtime \<Rightarrow> runtime \<Rightarrow> bool" where
  "own_step i s t \<longleftrightarrow>
     i < length (r_pubs s) \<and>
     (\<exists>now expired pc s'. publish_step s now expired (r_pubs s ! i) = Some (pc, s') \<and> t = set_pub s' i pc)"

text \<open>Two states that differ in the work of the publishers only.\<close>

definition same_phase :: "runtime \<Rightarrow> runtime \<Rightarrow> bool" where
  "same_phase s t \<longleftrightarrow>
     r_control t = r_control s \<and> r_main t = r_main s \<and> h_handled t = h_handled s \<and>
     r_accepting t = r_accepting s \<and> q_closed (r_queue t) = q_closed (r_queue s)"

text \<open>What the queue accepts of an event that is offered to it.\<close>

definition offered :: "runtime \<Rightarrow> Event \<Rightarrow> Event list" where
  "offered s e = (if length (queue_items (r_queue s)) < kEventQueueCapacity then [e] else [])"

text \<open>
  Runs in which the control task does not get to run until the queue is closed: its state, with the
  events the queue has accepted so far.
\<close>

definition stalled :: "ProtectionConfig \<Rightarrow> main_pc \<Rightarrow> Event list \<Rightarrow> runtime \<Rightarrow> bool" where
  "stalled cfg m es s \<longleftrightarrow>
     rt_inv cfg s \<and> r_main s = m \<and> r_control s = CPop \<and> h_handled s = [] \<and> h_accepted s = es"

definition accept_one :: "Event list \<Rightarrow> Event \<Rightarrow> Event list" where
  "accept_one es e = (if length es < kEventQueueCapacity then es @ [e] else es)"

abbreviation publishing :: "main_pc set" where
  "publishing \<equiv> {MStartup, MSelfTest, MRunning, MShutdown}"

section \<open>Bookkeeping\<close>

lemma pubs_update:
  "i < length ps \<Longrightarrow>
     sum_list (map pub_holds (ps[i := pc])) + pub_holds (ps ! i) =
     sum_list (map pub_holds ps) + pub_holds pc"
  by (rule sum_list_update_add)

lemma quiet_simps [simp]:
  "quiet PIdle" "quiet (PCheck e)" "quiet (PCreate e)" "quiet (PDropped r)" "quiet (PReturn r)"
  by (simp_all add: quiet_def)

lemma quiet_update:
  assumes "i < length ps" and "quiet (ps ! i)" and "quiet pc"
  shows "sum_list (map pub_holds (ps[i := pc])) = sum_list (map pub_holds ps)"
    and "count_if is_published (ps[i := pc]) = count_if is_published ps"
  using pubs_update [OF assms(1), of pc] count_if_update [OF assms(1), of is_published pc] assms(2,3)
  by (simp_all add: quiet_def)

lemma set_pub_simps [simp]:
  "r_pool (set_pub s i pc) = r_pool s" "r_queue (set_pub s i pc) = r_queue s"
  "r_machine (set_pub s i pc) = r_machine s" "r_metrics (set_pub s i pc) = r_metrics s"
  "r_accepting (set_pub s i pc) = r_accepting s"
  "r_pubs (set_pub s i pc) = (r_pubs s)[i := pc]" "r_control (set_pub s i pc) = r_control s"
  "r_main (set_pub s i pc) = r_main s" "h_accepted (set_pub s i pc) = h_accepted s"
  "h_handled (set_pub s i pc) = h_handled s"
  by (simp_all add: set_pub_def)

text \<open>Steps that leave the pool, the queue, the machine and the accounts alone.\<close>

lemma rt_inv_frame:
  assumes "rt_inv cfg s" and "r_pool t = r_pool s" and "r_queue t = r_queue s"
    and "r_machine t = r_machine s" and "h_accepted t = h_accepted s" and "h_handled t = h_handled s"
    and "mt_events_published (r_metrics t) = mt_events_published (r_metrics s)"
    and "mt_events_processed (r_metrics t) = mt_events_processed (r_metrics s)"
    and "sum_list (map pub_holds (r_pubs t)) = sum_list (map pub_holds (r_pubs s))"
    and "count_if is_published (r_pubs t) = count_if is_published (r_pubs s)"
    and "r_control t = r_control s \<or> r_control s = CNone \<and> r_control t = CPop"
    and "rt_phases t"
  shows "rt_inv cfg t"
  using assms
  by (elim disjE)
     (simp_all add: rt_inv_def rt_resources_def rt_order_def rt_counters_def rt_owners_def)

lemma rt_inv_quiet:
  assumes "rt_inv cfg s" and "i < length (r_pubs s)" and "quiet (r_pubs s ! i)" and "quiet pc"
    and "r_pool t = r_pool s" and "r_queue t = r_queue s"
    and "r_machine t = r_machine s" and "h_accepted t = h_accepted s" and "h_handled t = h_handled s"
    and "mt_events_published (r_metrics t) = mt_events_published (r_metrics s)"
    and "mt_events_processed (r_metrics t) = mt_events_processed (r_metrics s)"
    and "r_pubs t = (r_pubs s)[i := pc]"
    and "r_control t = r_control s \<or> r_control s = CNone \<and> r_control t = CPop"
    and "rt_phases t"
  shows "rt_inv cfg t"
  using rt_inv_frame [OF assms(1,5-11) _ _ assms(13,14)] quiet_update [OF assms(2-4)] assms(12)
  by simp

lemma rt_invD:
  assumes "rt_inv cfg s"
  shows "pool_inv (r_pool s)" and "queue_inv (r_queue s)"
    and "length (p_slots (r_pool s)) = kEventPoolCapacity"
    and "Capacity (r_queue s) = kEventQueueCapacity"
    and "owned_by (live (r_pool s)) (rt_owners s)"
    and "ps_invalid_releases (p_stats (r_pool s)) = 0"
    and "h_accepted s = h_handled s @ control_event (r_pool s) (r_control s) @
       map (event_at (r_pool s)) (queue_items (r_queue s))"
    and "r_machine s = machine_run (MotorStateMachine_init cfg) (h_handled s)"
    and "rt_counters s" and "rt_phases s"
  using assms by (simp_all add: rt_inv_def rt_resources_def rt_order_def)

text \<open>Events behind handles that stay alive do not change.\<close>

lemma queue_events_stable:
  assumes "\<And>h. h \<in> set hs \<Longrightarrow> live p' (h_object h) = live p (h_object h)"
  shows "map (event_at p') hs = map (event_at p) hs"
  using assms by (simp add: event_at_def)

lemma control_event_stable:
  assumes "\<And>a. a \<in># control_holds pc \<Longrightarrow> live p' a = live p a"
  shows "control_event p' pc = control_event p pc"
  using assms by (cases pc) (simp_all add: event_at_def)

lemma rt_order_pool:
  assumes "rt_order cfg s" and "r_queue t = r_queue s" and "r_machine t = r_machine s"
    and "h_accepted t = h_accepted s" and "h_handled t = h_handled s"
    and "control_event (r_pool s) (r_control t) = control_event (r_pool s) (r_control s)"
    and "\<And>a. a \<in># mset (map h_object (queue_items (r_queue s))) + control_holds (r_control t) \<Longrightarrow>
      live (r_pool t) a = live (r_pool s) a"
  shows "rt_order cfg t"
proof -
  have "map (event_at (r_pool t)) (queue_items (r_queue s)) =
      map (event_at (r_pool s)) (queue_items (r_queue s))"
    using assms(7) by (intro queue_events_stable) auto
  moreover have "control_event (r_pool t) (r_control t) = control_event (r_pool s) (r_control t)"
    using assms(7) by (intro control_event_stable) auto
  ultimately show ?thesis using assms(1-6) by (simp add: rt_order_def)
qed

section \<open>The phases\<close>

lemma set_pub_flags [simp]:
  "r_started (set_pub s i pc) = r_started s" "r_stopped (set_pub s i pc) = r_stopped s"
  "r_running (set_pub s i pc) = r_running s"
  "r_stop_requested (set_pub s i pc) = r_stop_requested s"
  by (simp_all add: set_pub_def)

text \<open>What a publisher's step leaves alone.\<close>

lemma publish_step_frame:
  assumes "publish_step s now expired pc = Some (pc', s')"
  shows "r_pubs s' = r_pubs s \<and> r_control s' = r_control s \<and> r_main s' = r_main s \<and>
    r_started s' = r_started s \<and> r_stopped s' = r_stopped s \<and> r_accepting s' = r_accepting s \<and>
    r_running s' = r_running s \<and> r_stop_requested s' = r_stop_requested s \<and>
    q_closed (r_queue s') = q_closed (r_queue s) \<and> pc \<noteq> PIdle \<and> \<not> returned pc"
proof (cases pc)
  case (PCreate e)
  then show ?thesis using assms by (auto split: option.splits prod.splits)
next
  case (PPush h)
  then obtain r q where q: "wait_push (r_queue s) h expired = Some (r, q)"
    using assms by (auto split: option.splits)
  then show ?thesis
    using assms PPush bq.put_frame [OF q] by (auto split: if_splits)
qed (use assms in auto)

text \<open>A publisher's step cannot put anything into a closed queue.\<close>

lemma publish_step_closed:
  assumes "rt_inv cfg s" and "publish_step s now expired pc = Some (pc', s')"
    and "q_closed (r_queue s)"
  shows "queue_items (r_queue s') = queue_items (r_queue s)"
proof (cases pc)
  case (PCreate e)
  then show ?thesis using assms(2) by (auto split: option.splits prod.splits)
next
  case (PPush h)
  then obtain r q where q: "wait_push (r_queue s) h expired = Some (r, q)"
    using assms(2) by (auto split: option.splits)
  then show ?thesis
    using assms(2) PPush bq.put_closed [OF rt_invD(2) [OF assms(1)] assms(3) q] by (auto split: if_splits)
qed (use assms(2) in auto)

lemma phases_publish:
  assumes inv: "rt_inv cfg s" and "i < length (r_pubs s)"
    and step: "publish_step s now expired (r_pubs s ! i) = Some (pc, s')"
  shows "rt_phases (set_pub s' i pc)"
proof -
  note fr = publish_step_frame [OF step]
  have ph: "rt_phases s" using inv by (simp add: rt_inv_def)
  have items: "q_closed (r_queue s) \<longrightarrow> queue_items (r_queue s') = queue_items (r_queue s)"
    using publish_step_closed [OF inv step] by blast
  have idle: "(r_pubs s)[i := pc] ! j = PIdle" if "r_pubs s ! j = PIdle" for j
    using that fr by (cases "i = j") auto
  show ?thesis
    using ph fr items idle [of 0] idle [of 1] by (cases "r_main s") (auto simp: rt_phases_def)
qed

text \<open>What a step of the control task leaves alone, and when it ends.\<close>

lemma control_step_frame:
  assumes "control_step s now pc = Some (pc', s')"
  shows "r_pubs s' = r_pubs s \<and> r_main s' = r_main s \<and>
    r_started s' = r_started s \<and> r_stopped s' = r_stopped s \<and> r_accepting s' = r_accepting s \<and>
    r_running s' = r_running s \<and> r_stop_requested s' = r_stop_requested s \<and>
    q_closed (r_queue s') = q_closed (r_queue s) \<and> pc \<noteq> CNone \<and> pc \<noteq> CExit \<and> pc' \<noteq> CNone \<and>
    h_accepted s' = h_accepted s"
proof (cases pc)
  case CPop
  then obtain g q where q: "wait_pop (r_queue s) = Some (g, q)"
    using assms by (auto split: option.splits)
  then show ?thesis
    using assms CPop bq.get_frame [OF q] by (auto split: option.splits)
next
  case (CHandle h)
  then show ?thesis using assms by (auto simp: Let_def split: option.splits prod.splits)
qed (use assms in \<open>auto split: if_splits\<close>)

lemma control_step_exit:
  assumes "rt_inv cfg s" and "control_step s now pc = Some (CExit, s')"
  shows "q_closed (r_queue s') \<and> queue_items (r_queue s') = []"
proof (cases pc)
  case CPop
  then obtain q where q: "wait_pop (r_queue s) = Some (None, q)" "s' = s\<lparr>r_queue := q\<rparr>"
    using assms(2) by (auto split: option.splits)
  then show ?thesis using bq.get_end [OF rt_invD(2) [OF assms(1)] q(1)] by simp
qed (use assms(2) in \<open>auto simp: Let_def split: option.splits prod.splits if_splits\<close>)

lemma phases_control:
  assumes inv: "rt_inv cfg s" and step: "control_step s now (r_control s) = Some (pc, s')"
  shows "rt_phases (s'\<lparr>r_control := pc\<rparr>)"
proof -
  have ph: "rt_phases s" using inv by (simp add: rt_inv_def)
  have "pc = CExit \<longrightarrow> q_closed (r_queue s') \<and> queue_items (r_queue s') = []"
    using control_step_exit [OF inv] step by blast
  then show ?thesis
    using ph control_step_frame [OF step] by (cases "r_main s") (auto simp: rt_phases_def)
qed

lemma returned_not_idle: "returned pc \<Longrightarrow> pc \<noteq> PIdle"
  by auto

lemma returned_quiet: "returned pc \<Longrightarrow> quiet pc"
  by (cases pc) simp_all

lemma update_first: "2 \<le> length xs \<Longrightarrow> xs[0 := x] ! 0 = x"
  by (cases xs) simp_all

lemma phases_lifecycle:
  assumes ph: "rt_phases s" and step: "start_step s = Some t \<or> stop_step s = Some t"
  shows "rt_phases t"
  using step
proof
  assume "start_step s = Some t"
  then show ?thesis
    using ph
    by (cases "r_main s")
       (auto simp: start_step_def rt_phases_def set_pub_def update_first split: if_splits)
next
  assume "stop_step s = Some t"
  then show ?thesis
    using ph
    by (cases "r_main s")
       (auto simp: stop_step_def rt_phases_def set_pub_def update_first split: if_splits)
qed

section \<open>The steps keep the invariant\<close>

lemma rt_invI:
  "rt_resources s \<Longrightarrow> rt_order cfg s \<Longrightarrow> rt_counters s \<Longrightarrow> rt_phases s \<Longrightarrow> rt_inv cfg s"
  by (simp add: rt_inv_def)

lemma inv_create:
  assumes inv: "rt_inv cfg s" and i: "i < length (r_pubs s)" and pc: "r_pubs s ! i = PCreate e"
    and step: "publish_step s now expired (PCreate e) = Some (pc', s')"
  shows "rt_inv cfg (set_pub s' i pc')"
proof -
  let ?v = "\<lparr>pe_event = e, pe_created_at = now\<rparr>"
  define a p where "a = fst (create_object (r_pool s) ?v)" and "p = snd (create_object (r_pool s) ?v)"
  note D = rt_invD [OF inv]
  have create: "create_object (r_pool s) ?v = (a, p)" by (simp add: a_def p_def)
  have s': "s' = s\<lparr>r_pool := p\<rparr>"
    "pc' = (if a = nullptr then PDropped PublishResult.pool_exhausted
            else PPush \<lparr>h_pool = (a \<noteq> nullptr), h_object = a\<rparr>)"
    using step by (simp_all add: try_create_handle [OF D(1)] create Let_def split: if_splits)
  note own = op.own_create [OF D(1,5) create]
  have owners: "rt_owners (set_pub s' i pc') = (if a = nullptr then rt_owners s else add_mset a (rt_owners s))"
    using pubs_update [OF i, of pc'] pc s' by (cases "a = nullptr") (simp_all add: rt_owners_def)
  have keeps: "live p b = live (r_pool s) b" if "b \<in># rt_owners s" for b
    using op.create_keeps [OF D(1) create, of b] op.owner_not_null [OF D(1,5) that] by blast
  show ?thesis
  proof (rule rt_invI)
    show "rt_resources (set_pub s' i pc')"
      unfolding rt_resources_def owners using own D(2,3,4,6) s'(1)
      by (elim conjE, intro conjI) (simp; fail | simp, assumption)+
    show "rt_order cfg (set_pub s' i pc')"
    proof (rule rt_order_pool [of cfg s])
      fix b
      assume "b \<in># mset (map h_object (queue_items (r_queue s))) + control_holds (r_control (set_pub s' i pc'))"
      then have "b \<in># rt_owners s" using s'(1) by (auto simp: rt_owners_def)
      then show "live (r_pool (set_pub s' i pc')) b = live (r_pool s) b" using keeps s'(1) by simp
    qed (use inv s'(1) in \<open>simp_all add: rt_inv_def\<close>)
    show "rt_counters (set_pub s' i pc')"
      using D(9) count_if_update [OF i, of is_published pc'] pc s'
      by (cases "a = nullptr") (simp_all add: rt_counters_def)
    show "rt_phases (set_pub s' i pc')"
      using phases_publish [OF inv i] pc step by simp
  qed
qed

lemma inv_push:
  assumes inv: "rt_inv cfg s" and i: "i < length (r_pubs s)" and pc: "r_pubs s ! i = PPush h"
    and step: "publish_step s now expired (PPush h) = Some (pc', s')"
  shows "rt_inv cfg (set_pub s' i pc')"
proof -
  note D = rt_invD [OF inv]
  obtain r q where q: "wait_push (r_queue s) h expired = Some (r, q)"
    and s': "(pc', s') = (if r = QueuePushResult.pushed
       then (PPublished, s\<lparr>r_queue := q, h_accepted := h_accepted s @ [event_at (r_pool s) h]\<rparr>)
       else (PRelease h (refused r), s\<lparr>r_queue := q\<rparr>))"
    using step by (auto split: option.splits)
  note fr = bq.put_frame [OF q]
  have phases: "rt_phases (set_pub s' i pc')"
    using phases_publish [OF inv i] pc step by simp
  show ?thesis
  proof (cases "r = QueuePushResult.pushed")
    case True
    have new: "queue_inv q" "queue_items q = queue_items (r_queue s) @ [h]"
      using bq.put_pushed [OF D(2)] q True by simp_all
    have eq: "pc' = PPublished"
      "s' = s\<lparr>r_queue := q, h_accepted := h_accepted s @ [event_at (r_pool s) h]\<rparr>"
      using s' True by simp_all
    have owners: "rt_owners (set_pub s' i pc') = rt_owners s"
      using pubs_update [OF i, of pc'] pc new(2) eq by (simp add: rt_owners_def)
    show ?thesis
    proof (rule rt_invI)
      show "rt_resources (set_pub s' i pc')"
        unfolding rt_resources_def owners using new(1) fr D(1,3,4,5,6) eq by simp
      show "rt_order cfg (set_pub s' i pc')"
        using D(7,8) new(2) eq by (simp add: rt_order_def)
      show "rt_counters (set_pub s' i pc')"
        using D(9) count_if_update [OF i, of is_published pc'] pc eq
        by (simp add: rt_counters_def algebra_simps)
    qed (rule phases)
  next
    case False
    have new: "queue_inv q" "queue_items q = queue_items (r_queue s)"
      using bq.put_refused [OF D(2) q False] by simp_all
    have eq: "pc' = PRelease h (refused r)" "s' = s\<lparr>r_queue := q\<rparr>" using s' False by simp_all
    have owners: "rt_owners (set_pub s' i pc') = rt_owners s"
      using pubs_update [OF i, of pc'] pc new(2) eq by (simp add: rt_owners_def)
    show ?thesis
    proof (rule rt_invI)
      show "rt_resources (set_pub s' i pc')"
        unfolding rt_resources_def owners using new(1) fr D(1,3,4,5,6) eq by simp
      show "rt_order cfg (set_pub s' i pc')"
        using D(7,8) new(2) eq by (simp add: rt_order_def)
      show "rt_counters (set_pub s' i pc')"
        using D(9) count_if_update [OF i, of is_published pc'] pc eq by (simp add: rt_counters_def)
    qed (rule phases)
  qed
qed

text \<open>A thread that holds a handle gives the slot back: for a publisher and for the control task.\<close>

lemma inv_release:
  assumes inv: "rt_inv cfg s" and owners: "rt_owners s = add_mset a (rt_owners t)"
    and pool: "r_pool t = snd (destroy (r_pool s) a)"
    and same: "r_queue t = r_queue s" "r_machine t = r_machine s" "r_metrics t = r_metrics s"
      "h_accepted t = h_accepted s" "h_handled t = h_handled s"
    and counts: "count_if is_published (r_pubs t) = count_if is_published (r_pubs s)"
      "is_processed (r_control t) = is_processed (r_control s)"
    and event: "control_event (r_pool s) (r_control t) = control_event (r_pool s) (r_control s)"
    and phases: "rt_phases t"
  shows "rt_inv cfg t"
proof -
  note D = rt_invD [OF inv]
  have mem: "a \<in># rt_owners s" by (simp add: owners)
  obtain r where d: "destroy (r_pool s) a = (r, r_pool t)" using pool by (metis prod.collapse)
  note own = op.own_dispose [OF D(1,5) mem d]
  have rest: "rt_owners s - {#a#} = rt_owners t" by (simp add: owners)
  show ?thesis
  proof (rule rt_invI)
    show "rt_resources t"
      unfolding rt_resources_def using own D(2,3,4,6) same(1) rest
      by (elim conjE, intro conjI) (simp; fail | simp only: rest)+
    show "rt_order cfg t"
    proof (rule rt_order_pool [of cfg s])
      fix b
      assume "b \<in># mset (map h_object (queue_items (r_queue s))) + control_holds (r_control t)"
      then have "b \<in># rt_owners t" using same(1) by (auto simp: rt_owners_def)
      then have "b \<noteq> a" using op.own_others [OF D(1,5) mem, of b] by (simp add: owners)
      then show "live (r_pool t) b = live (r_pool s) b" using own by simp
    qed (use inv same event in \<open>simp_all add: rt_inv_def\<close>)
    show "rt_counters t" using D(9) same counts by (simp add: rt_counters_def)
  qed (rule phases)
qed


text \<open>The other steps of a publisher.\<close>

lemma inv_publish:
  assumes inv: "rt_inv cfg s" and i: "i < length (r_pubs s)"
    and step: "publish_step s now expired (r_pubs s ! i) = Some (pc', s')"
  shows "rt_inv cfg (set_pub s' i pc')"
proof -
  note phases = phases_publish [OF inv i step]
  note upd = pubs_update [OF i, of pc'] count_if_update [OF i, of is_published pc']
  show ?thesis
  proof (cases "r_pubs s ! i")
    case (PCheck e)
    then have "s' = s" "quiet pc'" using step by (auto split: if_splits)
    then show ?thesis
      using PCheck phases by (intro rt_inv_quiet [OF inv i, of pc']) simp_all
  next
    case (PCreate e)
    then show ?thesis using inv_create [OF inv i] step by simp
  next
    case (PPush h)
    then show ?thesis using inv_push [OF inv i] step by simp
  next
    case (PRelease h r)
    then have s': "pc' = PDropped r" "s' = s\<lparr>r_pool := snd (destroy (r_pool s) (h_object h))\<rparr>"
      using step by simp_all
    show ?thesis
      using s' upd PRelease phases
      by (intro inv_release [OF inv, of "h_object h"]) (simp_all add: rt_owners_def)
  next
    case PPublished
    then have s': "pc' = PReturn PublishResult.published"
      "s' = s\<lparr>r_metrics := record_published (r_metrics s)\<rparr>"
      using step by simp_all
    have counts: "rt_counters (set_pub s' i pc')"
      using rt_invD(9) [OF inv] upd(2) s' PPublished
      by (simp add: rt_counters_def record_published_def add.assoc flip: of_nat_Suc)
    have "rt_resources (set_pub s' i pc') \<and> rt_order cfg (set_pub s' i pc')"
      using inv s' upd(1) PPublished
      by (simp add: rt_inv_def rt_resources_def rt_order_def rt_owners_def)
    then show ?thesis using counts phases by (simp add: rt_inv_def)
  next
    case (PDropped r)
    then have s': "pc' = PReturn r" "s' = s\<lparr>r_metrics := record_dropped (r_metrics s)\<rparr>"
      using step by simp_all
    then show ?thesis
      using PDropped phases
      by (intro rt_inv_quiet [OF inv i, of pc']) (simp_all add: record_dropped_def)
  qed (use step in simp_all)
qed


lemma inv_pop:
  assumes inv: "rt_inv cfg s" and pc: "r_control s = CPop"
    and step: "control_step s now CPop = Some (pc', s')"
  shows "rt_inv cfg (s'\<lparr>r_control := pc'\<rparr>)"
proof -
  note D = rt_invD [OF inv]
  have phases: "rt_phases (s'\<lparr>r_control := pc'\<rparr>)" using phases_control [OF inv] pc step by simp
  obtain g q where q: "wait_pop (r_queue s) = Some (g, q)" using step by (auto split: option.splits)
  have s': "s' = s\<lparr>r_queue := q\<rparr>" "pc' = (case g of None \<Rightarrow> CExit | Some h \<Rightarrow> CHandle h)"
    using step q by (auto split: option.splits)
  note fr = bq.get_frame [OF q]
  show ?thesis
  proof (cases g)
    case None
    then have "queue_inv q" "queue_items (r_queue s) = []" "queue_items q = []"
      using bq.get_end [OF D(2)] q D(2) by simp_all
    then have "rt_resources (s'\<lparr>r_control := pc'\<rparr>) \<and> rt_order cfg (s'\<lparr>r_control := pc'\<rparr>) \<and>
        rt_counters (s'\<lparr>r_control := pc'\<rparr>)"
      using inv s' None pc fr
      by (simp add: rt_inv_def rt_resources_def rt_order_def rt_counters_def rt_owners_def)
    then show ?thesis using phases by (simp add: rt_inv_def)
  next
    case (Some h)
    then have "queue_inv q" "queue_items (r_queue s) = h # queue_items q"
      using bq.get_value [OF D(2)] q by simp_all
    then have "rt_resources (s'\<lparr>r_control := pc'\<rparr>) \<and> rt_order cfg (s'\<lparr>r_control := pc'\<rparr>) \<and>
        rt_counters (s'\<lparr>r_control := pc'\<rparr>)"
      using inv s' Some pc fr
      by (simp add: rt_inv_def rt_resources_def rt_order_def rt_counters_def rt_owners_def)
    then show ?thesis using phases by (simp add: rt_inv_def)
  qed
qed

lemma machine_run_snoc:
  "machine_run m (es @ [e]) = snd (handle (machine_run m es) e)"
  by (simp add: machine_run_foldl machine_step_def)

lemma inv_control:
  assumes inv: "rt_inv cfg s" and step: "control_step s now (r_control s) = Some (pc', s')"
  shows "rt_inv cfg (s'\<lparr>r_control := pc'\<rparr>)"
proof -
  note D = rt_invD [OF inv]
  note phases = phases_control [OF inv step]
  show ?thesis
  proof (cases "r_control s")
    case CPop
    then show ?thesis using inv_pop [OF inv] step by simp
  next
    case (CHandle h)
    then obtain pe tr m where pe: "live (r_pool s) (h_object h) = Some pe"
      and m: "handle (r_machine s) (pe_event pe) = (tr, m)"
      and s': "s' = s\<lparr>r_machine := m, h_handled := h_handled s @ [pe_event pe]\<rparr>"
        "pc' = CProcessed h (word_of_int (now - pe_created_at pe)) (changed tr)"
      using step by (auto simp: Let_def split: option.splits prod.splits)
    have "event_at (r_pool s) h = pe_event pe" by (simp add: event_at_def pe)
    then have "rt_order cfg (s'\<lparr>r_control := pc'\<rparr>)"
      using D(7,8) CHandle m s' by (simp add: rt_order_def machine_run_snoc)
    moreover have "rt_resources (s'\<lparr>r_control := pc'\<rparr>) \<and> rt_counters (s'\<lparr>r_control := pc'\<rparr>)"
      using inv s' CHandle
      by (simp add: rt_inv_def rt_resources_def rt_counters_def rt_owners_def)
    ultimately show ?thesis using phases by (simp add: rt_inv_def)
  next
    case (CProcessed h l ch)
    then have s': "s' = s\<lparr>r_metrics := record_processed (r_metrics s) l\<rparr>"
      "pc' = (if ch then CTransition h else CRelease h)"
      using step by simp_all
    then have "rt_resources (s'\<lparr>r_control := pc'\<rparr>) \<and> rt_order cfg (s'\<lparr>r_control := pc'\<rparr>) \<and>
        rt_counters (s'\<lparr>r_control := pc'\<rparr>)"
      using inv CProcessed
      by (cases ch)
        (simp_all add: rt_inv_def rt_resources_def rt_order_def rt_counters_def rt_owners_def)
    then show ?thesis using phases by (simp add: rt_inv_def)
  next
    case (CTransition h)
    then have s': "s' = s\<lparr>r_metrics := record_transition (r_metrics s)\<rparr>" "pc' = CRelease h"
      using step by simp_all
    then have "rt_resources (s'\<lparr>r_control := pc'\<rparr>) \<and> rt_order cfg (s'\<lparr>r_control := pc'\<rparr>) \<and>
        rt_counters (s'\<lparr>r_control := pc'\<rparr>)"
      using inv CTransition
      by (simp add: rt_inv_def rt_resources_def rt_order_def rt_counters_def rt_owners_def
          record_transition_def)
    then show ?thesis using phases by (simp add: rt_inv_def)
  next
    case (CRelease h)
    then have s': "s' = s\<lparr>r_pool := snd (destroy (r_pool s) (h_object h))\<rparr>" "pc' = CPop"
      using step by simp_all
    then show ?thesis
      using CRelease phases
      by (intro inv_release [OF inv, of "h_object h"]) (simp_all add: rt_owners_def)
  qed (use step in simp_all)
qed

lemma phasesD:
  assumes "rt_phases s"
  shows "0 < length (r_pubs s)" and "1 < length (r_pubs s)"
    and "r_main s = MInit \<Longrightarrow> r_pubs s ! 0 = PIdle \<and> r_control s = CNone"
    and "r_main s = MRunning \<Longrightarrow> r_pubs s ! 0 = PIdle"
proof -
  have "2 \<le> length (r_pubs s)" using assms by (simp add: rt_phases_def)
  then show "0 < length (r_pubs s)" and "1 < length (r_pubs s)" by linarith+
qed (use assms in \<open>simp_all add: rt_phases_def\<close>)

text \<open>Every step of \<open>start\<close> and most of those of \<open>stop\<close> only move publisher 0 and set flags.\<close>

lemma start_step_moves:
  assumes "start_step s = Some t"
  shows "\<exists>s' pc. t = set_pub s' 0 pc \<and> quiet pc \<and> (r_main s = MInit \<or> returned (r_pubs s ! 0)) \<and>
    r_pool s' = r_pool s \<and> r_queue s' = r_queue s \<and> r_machine s' = r_machine s \<and>
    h_accepted s' = h_accepted s \<and> h_handled s' = h_handled s \<and> r_metrics s' = r_metrics s \<and>
    r_pubs s' = r_pubs s \<and>
    r_control s' = (if r_main s = MInit then CPop else r_control s)"
proof (cases "r_main s")
  case MInit
  then show ?thesis using assms
    by (intro exI [of _ "s\<lparr>r_started := True, r_accepting := True, r_running := True,
          r_control := CPop, r_main := MStartup\<rparr>"] exI [of _ "PCheck Event_startup"])
       (simp add: start_step_def split: if_splits)
next
  case MStartup
  then show ?thesis using assms
    by (intro exI [of _ "s\<lparr>r_main := MSelfTest\<rparr>"] exI [of _ "PCheck Event_self_test_passed"])
       (simp add: start_step_def split: if_splits)
next
  case MSelfTest
  then show ?thesis using assms
    by (intro exI [of _ "s\<lparr>r_main := MRunning\<rparr>"] exI [of _ PIdle])
       (simp add: start_step_def split: if_splits)
qed (use assms in \<open>simp_all add: start_step_def\<close>)

lemma inv_start:
  assumes inv: "rt_inv cfg s" and step: "start_step s = Some t"
  shows "rt_inv cfg t"
proof -
  have ph: "rt_phases s" using inv by (simp add: rt_inv_def)
  note len = phasesD(1) [OF ph] and idle = phasesD(3) [OF ph]
  have t: "rt_phases t" using phases_lifecycle [OF ph] step by blast
  obtain s' pc where s': "t = set_pub s' 0 pc" "quiet pc" "r_main s = MInit \<or> returned (r_pubs s ! 0)"
    "r_pool s' = r_pool s" "r_queue s' = r_queue s" "r_machine s' = r_machine s"
    "h_accepted s' = h_accepted s" "h_handled s' = h_handled s" "r_metrics s' = r_metrics s"
    "r_pubs s' = r_pubs s" "r_control s' = (if r_main s = MInit then CPop else r_control s)"
    using start_step_moves [OF step] by blast
  have "quiet (r_pubs s ! 0)"
    using s'(3)
  proof
    assume "r_main s = MInit"
    then show ?thesis using idle by simp
  qed (rule returned_quiet)
  then show ?thesis
    using s' t idle by (intro rt_inv_quiet [OF inv len, of pc]) simp_all
qed

lemma inv_stop:
  assumes inv: "rt_inv cfg s" and step: "stop_step s = Some t"
  shows "rt_inv cfg t"
proof -
  have ph: "rt_phases s" using inv by (simp add: rt_inv_def)
  note len = phasesD(1) [OF ph] and idle = phasesD(4) [OF ph]
  have t: "rt_phases t" using phases_lifecycle [OF ph] step by blast
  show ?thesis
  proof (cases "r_main s")
    case MRunning
    then have "t = set_pub (s\<lparr>r_stopped := True, r_main := MShutdown\<rparr>) 0
        (PCheck Event_shutdown_requested)"
      using step by (simp add: stop_step_def split: if_splits)
    then show ?thesis using t idle [OF MRunning]
      by (intro rt_inv_quiet [OF inv len, of "PCheck Event_shutdown_requested"]) simp_all
  next
    case MShutdown
    then have "t = set_pub (s\<lparr>r_accepting := False, r_main := MWait\<rparr>) 0 PIdle"
      "quiet (r_pubs s ! 0)"
      using step returned_quiet by (simp_all add: stop_step_def split: if_splits)
    then show ?thesis using t by (intro rt_inv_quiet [OF inv len, of PIdle]) simp_all
  next
    case MWait
    then show ?thesis
      using step t by (intro rt_inv_frame [OF inv]) (auto simp: stop_step_def)
  next
    case MJoin
    then have "t = s\<lparr>r_queue := close (r_queue s), r_main := MJoinControl\<rparr>"
      using step by (simp add: stop_step_def split: if_splits)
    then have "rt_resources t \<and> rt_order cfg t \<and> rt_counters t"
      using inv
      by (simp add: rt_inv_def rt_resources_def rt_order_def rt_counters_def rt_owners_def)
    then show ?thesis using t by (simp add: rt_inv_def)
  next
    case MJoinControl
    then have "t = s\<lparr>r_running := False, r_main := MDone\<rparr>"
      using step by (simp add: stop_step_def split: if_splits)
    then show ?thesis using t by (intro rt_inv_frame [OF inv]) simp_all
  qed (use step in \<open>simp_all add: stop_step_def\<close>)
qed


text \<open>Moving a publisher other than the first between two calls keeps the phases.\<close>

lemma phases_outside:
  assumes "rt_phases s" and "2 \<le> i"
  shows "rt_phases (set_pub s i pc)"
proof -
  have "(r_pubs s)[i := pc] ! 0 = r_pubs s ! 0" "(r_pubs s)[i := pc] ! 1 = r_pubs s ! 1"
    using assms(2) by simp_all
  then have "rt_phases (set_pub s i pc) = rt_phases s"
    unfolding rt_phases_def by (simp only: set_pub_simps set_pub_flags length_list_update)
  then show ?thesis using assms(1) by simp
qed

lemma phases_sensor:
  assumes "rt_phases s" and "r_main s \<notin> {MInit, MJoinControl, MDone} \<or> pc = PIdle"
  shows "rt_phases (set_pub s 1 pc)"
proof -
  have "(r_pubs s)[1 := pc] ! 0 = r_pubs s ! 0" by simp
  moreover have "(r_pubs s)[1 := pc] ! 1 = pc" using phasesD(2) [OF assms(1)] by simp
  ultimately show ?thesis
    using assms unfolding rt_phases_def
    by (simp only: set_pub_simps set_pub_flags length_list_update) blast
qed

lemma phases_metrics: "rt_phases (s\<lparr>r_metrics := m\<rparr>) = rt_phases s"
  by (simp add: rt_phases_def)

lemma rt_inv_step:
  assumes "rt_step s t" and inv: "rt_inv cfg s"
  shows "rt_inv cfg t"
  using assms(1)
proof cases
  case (publish i now expired pc s')
  then show ?thesis using inv_publish [OF inv] by blast
next
  case (call i e)
  then have "rt_phases t" using phases_outside [OF rt_invD(10) [OF inv]] by simp
  then show ?thesis
    using call by (intro rt_inv_quiet [OF inv, of i "PCheck e"]) simp_all
next
  case (return i)
  have ph: "rt_phases s" by (rule rt_invD(10) [OF inv])
  have "rt_phases t"
  proof (cases "i = 1")
    case True
    then show ?thesis using phases_sensor [OF ph, of PIdle] return(1) by simp
  next
    case False
    then show ?thesis using phases_outside [OF ph, of i] return(1,2) by simp
  qed
  then show ?thesis
    using return returned_quiet by (intro rt_inv_quiet [OF inv, of i PIdle]) simp_all
next
  case (control now pc s')
  then show ?thesis using inv_control [OF inv] by blast
next
  case (sensor reading)
  note ph = rt_invD(10) [OF inv]
  have t: "t = set_pub s 1 (PCheck (Event_sensor_sample reading))" "r_pubs s ! 1 = PIdle"
    "r_main s \<in> {MRunning, MShutdown, MWait, MJoin}"
    using sensor by (simp_all add: sensor_step_def split: if_splits)
  have "rt_phases t" using phases_sensor [OF ph] t by auto
  then show ?thesis
    using t phasesD(2) [OF ph]
    by (intro rt_inv_quiet [OF inv, of 1 "PCheck (Event_sensor_sample reading)"]) simp_all
next
  case monitor
  have t: "t = s\<lparr>r_metrics := record_monitor_tick (r_metrics s)\<rparr>"
    using monitor by (simp add: monitor_step_def split: if_splits)
  have "rt_phases t" using rt_invD(10) [OF inv] t by (simp only: phases_metrics)
  then show ?thesis using t by (intro rt_inv_frame [OF inv]) (simp_all add: record_monitor_tick_def)
next
  case start
  then show ?thesis using inv_start [OF inv] by blast
next
  case stop
  then show ?thesis using inv_stop [OF inv] by blast
qed

lemma rt_inv_init:
  assumes "0 < base" and "0 < stride" and "2 \<le> publishers"
  shows "rt_inv cfg (runtime_init cfg base stride publishers)"
proof (rule rt_invI)
  let ?s = "runtime_init cfg base stride publishers"
  have cap: "0 < kEventPoolCapacity" "0 < kEventQueueCapacity"
    by (simp_all add: kEventPoolCapacity_def kEventQueueCapacity_def)
  have none: "sum_list (map pub_holds (replicate n PIdle)) = {#}"
    "count_if is_published (replicate n PIdle) = 0" for n
    by (induction n) (simp_all add: count_if_def)
  have init_capacity: "Capacity (BoundedQueue_init n) = n" for n by (simp add: BoundedQueue_init_def)
  show "rt_resources ?s"
    by (simp add: rt_resources_def runtime_init_def rt_owners_def none(1) owned_by_def
        PoolStats_default_def pool_inv_init [OF cap(1) assms(1,2)] queue_inv_init [OF cap(2)]
        init_no_objects [OF cap(1) assms(1,2)] init_capacity del: map_replicate)
  show "rt_order cfg ?s" by (simp add: rt_order_def runtime_init_def)
  show "rt_counters ?s" by (simp add: rt_counters_def runtime_init_def none RuntimeMetrics_init_def)
  show "rt_phases ?s" using assms(3) by (simp add: rt_phases_def runtime_init_def BoundedQueue_init_def)
qed

lemma rt_inv_reachable:
  assumes "rt_reachable cfg base stride publishers s"
    and "0 < base" and "0 < stride" and "2 \<le> publishers"
  shows "rt_inv cfg s"
  using assms(1) by induction (blast intro: rt_inv_init [OF assms(2-4)] rt_inv_step)+

lemma rt_step_length: "rt_step s t \<Longrightarrow> length (r_pubs t) = length (r_pubs s)"
proof (induction rule: rt_step.induct)
  case (publish i s now expired pc s')
  then show ?case using publish_step_frame by fastforce
next
  case (control s now pc s')
  then show ?case using control_step_frame by fastforce
next
  case (sensor s reading s')
  then show ?case by (auto simp: sensor_step_def split: if_splits)
next
  case (monitor s s')
  then show ?case by (auto simp: monitor_step_def split: if_splits)
next
  case (start s s')
  then show ?case by (cases "r_main s") (auto simp: start_step_def split: if_splits)
next
  case (stop s s')
  then show ?case by (cases "r_main s") (auto simp: stop_step_def split: if_splits)
qed simp_all

lemma rt_step_length_run: "rt_step\<^sup>*\<^sup>* s t \<Longrightarrow> length (r_pubs t) = length (r_pubs s)"
  by (induction rule: rtranclp_induct) (simp_all add: rt_step_length)

lemma reachable_length:
  "rt_reachable cfg base stride publishers s \<Longrightarrow> length (r_pubs s) = publishers"
  by (induction rule: rt_reachable.induct) (simp_all add: rt_step_length runtime_init_def)


section \<open>How much memory is in use\<close>

lemma pub_holds_size: "size (pub_holds pc) \<le> 1"
  by (cases pc) simp_all

lemma pubs_size: "size (sum_list (map pub_holds ps)) \<le> length ps"
proof (induction ps)
  case (Cons p ps)
  then show ?case using pub_holds_size [of p] by simp
qed simp

lemma pubs_size_free:
  assumes "i < length ps" and "pub_holds (ps ! i) = {#}"
  shows "size (sum_list (map pub_holds ps)) < length ps"
proof -
  let ?h = "PPush Handle_empty"
  have "size (sum_list (map pub_holds (ps[i := ?h]))) = Suc (size (sum_list (map pub_holds ps)))"
    using pubs_update [OF assms(1), of ?h] assms(2) by simp
  then show ?thesis using pubs_size [of "ps[i := ?h]"] by simp
qed

lemma control_holds_size: "size (control_holds pc) \<le> 1"
  by (cases pc) simp_all

text \<open>A publisher that holds nothing leaves room for its object, if there are not too many publishers.\<close>

lemma owners_bound:
  assumes inv: "rt_inv cfg s" and "length (r_pubs s) \<le> 127"
    and "i < length (r_pubs s)" and "pub_holds (r_pubs s ! i) = {#}"
  shows "size (rt_owners s) < kEventPoolCapacity"
proof -
  have "length (queue_items (r_queue s)) \<le> 128"
    using bq.bounded [OF rt_invD(2) [OF inv]] rt_invD(4) [OF inv] by (simp add: kEventQueueCapacity_def)
  moreover have "size (rt_owners s) = size (sum_list (map pub_holds (r_pubs s))) +
      length (queue_items (r_queue s)) + size (control_holds (r_control s))"
    by (simp add: rt_owners_def)
  ultimately show ?thesis
    using pubs_size_free [OF assms(3,4)] control_holds_size [of "r_control s"] assms(2)
    unfolding kEventPoolCapacity_def by linarith
qed

text \<open>Creating the pool object then succeeds.\<close>

lemma create_succeeds:
  assumes inv: "rt_inv cfg s" and "size (rt_owners s) < kEventPoolCapacity"
  shows "\<exists>h p. publish_step s now expired (PCreate e) = Some (PPush h, s\<lparr>r_pool := p\<rparr>) \<and>
    live p (h_object h) = Some \<lparr>pe_event = e, pe_created_at = now\<rparr>"
proof -
  let ?v = "\<lparr>pe_event = e, pe_created_at = now\<rparr>"
  obtain a p where c: "create_object (r_pool s) ?v = (a, p)" by (cases "create_object (r_pool s) ?v")
  note D = rt_invD [OF inv]
  have "card (dom (live (r_pool s))) < length (p_slots (r_pool s))"
    using assms(2) op.own_size [OF D(1,5)] D(3) by simp
  then have "a \<noteq> nullptr" "live p = (live (r_pool s))(a \<mapsto> ?v)"
    using op.create_succeeds [OF D(1) _ c] by simp_all
  then show ?thesis
    by (intro exI [of _ "\<lparr>h_pool = (a \<noteq> nullptr), h_object = a\<rparr>"] exI [of _ p])
       (simp add: try_create_handle [OF D(1)] c Let_def)
qed

section \<open>Progress\<close>

lemma control_owner_live:
  assumes inv: "rt_inv cfg s" and "r_control s = CHandle h"
  shows "live (r_pool s) (h_object h) \<noteq> None"
  using op.owner_not_null [OF rt_invD(1,5) [OF inv], of "h_object h"] assms(2)
  by (simp add: rt_owners_def)

lemma control_enabled:
  assumes inv: "rt_inv cfg s" and "r_control s \<noteq> CNone" and "r_control s \<noteq> CExit"
    and "r_control s = CPop \<Longrightarrow> queue_items (r_queue s) \<noteq> [] \<or> q_closed (r_queue s)"
  shows "\<exists>pc s'. control_step s now (r_control s) = Some (pc, s')"
proof (cases "r_control s")
  case CPop
  then obtain g q where "wait_pop (r_queue s) = Some (g, q)"
    using bq.get_ready [OF rt_invD(2) [OF inv]] assms(4) by fastforce
  then show ?thesis using CPop by (cases g) simp_all
next
  case (CHandle h)
  then show ?thesis
    using control_owner_live [OF inv CHandle] by (auto simp: Let_def split: prod.splits)
qed (use assms in simp_all)

lemma control_step_rank:
  assumes inv: "rt_inv cfg s" and step: "control_step s now (r_control s) = Some (pc, s')"
  shows "drain_rank (s'\<lparr>r_control := pc\<rparr>) < drain_rank s"
proof (cases "r_control s")
  case CPop
  then obtain g q where q: "wait_pop (r_queue s) = Some (g, q)" "s' = s\<lparr>r_queue := q\<rparr>"
    "pc = (case g of None \<Rightarrow> CExit | Some h \<Rightarrow> CHandle h)"
    using step by (auto split: option.splits)
  show ?thesis
  proof (cases g)
    case None
    then show ?thesis
      using q CPop bq.get_end [OF rt_invD(2) [OF inv]] by (simp add: drain_rank_def)
  next
    case (Some h)
    then have "queue_items (r_queue s) = h # queue_items q"
      using q bq.get_value [OF rt_invD(2) [OF inv]] by simp
    then show ?thesis using q CPop Some by (simp add: drain_rank_def)
  qed
next
  case (CHandle h)
  then show ?thesis
    using step by (auto simp: drain_rank_def Let_def split: option.splits prod.splits)
qed (use step in \<open>auto simp: drain_rank_def split: if_splits\<close>)


text \<open>Once the queue is closed, no thread adds to the work of the control task.\<close>

lemma closed_rank:
  assumes inv: "rt_inv cfg s" and closed: "q_closed (r_queue s)" and "rt_step s t"
  shows "drain_rank t \<le> drain_rank s"
  using assms(3)
proof cases
  case (publish i now expired pc s')
  then show ?thesis
    using publish_step_frame [OF publish(3)] publish_step_closed [OF inv publish(3) closed]
    by (simp add: drain_rank_def)
next
  case (control now pc s')
  then show ?thesis using control_step_rank [OF inv] by (simp add: less_imp_le)
next
  case (sensor reading)
  then show ?thesis by (auto simp: sensor_step_def drain_rank_def split: if_splits)
next
  case monitor
  then show ?thesis by (auto simp: monitor_step_def drain_rank_def split: if_splits)
next
  case start
  have "r_main s \<in> {MJoinControl, MDone}" using rt_invD(10) [OF inv] closed by (simp add: rt_phases_def)
  then show ?thesis using start by (auto simp: start_step_def)
next
  case stop
  have "r_main s \<in> {MJoinControl, MDone}" using rt_invD(10) [OF inv] closed by (simp add: rt_phases_def)
  then show ?thesis using stop by (auto simp: stop_step_def drain_rank_def split: if_splits)
qed (simp_all add: drain_rank_def)

text \<open>A call of \<open>publish\<close> whose timeout has passed always has a next step.\<close>

lemma publish_progress:
  assumes inv: "rt_inv cfg s" and "pc \<noteq> PIdle" and "\<not> returned pc"
  shows "\<exists>pc' s'. publish_step s now True pc = Some (pc', s') \<and> publish_rank pc' < publish_rank pc"
proof (cases pc)
  case (PCreate e)
  then show ?thesis by (auto simp: try_create_handle [OF rt_invD(1) [OF inv]] Let_def split: prod.splits)
next
  case (PPush h)
  then show ?thesis by (auto simp: wait_push_def Let_def split: prod.splits)
qed (use assms in simp_all)

lemma all_idle_holds:
  assumes "all_idle s"
  shows "sum_list (map pub_holds (r_pubs s)) = {#}" and "count_if is_published (r_pubs s) = 0"
proof -
  have "sum_list (map pub_holds ps) = {#} \<and> count_if is_published ps = 0"
    if "\<forall>pc \<in> set ps. pc = PIdle" for ps
    using that by (induction ps) (simp_all add: count_if_def)
  then show "sum_list (map pub_holds (r_pubs s)) = {#}" and "count_if is_published (r_pubs s) = 0"
    using assms by (simp_all add: all_idle_def)
qed

lemma done_handled:
  assumes inv: "rt_inv cfg s" and "r_main s = MDone"
  shows "queue_items (r_queue s) = []" and "r_control s = CExit" and "h_handled s = h_accepted s"
proof -
  show c: "r_control s = CExit" using rt_invD(10) [OF inv] assms(2) by (simp add: rt_phases_def)
  show q: "queue_items (r_queue s) = []" using rt_invD(10) [OF inv] c by (simp add: rt_phases_def)
  show "h_handled s = h_accepted s" using rt_invD(7) [OF inv] c q by simp
qed


text \<open>The control task has at most one event in its hands, the queue holds the others.\<close>

lemma pending_bound:
  assumes inv: "rt_inv cfg s"
  shows "length (h_accepted s) \<le> length (h_handled s) + (kEventQueueCapacity + 1)"
proof -
  have "length (control_event (r_pool s) (r_control s)) \<le> 1" by (cases "r_control s") simp_all
  then show ?thesis
    using bq.bounded [OF rt_invD(2) [OF inv]] rt_invD(4) [OF inv] rt_invD(7) [OF inv] by simp
qed

lemma done_shutdown:
  assumes inv: "rt_inv cfg s" and "r_main s = MDone" and "Event_shutdown_requested \<in> set (h_accepted s)"
  shows "m_state (r_machine s) = MotorState.safe_shutdown"
proof -
  have "r_machine s = foldl machine_step (MotorStateMachine_init cfg) (h_accepted s)"
    using rt_invD(8) [OF inv] done_handled(3) [OF inv assms(2)] by (simp add: machine_run_foldl)
  then show ?thesis
    using motor.foldl_stops [OF assms(3), of "MotorStateMachine_init cfg"] by simp
qed

section \<open>Runs\<close>

lemma reachable_trans:
  assumes "rt_reachable cfg base stride publishers s" and "rt_step\<^sup>*\<^sup>* s t"
  shows "rt_reachable cfg base stride publishers t"
  using assms(2,1) by induction (blast intro: rt_next)+

lemma rt_inv_run:
  assumes "rt_inv cfg s" and "rt_step\<^sup>*\<^sup>* s t"
  shows "rt_inv cfg t"
  using assms(2,1) by induction (blast intro: rt_inv_step)+

lemma own_stepI:
  "i < length (r_pubs s) \<Longrightarrow> publish_step s now expired (r_pubs s ! i) = Some (pc, s') \<Longrightarrow>
     own_step i s (set_pub s' i pc)"
  by (auto simp: own_step_def)

lemma own_step_rt: "own_step i s t \<Longrightarrow> rt_step s t"
  by (auto simp: own_step_def intro: rt_step.publish)

lemma own_run_rt: "(own_step i)\<^sup>*\<^sup>* s t \<Longrightarrow> rt_step\<^sup>*\<^sup>* s t"
  by (erule mono_rtranclp [rule_format, rotated]) (rule own_step_rt)

lemma wait_push_room:
  assumes "queue_inv q" and "\<not> q_closed q" and "length (queue_items q) < Capacity q"
  shows "wait_push q v expired = Some (QueuePushResult.pushed, push_locked q v)"
  using assms by (simp add: wait_push_def queue_items_def)

text \<open>
  A call of \<open>publish\<close> that is not disturbed: up to its push, and from there to the end, accepted if there
  is room and timed out otherwise.
\<close>

lemma publish_to_push:
  assumes inv: "rt_inv cfg s" and i: "i < length (r_pubs s)" and pc: "r_pubs s ! i = PCheck e"
    and acc: "r_accepting s" and few: "length (r_pubs s) \<le> 127"
  shows "\<exists>t h. (own_step i)\<^sup>*\<^sup>* s t \<and> r_pubs t = (r_pubs s)[i := PPush h] \<and> same_phase s t \<and>
    h_accepted t = h_accepted s \<and> r_queue t = r_queue s \<and> event_at (r_pool t) h = e"
proof -
  define s1 where "s1 = set_pub s i (PCreate e)"
  have st1: "own_step i s s1"
    using own_stepI [OF i, of 0 True "PCreate e" s] pc acc by (simp add: s1_def)
  have inv1: "rt_inv cfg s1" by (rule rt_inv_step [OF own_step_rt [OF st1] inv])
  have "size (rt_owners s1) < kEventPoolCapacity"
    using owners_bound [OF inv1, of i] i few by (simp add: s1_def)
  from create_succeeds [OF inv1 this, of 0 True e] obtain h p where
    c: "publish_step s1 0 True (PCreate e) = Some (PPush h, s1\<lparr>r_pool := p\<rparr>)"
    and live: "live p (h_object h) = Some \<lparr>pe_event = e, pe_created_at = 0\<rparr>"
    by blast
  define s2 where "s2 = set_pub (s1\<lparr>r_pool := p\<rparr>) i (PPush h)"
  have "own_step i s1 s2"
    using own_stepI [of i s1 0 True "PPush h" "s1\<lparr>r_pool := p\<rparr>"] c i
    by (simp add: s1_def s2_def del: publish_step.simps)
  with st1 have "(own_step i)\<^sup>*\<^sup>* s s2" by (meson converse_rtranclp_into_rtranclp rtranclp.rtrancl_refl)
  then show ?thesis
    by (intro exI [of _ s2] exI [of _ h]) (simp add: s1_def s2_def same_phase_def event_at_def live)
qed

lemma push_accepted:
  assumes inv: "rt_inv cfg s" and i: "i < length (r_pubs s)" and pc: "r_pubs s ! i = PPush h"
    and op: "\<not> q_closed (r_queue s)" and room: "length (queue_items (r_queue s)) < kEventQueueCapacity"
  shows "\<exists>t. (own_step i)\<^sup>*\<^sup>* s t \<and> r_pubs t = (r_pubs s)[i := PReturn PublishResult.published] \<and> same_phase s t \<and>
    h_accepted t = h_accepted s @ [event_at (r_pool s) h] \<and>
    length (queue_items (r_queue t)) = Suc (length (queue_items (r_queue s)))"
proof -
  define q where "q = push_locked (r_queue s) h"
  have w: "wait_push (r_queue s) h True = Some (QueuePushResult.pushed, q)"
    using wait_push_room [OF rt_invD(2) [OF inv] op, of h True] room rt_invD(4) [OF inv]
    by (simp add: q_def)
  let ?s1 = "s\<lparr>r_queue := q, h_accepted := h_accepted s @ [event_at (r_pool s) h]\<rparr>"
  define s1 where "s1 = set_pub ?s1 i PPublished"
  have st1: "own_step i s s1"
    using own_stepI [OF i, of 0 True PPublished ?s1] w pc by (simp add: s1_def)
  let ?s2 = "s1\<lparr>r_metrics := record_published (r_metrics s1)\<rparr>"
  define s2 where "s2 = set_pub ?s2 i (PReturn PublishResult.published)"
  have "own_step i s1 s2"
    using own_stepI [of i s1 0 True "PReturn PublishResult.published" ?s2] i
    by (simp add: s1_def s2_def)
  with st1 have run: "(own_step i)\<^sup>*\<^sup>* s s2"
    by (meson converse_rtranclp_into_rtranclp rtranclp.rtrancl_refl)
  have "queue_items q = queue_items (r_queue s) @ [h]" "q_closed q = q_closed (r_queue s)"
    using bq.put_pushed [OF rt_invD(2) [OF inv] w] bq.put_frame [OF w] by simp_all
  then show ?thesis
    using run by (intro exI [of _ s2])
      (simp add: s1_def s2_def same_phase_def)
qed

lemma push_timed_out:
  assumes inv: "rt_inv cfg s" and i: "i < length (r_pubs s)" and pc: "r_pubs s ! i = PPush h"
    and op: "\<not> q_closed (r_queue s)"
    and no_room: "\<not> length (queue_items (r_queue s)) < kEventQueueCapacity"
  shows "\<exists>t r. (own_step i)\<^sup>*\<^sup>* s t \<and> r_pubs t = (r_pubs s)[i := PReturn r] \<and> same_phase s t \<and>
    h_accepted t = h_accepted s \<and>
    length (queue_items (r_queue t)) = length (queue_items (r_queue s))"
proof -
  obtain q where w: "wait_push (r_queue s) h True = Some (QueuePushResult.timeout, q)"
    using no_room rt_invD(4) [OF inv] op by (simp add: wait_push_def queue_items_def)
  define s1 where "s1 = set_pub (s\<lparr>r_queue := q\<rparr>) i (PRelease h PublishResult.queue_timeout)"
  have st1: "own_step i s s1"
    using own_stepI [OF i, of 0 True "PRelease h PublishResult.queue_timeout" "s\<lparr>r_queue := q\<rparr>"]
      w pc by (simp add: s1_def)
  let ?p = "snd (destroy (r_pool s1) (h_object h))"
  define s2 where "s2 = set_pub (s1\<lparr>r_pool := ?p\<rparr>) i (PDropped PublishResult.queue_timeout)"
  have st2: "own_step i s1 s2"
    using own_stepI [of i s1 0 True "PDropped PublishResult.queue_timeout" "s1\<lparr>r_pool := ?p\<rparr>"] i
    by (simp add: s1_def s2_def)
  let ?s3 = "s2\<lparr>r_metrics := record_dropped (r_metrics s2)\<rparr>"
  define s3 where "s3 = set_pub ?s3 i (PReturn PublishResult.queue_timeout)"
  have "own_step i s2 s3"
    using own_stepI [of i s2 0 True "PReturn PublishResult.queue_timeout" ?s3] i
    by (simp add: s1_def s2_def s3_def)
  with st1 st2 have run: "(own_step i)\<^sup>*\<^sup>* s s3"
    by (meson converse_rtranclp_into_rtranclp rtranclp.rtrancl_refl)
  have "queue_items q = queue_items (r_queue s)" "q_closed q = q_closed (r_queue s)"
    using bq.put_refused [OF rt_invD(2) [OF inv] w] bq.put_frame [OF w] by simp_all
  then show ?thesis
    using run by (intro exI [of _ s3] exI [of _ PublishResult.queue_timeout])
      (simp add: s1_def s2_def s3_def same_phase_def)
qed

lemma publish_run:
  assumes inv: "rt_inv cfg s" and i: "i < length (r_pubs s)" and pc: "r_pubs s ! i = PCheck e"
    and acc: "r_accepting s" and few: "length (r_pubs s) \<le> 127" and op: "\<not> q_closed (r_queue s)"
  shows "\<exists>t r. (own_step i)\<^sup>*\<^sup>* s t \<and> r_pubs t = (r_pubs s)[i := PReturn r] \<and> same_phase s t \<and>
    h_accepted t = h_accepted s @ offered s e \<and> (offered s e \<noteq> [] \<longrightarrow> r = PublishResult.published) \<and>
    length (queue_items (r_queue t)) = length (queue_items (r_queue s)) + length (offered s e)"
proof -
  obtain s1 h where s1: "(own_step i)\<^sup>*\<^sup>* s s1" "r_pubs s1 = (r_pubs s)[i := PPush h]" "same_phase s s1"
    "h_accepted s1 = h_accepted s" "r_queue s1 = r_queue s" "event_at (r_pool s1) h = e"
    using publish_to_push [OF inv i pc acc few] by blast
  have inv1: "rt_inv cfg s1" by (rule rt_inv_run [OF inv own_run_rt [OF s1(1)]])
  have i1: "i < length (r_pubs s1)" "r_pubs s1 ! i = PPush h" using i s1(2) by simp_all
  have op1: "\<not> q_closed (r_queue s1)" using op s1(5) by simp
  have "\<exists>t r. (own_step i)\<^sup>*\<^sup>* s1 t \<and> r_pubs t = (r_pubs s1)[i := PReturn r] \<and> same_phase s1 t \<and>
    h_accepted t = h_accepted s1 @ offered s e \<and> (offered s e \<noteq> [] \<longrightarrow> r = PublishResult.published) \<and>
    length (queue_items (r_queue t)) = length (queue_items (r_queue s)) + length (offered s e)"
    using push_accepted [OF inv1 i1 op1] push_timed_out [OF inv1 i1 op1]
    by (cases "length (queue_items (r_queue s)) < kEventQueueCapacity")
       (auto simp: offered_def s1)
  then obtain t r where t: "(own_step i)\<^sup>*\<^sup>* s1 t" "r_pubs t = (r_pubs s1)[i := PReturn r]" "same_phase s1 t"
    "h_accepted t = h_accepted s1 @ offered s e" "offered s e \<noteq> [] \<longrightarrow> r = PublishResult.published"
    "length (queue_items (r_queue t)) = length (queue_items (r_queue s)) + length (offered s e)"
    by blast
  then show ?thesis
    using s1 rtranclp_trans [OF s1(1) t(1)]
    by (intro exI [of _ t] exI [of _ r]) (simp add: same_phase_def)
qed


lemma replicate_update: "(replicate n x)[i := x] = replicate n x"
  using list_update_id [of "replicate n x" i] by (cases "i < n") (simp_all add: list_update_beyond)

lemma phases_publishing:
  assumes "rt_phases s" and "r_main s \<in> publishing"
  shows "r_accepting s" and "\<not> q_closed (r_queue s)"
proof -
  have "r_accepting s \<longleftrightarrow> r_main s \<in> publishing" "q_closed (r_queue s) \<longleftrightarrow> r_main s \<in> {MJoinControl, MDone}"
    using assms(1) unfolding rt_phases_def by blast+
  then show "r_accepting s" and "\<not> q_closed (r_queue s)" using assms(2) by auto
qed

lemma stalled_publish:
  assumes s: "stalled cfg m es s" and m: "m \<in> publishing"
    and pubs: "r_pubs s = (replicate n PIdle)[i := PCheck e]" and i: "i < n" and few: "n \<le> 127"
  shows "\<exists>t r. (own_step i)\<^sup>*\<^sup>* s t \<and> stalled cfg m (accept_one es e) t \<and>
    r_pubs t = (replicate n PIdle)[i := PReturn r] \<and>
    (length es < kEventQueueCapacity \<longrightarrow> r = PublishResult.published)"
proof -
  have inv: "rt_inv cfg s" using s by (simp add: stalled_def)
  have "r_main s \<in> publishing" using s m by (simp add: stalled_def)
  note ready = phases_publishing [OF rt_invD(10) [OF inv] this]
  have "length (queue_items (r_queue s)) = length es"
    using rt_invD(7) [OF inv] s unfolding stalled_def by auto
  then have off: "es @ offered s e = accept_one es e" "offered s e \<noteq> [] \<longleftrightarrow> length es < kEventQueueCapacity"
    by (simp_all add: offered_def accept_one_def)
  obtain t r where t: "(own_step i)\<^sup>*\<^sup>* s t" "r_pubs t = (r_pubs s)[i := PReturn r]" "same_phase s t"
    "h_accepted t = h_accepted s @ offered s e" "offered s e \<noteq> [] \<longrightarrow> r = PublishResult.published"
    using publish_run [OF inv _ _ ready(1) _ ready(2), of i e] pubs i few by auto
  then show ?thesis
    using rt_inv_run [OF inv own_run_rt [OF t(1)]] s off pubs
    by (intro exI [of _ t] exI [of _ r]) (simp add: stalled_def same_phase_def)
qed

text \<open>A whole call, with the steps of the caller before and after it.\<close>

lemma stalled_call:
  assumes s: "stalled cfg m es s" and first: "rt_step s s1" "stalled cfg m1 es s1" "m1 \<in> publishing"
      "r_pubs s1 = (replicate n PIdle)[i := PCheck e]" "i < n" "n \<le> 127"
    and last: "\<And>t r. stalled cfg m1 (accept_one es e) t \<Longrightarrow> r_pubs t = (replicate n PIdle)[i := PReturn r] \<Longrightarrow>
      \<exists>u. rt_step t u \<and> P u"
  shows "\<exists>u. rt_step\<^sup>*\<^sup>* s u \<and> P u"
proof -
  obtain t r where t: "(own_step i)\<^sup>*\<^sup>* s1 t" "stalled cfg m1 (accept_one es e) t"
    "r_pubs t = (replicate n PIdle)[i := PReturn r]"
    using stalled_publish [OF first(2-6)] by blast
  obtain u where "rt_step t u" "P u" using last [OF t(2,3)] by blast
  then show ?thesis
    using first(1) own_run_rt [OF t(1)]
    by (meson converse_rtranclp_into_rtranclp rtranclp.rtrancl_into_rtrancl)
qed

lemma stalled_step:
  assumes "stalled cfg m es s" and "rt_step s t" and "r_main t = m'" and "r_control t = r_control s"
    and "h_handled t = h_handled s" and "h_accepted t = h_accepted s"
  shows "stalled cfg m' es t"
  using assms rt_inv_step [OF assms(2)] by (simp add: stalled_def)

lemma stalled_outside:
  assumes s: "stalled cfg MRunning es s" "r_pubs s = replicate n PIdle" and n: "2 < n" "n \<le> 127"
  shows "\<exists>u. rt_step\<^sup>*\<^sup>* s u \<and> stalled cfg MRunning (accept_one es e) u \<and> r_pubs u = replicate n PIdle"
proof (rule stalled_call [OF s(1), of "set_pub s 2 (PCheck e)" MRunning n 2 e])
  show st: "rt_step s (set_pub s 2 (PCheck e))" using n s(2) by (intro rt_step.call) simp_all
  show "stalled cfg MRunning es (set_pub s 2 (PCheck e))"
    using s(1) by (intro stalled_step [OF s(1) st]) (simp_all add: stalled_def)
next
  fix t r
  assume t: "stalled cfg MRunning (accept_one es e) t" "r_pubs t = (replicate n PIdle)[2 := PReturn r]"
  have st: "rt_step t (set_pub t 2 PIdle)" using n t(2) by (intro rt_step.return) simp_all
  moreover have "stalled cfg MRunning (accept_one es e) (set_pub t 2 PIdle)"
    using t(1) by (intro stalled_step [OF t(1) st]) (simp_all add: stalled_def)
  ultimately show "\<exists>u. rt_step t u \<and> stalled cfg MRunning (accept_one es e) u \<and> r_pubs u = replicate n PIdle"
    using t(2) by (intro exI [of _ "set_pub t 2 PIdle"]) (simp add: replicate_update)
qed (use n s(2) in simp_all)

lemma stalled_calls:
  assumes "stalled cfg MRunning es s" "r_pubs s = replicate n PIdle" and "2 < n" "n \<le> 127"
  shows "\<exists>u. rt_step\<^sup>*\<^sup>* s u \<and> stalled cfg MRunning (foldl accept_one es fs) u \<and> r_pubs u = replicate n PIdle"
  using assms(1,2)
proof (induction fs arbitrary: es s)
  case Nil
  then show ?case by auto
next
  case (Cons f fs)
  obtain u where u: "rt_step\<^sup>*\<^sup>* s u" "stalled cfg MRunning (accept_one es f) u" "r_pubs u = replicate n PIdle"
    using stalled_outside [OF Cons.prems assms(3,4), of f] by blast
  from Cons.IH [OF u(2,3)] show ?case using u(1) by (auto intro: rtranclp_trans)
qed


text \<open>Starting and stopping.\<close>

lemma stalled_start:
  assumes n: "2 \<le> n" "n \<le> 127" and base: "0 < base" "0 < stride"
  shows "\<exists>u. rt_step\<^sup>*\<^sup>* (runtime_init cfg base stride n) u \<and>
    stalled cfg MRunning [Event_startup, Event_self_test_passed] u \<and> r_pubs u = replicate n PIdle"
proof -
  let ?s = "runtime_init cfg base stride n"
  define s1 where "s1 = set_pub (?s\<lparr>r_started := True, r_accepting := True, r_running := True,
     r_control := CPop, r_main := MStartup\<rparr>) 0 (PCheck Event_startup)"
  have st1: "rt_step ?s s1" by (intro rt_step.start) (simp add: start_step_def runtime_init_def s1_def)
  have s1: "stalled cfg MStartup [] s1" "r_pubs s1 = (replicate n PIdle)[0 := PCheck Event_startup]"
    using rt_inv_step [OF st1 rt_inv_init [OF base n(1)]]
    by (simp_all add: stalled_def s1_def runtime_init_def)
  obtain s2 r where s2: "(own_step 0)\<^sup>*\<^sup>* s1 s2" "stalled cfg MStartup [Event_startup] s2"
    "r_pubs s2 = (replicate n PIdle)[0 := PReturn r]"
    using stalled_publish [OF s1(1) _ s1(2)] n by (auto simp: accept_one_def kEventQueueCapacity_def)
  define s3 where "s3 = set_pub (s2\<lparr>r_main := MSelfTest\<rparr>) 0 (PCheck Event_self_test_passed)"
  have st3: "rt_step s2 s3"
    using s2(2,3) n by (intro rt_step.start) (simp add: start_step_def s3_def stalled_def)
  have s3: "stalled cfg MSelfTest [Event_startup] s3"
    "r_pubs s3 = (replicate n PIdle)[0 := PCheck Event_self_test_passed]"
    using stalled_step [OF s2(2) st3] s2(3) by (simp_all add: s3_def)
  obtain s4 r' where s4: "(own_step 0)\<^sup>*\<^sup>* s3 s4"
    "stalled cfg MSelfTest [Event_startup, Event_self_test_passed] s4"
    "r_pubs s4 = (replicate n PIdle)[0 := PReturn r']"
    using stalled_publish [OF s3(1) _ s3(2)] n by (auto simp: accept_one_def kEventQueueCapacity_def)
  define s5 where "s5 = set_pub (s4\<lparr>r_main := MRunning\<rparr>) 0 PIdle"
  have st5: "rt_step s4 s5"
    using s4(2,3) n by (intro rt_step.start) (simp add: start_step_def s5_def stalled_def)
  have "stalled cfg MRunning [Event_startup, Event_self_test_passed] s5" "r_pubs s5 = replicate n PIdle"
    using stalled_step [OF s4(2) st5] s4(3) by (simp_all add: s5_def replicate_update)
  moreover have "rt_step\<^sup>*\<^sup>* ?s s5"
    using st1 own_run_rt [OF s2(1)] st3 own_run_rt [OF s4(1)] st5
    by (meson converse_rtranclp_into_rtranclp rtranclp_trans rtranclp.rtrancl_refl)
  ultimately show ?thesis by blast
qed

lemma drain_run:
  assumes "rt_inv cfg s" and "q_closed (r_queue s)" and "r_control s \<noteq> CNone"
  shows "\<exists>t. rt_step\<^sup>*\<^sup>* s t \<and> r_control t = CExit \<and> r_pubs t = r_pubs s \<and> r_main t = r_main s \<and>
    h_accepted t = h_accepted s"
  using assms
proof (induction "drain_rank s" arbitrary: s rule: less_induct)
  case less
  show ?case
  proof (cases "r_control s = CExit")
    case False
    then obtain pc s' where st: "control_step s 0 (r_control s) = Some (pc, s')"
      using control_enabled [OF less.prems(1,3)] less.prems(2) by blast
    let ?t = "s'\<lparr>r_control := pc\<rparr>"
    have step: "rt_step s ?t" by (rule rt_step.control [OF st])
    note fr = control_step_frame [OF st]
    have "drain_rank ?t < drain_rank s" by (rule control_step_rank [OF less.prems(1) st])
    from less.hyps [OF this rt_inv_step [OF step less.prems(1)]] less.prems(2) fr
    obtain t where "rt_step\<^sup>*\<^sup>* ?t t" "r_control t = CExit" "r_pubs t = r_pubs s" "r_main t = r_main s"
      "h_accepted t = h_accepted s" by auto
    then show ?thesis using step by (meson converse_rtranclp_into_rtranclp)
  qed auto
qed

lemma stalled_close:
  assumes s: "stalled cfg MRunning es s" "r_pubs s = replicate n PIdle" and n: "2 \<le> n" "n \<le> 127"
  shows "\<exists>u. rt_step\<^sup>*\<^sup>* s u \<and> stalled cfg MJoinControl (accept_one es Event_shutdown_requested) u \<and>
    r_pubs u = replicate n PIdle \<and> q_closed (r_queue u)"
proof -
  let ?es = "accept_one es Event_shutdown_requested"
  have flags: "r_started s \<and> \<not> r_stopped s"
    using s(1) by (simp add: stalled_def rt_inv_def rt_phases_def)
  define s1 where "s1 = set_pub (s\<lparr>r_stopped := True, r_main := MShutdown\<rparr>) 0
     (PCheck Event_shutdown_requested)"
  have st1: "rt_step s s1"
    using s(1) flags by (intro rt_step.stop) (simp add: stop_step_def s1_def stalled_def)
  have s1: "stalled cfg MShutdown es s1"
    "r_pubs s1 = (replicate n PIdle)[0 := PCheck Event_shutdown_requested]"
    using stalled_step [OF s(1) st1] s(2) by (simp_all add: s1_def)
  obtain s2 r where s2: "(own_step 0)\<^sup>*\<^sup>* s1 s2" "stalled cfg MShutdown ?es s2"
    "r_pubs s2 = (replicate n PIdle)[0 := PReturn r]"
    using stalled_publish [OF s1(1) _ s1(2)] n by auto
  define s3 where "s3 = set_pub (s2\<lparr>r_accepting := False, r_main := MWait\<rparr>) 0 PIdle"
  have st3: "rt_step s2 s3"
    using s2(2,3) n by (intro rt_step.stop) (simp add: stop_step_def s3_def stalled_def)
  have s3: "stalled cfg MWait ?es s3" "r_pubs s3 = replicate n PIdle"
    using stalled_step [OF s2(2) st3] s2(3) by (simp_all add: s3_def replicate_update)
  define s4 where "s4 = s3\<lparr>r_stop_requested := True, r_main := MJoin\<rparr>"
  have st4: "rt_step s3 s4"
    using s3(1) by (intro rt_step.stop) (simp add: stop_step_def s4_def stalled_def)
  define s5 where "s5 = s4\<lparr>r_queue := close (r_queue s4), r_main := MJoinControl\<rparr>"
  have st5: "rt_step s4 s5"
    using s3(2) n by (intro rt_step.stop) (simp add: stop_step_def s4_def s5_def)
  have s5: "stalled cfg MJoinControl ?es s5" "r_pubs s5 = replicate n PIdle"
    using stalled_step [OF stalled_step [OF s3(1) st4] st5] s3(2) by (simp_all add: s4_def s5_def)
  have "rt_step\<^sup>*\<^sup>* s s5"
    using st1 own_run_rt [OF s2(1)] st3 st4 st5
    by (meson converse_rtranclp_into_rtranclp rtranclp_trans rtranclp.rtrancl_refl)
  then show ?thesis using s5 by (intro exI [of _ s5]) (simp add: s5_def)
qed

lemma stalled_stop:
  assumes s: "stalled cfg MRunning es s" "r_pubs s = replicate n PIdle" and n: "2 \<le> n" "n \<le> 127"
  shows "\<exists>u. rt_step\<^sup>*\<^sup>* s u \<and> r_main u = MDone \<and> r_pubs u = replicate n PIdle \<and>
    h_accepted u = accept_one es Event_shutdown_requested"
proof -
  let ?es = "accept_one es Event_shutdown_requested"
  obtain s1 where s1: "rt_step\<^sup>*\<^sup>* s s1" "stalled cfg MJoinControl ?es s1" "r_pubs s1 = replicate n PIdle"
    "q_closed (r_queue s1)"
    using stalled_close [OF assms] by blast
  obtain s2 where s2: "rt_step\<^sup>*\<^sup>* s1 s2" "r_control s2 = CExit" "r_pubs s2 = replicate n PIdle"
    "r_main s2 = MJoinControl" "h_accepted s2 = ?es"
    using drain_run [of cfg s1] s1(2-4) by (auto simp: stalled_def)
  define s3 where "s3 = s2\<lparr>r_running := False, r_main := MDone\<rparr>"
  have "rt_step s2 s3" using s2(2,4) by (intro rt_step.stop) (simp add: stop_step_def s3_def)
  then have "rt_step\<^sup>*\<^sup>* s s3" using s1(1) s2(1) by (meson rtranclp_trans rtranclp.rtrancl_into_rtrancl)
  then show ?thesis using s2 by (intro exI [of _ s3]) (simp add: s3_def)
qed

lemma complete_run:
  assumes "2 < n" "n \<le> 127" and "0 < base" "0 < stride"
  shows "\<exists>u. rt_reachable cfg base stride n u \<and> r_main u = MDone \<and> r_pubs u = replicate n PIdle \<and>
    h_accepted u = accept_one (foldl accept_one [Event_startup, Event_self_test_passed] fs)
      Event_shutdown_requested"
proof -
  have n: "2 \<le> n" using assms(1) by simp
  obtain s where s: "rt_step\<^sup>*\<^sup>* (runtime_init cfg base stride n) s"
    "stalled cfg MRunning [Event_startup, Event_self_test_passed] s" "r_pubs s = replicate n PIdle"
    using stalled_start [OF n assms(2-4)] by blast
  obtain t where t: "rt_step\<^sup>*\<^sup>* s t" "r_pubs t = replicate n PIdle"
    "stalled cfg MRunning (foldl accept_one [Event_startup, Event_self_test_passed] fs) t"
    using stalled_calls [OF s(2,3) assms(1,2)] by blast
  obtain u where u: "rt_step\<^sup>*\<^sup>* t u" "r_main u = MDone" "r_pubs u = replicate n PIdle"
    "h_accepted u = accept_one (foldl accept_one [Event_startup, Event_self_test_passed] fs)
      Event_shutdown_requested"
    using stalled_stop [OF t(3,2) n assms(2)] by blast
  have "rt_reachable cfg base stride n u"
    using s(1) t(1) u(1) by (meson reachable_trans rt_init)
  then show ?thesis using u by blast
qed

lemma foldl_accept_one:
  "length es + length fs \<le> kEventQueueCapacity \<Longrightarrow> foldl accept_one es fs = es @ fs"
  by (induction fs arbitrary: es) (simp_all add: accept_one_def)

lemma reset_ignored:
  "m_state m = MotorState.healthy \<Longrightarrow>
     m_state (machine_run m (replicate k Event_reset_requested)) = MotorState.healthy"
  by (induction k arbitrary: m) (simp_all add: machine_step_def handle_def unchanged_def)

lemma startup_creates:
  assumes "2 \<le> n"
  shows "\<exists>s. rt_reachable cfg base stride n s \<and> r_pubs s ! 0 = PCreate Event_startup"
proof -
  let ?s = "runtime_init cfg base stride n"
  define s1 where "s1 = set_pub (?s\<lparr>r_started := True, r_accepting := True, r_running := True,
     r_control := CPop, r_main := MStartup\<rparr>) 0 (PCheck Event_startup)"
  have st1: "rt_step ?s s1" by (intro rt_step.start) (simp add: start_step_def runtime_init_def s1_def)
  have "rt_step s1 (set_pub s1 0 (PCreate Event_startup))"
    using rt_step.publish [of 0 s1 0 True "PCreate Event_startup" s1] assms
    by (simp add: s1_def runtime_init_def)
  then have "rt_reachable cfg base stride n (set_pub s1 0 (PCreate Event_startup))"
    using st1 by (meson rt_init rt_next)
  then show ?thesis using assms
    by (intro exI [of _ "set_pub s1 0 (PCreate Event_startup)"]) (simp add: s1_def runtime_init_def)
qed

section \<open>Properties\<close>

text \<open>
  C1. The event pipeline is memory safe, for any number of threads that publish and in any
  interleaving: every pool object has exactly one owner (a publisher, the queue or the control task),
  so no object is released twice or leaked, no release is ever rejected by the pool, and the control
  task only ever dereferences a handle whose object is alive.
\<close>

theorem runtime_memory_safe:
  assumes "rt_reachable cfg base stride publishers s"
    and "0 < base" and "0 < stride" and "2 \<le> publishers"
  shows "owned_by (live (r_pool s)) (rt_owners s) \<and> ps_invalid_releases (pool_stats (r_pool s)) = 0 \<and>
    (\<forall>h now. r_control s = CHandle h \<longrightarrow> control_step s now (CHandle h) \<noteq> None)"
proof -
  have inv: "rt_inv cfg s" using rt_inv_reachable [OF assms] .
  have "control_step s now (CHandle h) \<noteq> None" if "r_control s = CHandle h" for h now
    using control_owner_live [OF inv that] by (auto simp: Let_def split: prod.splits)
  then show ?thesis using rt_invD(5,6) [OF inv] by (simp add: pool_stats_def)
qed

theorem runtime_memory_safe_witness:
  "\<exists>s. rt_reachable ProtectionConfig_default 4096 64 3 s \<and> r_main s = MDone \<and>
    owned_by (live (r_pool s)) (rt_owners s) \<and> ps_invalid_releases (pool_stats (r_pool s)) = 0"
proof -
  obtain s where s: "rt_reachable ProtectionConfig_default 4096 64 3 s" "r_main s = MDone"
    using complete_run [of 3 4096 64 ProtectionConfig_default "[]"] by auto
  have "owned_by (live (r_pool s)) (rt_owners s) \<and> ps_invalid_releases (pool_stats (r_pool s)) = 0"
    using runtime_memory_safe [OF s(1)] by simp
  then show ?thesis using s by blast
qed

text \<open>
  C13. The pool is large enough for the queue: with at most 127 publishing threads, the lifecycle
  thread and the sensor task included, \<open>publish\<close> never finds the pool exhausted, because the queue
  holds at most 128 of the 256 objects and every thread at most one.
\<close>

theorem pool_never_exhausted:
  assumes "rt_reachable cfg base stride publishers s"
    and "0 < base" and "0 < stride" and "2 \<le> publishers" and "publishers \<le> 127"
    and "i < publishers" and "r_pubs s ! i = PCreate e"
  shows "\<exists>h s'. publish_step s now expired (r_pubs s ! i) = Some (PPush h, s') \<and>
    outstanding (r_pool s) < kEventPoolCapacity"
proof -
  have inv: "rt_inv cfg s" using rt_inv_reachable [OF assms(1-4)] .
  have "size (rt_owners s) < kEventPoolCapacity"
    using owners_bound [OF inv, of i] assms(5-7) reachable_length [OF assms(1)] by simp
  moreover have "size (rt_owners s) = outstanding (r_pool s)"
    using op.own_size [OF rt_invD(1,5) [OF inv]] card_dom_live [OF rt_invD(1) [OF inv]]
    by (simp add: outstanding_def pool_stats_def)
  ultimately show ?thesis
    using create_succeeds [OF inv, of now expired e] assms(7) by (simp del: publish_step.simps) blast
qed

theorem pool_never_exhausted_witness:
  "\<exists>s. rt_reachable ProtectionConfig_default 4096 64 3 s \<and> r_pubs s ! 0 = PCreate Event_startup \<and>
    (\<exists>h s'. publish_step s 0 False (r_pubs s ! 0) = Some (PPush h, s') \<and>
      outstanding (r_pool s) < kEventPoolCapacity)"
proof -
  obtain s where s: "rt_reachable ProtectionConfig_default 4096 64 3 s" "r_pubs s ! 0 = PCreate Event_startup"
    using startup_creates [of 3 ProtectionConfig_default 4096 64] by auto
  then show ?thesis using pool_never_exhausted [OF s(1), of 0 Event_startup 0 False] by auto
qed

text \<open>
  C5. The control task is a faithful interpreter of the queue: at any time the state machine is the
  result of feeding the accepted events, in the order of acceptance and without loss or repetition, to
  the initial machine, up to the at most 129 events that still wait in the queue or in the control
  task's hands.
\<close>

theorem machine_follows_events:
  assumes "rt_reachable cfg base stride publishers s"
    and "0 < base" and "0 < stride" and "2 \<le> publishers"
  shows "\<exists>pending. h_accepted s = h_handled s @ pending \<and> length pending \<le> kEventQueueCapacity + 1 \<and>
    r_machine s = machine_run (MotorStateMachine_init cfg) (h_handled s)"
proof -
  have inv: "rt_inv cfg s" using rt_inv_reachable [OF assms] .
  obtain pending where p: "h_accepted s = h_handled s @ pending" using rt_invD(7) [OF inv] by blast
  then have "length pending \<le> kEventQueueCapacity + 1" using pending_bound [OF inv] by simp
  then show ?thesis using p rt_invD(8) [OF inv] by blast
qed

theorem machine_follows_events_witness:
  "\<exists>s. rt_reachable ProtectionConfig_default 4096 64 3 s \<and> length (h_accepted s) = 3 \<and>
    (\<exists>pending. h_accepted s = h_handled s @ pending \<and> length pending \<le> kEventQueueCapacity + 1 \<and>
      r_machine s = machine_run (MotorStateMachine_init ProtectionConfig_default) (h_handled s))"
proof -
  obtain s where s: "rt_reachable ProtectionConfig_default 4096 64 3 s" "length (h_accepted s) = 3"
    using complete_run [of 3 4096 64 ProtectionConfig_default "[]"]
    by (auto simp: accept_one_def kEventQueueCapacity_def)
  then show ?thesis using machine_follows_events [OF s(1)] by auto
qed


text \<open>
  C12. Stopping drains and cleans up: when \<open>stop\<close> has returned and no call of \<open>publish\<close> is under way, the
  queue and the pool are empty, every accepted event has been handled, and the counters of published
  and processed events agree with the number of accepted events (modulo 2 to the power of 64).
\<close>

theorem stop_drains:
  assumes "rt_reachable cfg base stride publishers s"
    and "0 < base" and "0 < stride" and "2 \<le> publishers" and "r_main s = MDone" and "all_idle s"
  shows "queue_items (r_queue s) = [] \<and> live (r_pool s) = Map.empty \<and> outstanding (r_pool s) = 0 \<and>
    h_handled s = h_accepted s \<and>
    r_machine s = machine_run (MotorStateMachine_init cfg) (h_accepted s) \<and>
    mt_events_published (r_metrics s) = of_nat (length (h_accepted s)) \<and>
    mt_events_processed (r_metrics s) = of_nat (length (h_accepted s))"
proof -
  have inv: "rt_inv cfg s" using rt_inv_reachable [OF assms(1-4)] .
  note fin = done_handled [OF inv assms(5)] and idle = all_idle_holds [OF assms(6)]
  have "rt_owners s = {#}" using fin idle by (simp add: rt_owners_def)
  then have live: "live (r_pool s) = Map.empty"
    using rt_invD(5) [OF inv] by (auto simp: owned_by_def mset_set_empty_iff)
  moreover have "outstanding (r_pool s) = 0"
    using live card_dom_live [OF rt_invD(1) [OF inv]] by (simp add: outstanding_def pool_stats_def)
  moreover have "mt_events_published (r_metrics s) = of_nat (length (h_accepted s))"
    "mt_events_processed (r_metrics s) = of_nat (length (h_accepted s))"
    using rt_invD(9) [OF inv] fin idle by (simp_all add: rt_counters_def)
  ultimately show ?thesis using fin rt_invD(8) [OF inv] by simp
qed

theorem stop_drains_witness:
  "\<exists>s. rt_reachable ProtectionConfig_default 4096 64 3 s \<and> r_main s = MDone \<and>
    live (r_pool s) = Map.empty \<and> mt_events_processed (r_metrics s) = 3"
proof -
  obtain s where s: "rt_reachable ProtectionConfig_default 4096 64 3 s" "r_main s = MDone"
    "r_pubs s = replicate 3 PIdle" "length (h_accepted s) = 3"
    using complete_run [of 3 4096 64 ProtectionConfig_default "[]"]
    by (auto simp: accept_one_def kEventQueueCapacity_def)
  have "all_idle s" using s(3) by (simp add: all_idle_def)
  from stop_drains [OF s(1) _ _ _ s(2) this]
  have "live (r_pool s) = Map.empty" "mt_events_processed (r_metrics s) = of_nat 3"
    by (simp_all add: s(4))
  then show ?thesis using s(1,2) by (intro exI [of _ s]) simp
qed

text \<open>
  C11. The fail-safe goal of \<open>stop\<close>: if the queue accepted a shutdown request at any time, then the
  machine is in \<open>safe_shutdown\<close> when \<open>stop\<close> has returned, whatever else was published before, after or
  concurrently.
\<close>

theorem accepted_shutdown_is_final:
  assumes "rt_reachable cfg base stride publishers s"
    and "0 < base" and "0 < stride" and "2 \<le> publishers" and "r_main s = MDone"
    and "Event_shutdown_requested \<in> set (h_accepted s)"
  shows "m_state (r_machine s) = MotorState.safe_shutdown"
  using done_shutdown [OF rt_inv_reachable [OF assms(1-4)] assms(5,6)] .

theorem accepted_shutdown_is_final_witness:
  "\<exists>s. rt_reachable ProtectionConfig_default 4096 64 3 s \<and> r_main s = MDone \<and>
    m_state (r_machine s) = MotorState.safe_shutdown"
proof -
  obtain s where s: "rt_reachable ProtectionConfig_default 4096 64 3 s" "r_main s = MDone"
    "Event_shutdown_requested \<in> set (h_accepted s)"
    using complete_run [of 3 4096 64 ProtectionConfig_default "[]"]
    by (auto simp: accept_one_def kEventQueueCapacity_def)
  then show ?thesis using accepted_shutdown_is_final [OF s(1) _ _ _ s(2,3)] by auto
qed

text \<open>
  \<open>stop\<close> cannot hang in its last join: once the queue is closed, the control task always has a next
  step until it leaves its loop, each of its steps lowers a natural number, and no step of another
  thread raises that number.
\<close>

lemma drain_terminates:
  assumes "rt_reachable cfg base stride publishers s"
    and "0 < base" and "0 < stride" and "2 \<le> publishers"
    and "q_closed (r_queue s)" and "r_control s \<noteq> CExit"
  shows "(\<exists>pc s'. control_step s now (r_control s) = Some (pc, s') \<and>
      drain_rank (s'\<lparr>r_control := pc\<rparr>) < drain_rank s) \<and>
    (\<forall>t. rt_step s t \<longrightarrow> drain_rank t \<le> drain_rank s)"
proof -
  have inv: "rt_inv cfg s" using rt_inv_reachable [OF assms(1-4)] .
  have "r_main s \<in> {MJoinControl, MDone}" "r_control s = CNone \<longleftrightarrow> r_main s = MInit"
    using rt_invD(10) [OF inv] assms(5) by (simp_all add: rt_phases_def)
  then have "r_control s \<noteq> CNone" by auto
  then show ?thesis
    using control_enabled [OF inv _ assms(6), of now] control_step_rank [OF inv]
      closed_rank [OF inv assms(5)] assms(5)
    by blast
qed

text \<open>
  \<open>publish\<close> always returns: in every reachable state, a call whose push timeout has passed can take
  its next step without waiting for any other thread, and after at most five steps it is over.
\<close>

lemma publish_returns:
  assumes "rt_reachable cfg base stride publishers s"
    and "0 < base" and "0 < stride" and "2 \<le> publishers"
    and "i < publishers" and "r_pubs s ! i \<noteq> PIdle" and "\<not> returned (r_pubs s ! i)"
  shows "\<exists>pc s'. publish_step s now True (r_pubs s ! i) = Some (pc, s') \<and>
    publish_rank pc < publish_rank (r_pubs s ! i) \<and> publish_rank (r_pubs s ! i) \<le> 5"
proof -
  have inv: "rt_inv cfg s" using rt_inv_reachable [OF assms(1-4)] .
  have "publish_rank pc \<le> 5" for pc by (cases pc) simp_all
  then show ?thesis using publish_progress [OF inv assms(6,7), of now] by blast
qed

text \<open>
  \<open>stop\<close> does not look at the result of its own \<open>publish\<close>: if the queue is full for longer than the
  push timeout, the shutdown request is dropped, and \<open>stop\<close> drains the queue and returns with a machine
  that is still \<open>healthy\<close>.
\<close>

lemma shutdown_request_can_be_lost:
  "\<exists>s. rt_reachable ProtectionConfig_default 4096 64 3 s \<and> r_main s = MDone \<and> all_idle s \<and>
    Event_shutdown_requested \<notin> set (h_accepted s) \<and> m_state (r_machine s) = MotorState.healthy"
proof -
  let ?fs = "replicate 126 Event_reset_requested"
  let ?es = "[Event_startup, Event_self_test_passed] @ ?fs"
  have "foldl accept_one [Event_startup, Event_self_test_passed] ?fs = ?es"
    by (rule foldl_accept_one) (simp add: kEventQueueCapacity_def)
  moreover have "accept_one ?es Event_shutdown_requested = ?es"
    by (simp add: accept_one_def kEventQueueCapacity_def)
  ultimately obtain s where s: "rt_reachable ProtectionConfig_default 4096 64 3 s" "r_main s = MDone"
    "r_pubs s = replicate 3 PIdle" "h_accepted s = ?es"
    using complete_run [of 3 4096 64 ProtectionConfig_default ?fs] by auto
  have inv: "rt_inv ProtectionConfig_default s" using rt_inv_reachable [OF s(1)] by simp
  have "r_machine s = machine_run (MotorStateMachine_init ProtectionConfig_default) ?es"
    using rt_invD(8) [OF inv] done_handled(3) [OF inv s(2)] s(4) by simp
  then have "m_state (r_machine s) = MotorState.healthy"
    using reset_ignored
    by (simp add: machine_step_def handle_def MotorStateMachine_init_def transition_to_def
        reset_counters_def Let_def)
  moreover have "Event_shutdown_requested \<notin> set ?es"
    by (simp add: Event_shutdown_requested_def Event_reset_requested_def Event_startup_def
        Event_self_test_passed_def)
  ultimately show ?thesis using s by (intro exI [of _ s]) (simp add: all_idle_def)
qed

end
