(* ===== verification/Runtime_Calls.thy ===== *)
theory Runtime_Calls
  imports Edge_Runtime
begin

text \<open>
  Calls of \<open>publish\<close> from outside as a whole: the caller's steps interleaved with those of all other
  threads, and what the caller may conclude from the result. This is the interface the command
  interpreter of the daemon relies on.
\<close>

section \<open>Calls\<close>

text \<open>A step of another thread than publisher \<open>i\<close>, which finds its own place unchanged.\<close>

definition other_step :: "nat \<Rightarrow> runtime \<Rightarrow> runtime \<Rightarrow> bool" where
  "other_step i s t \<longleftrightarrow> rt_step s t \<and> r_pubs t ! i = r_pubs s ! i"

definition call_step :: "nat \<Rightarrow> runtime \<Rightarrow> runtime \<Rightarrow> bool" where
  "call_step i s t \<longleftrightarrow> own_step i s t \<or> other_step i s t"

inductive publish_call :: "nat \<Rightarrow> runtime \<Rightarrow> Event \<Rightarrow> PublishResult \<Rightarrow> runtime \<Rightarrow> bool" for i where
  "2 \<le> i \<Longrightarrow> i < length (r_pubs s) \<Longrightarrow> r_pubs s ! i = PIdle \<Longrightarrow>
     (call_step i)\<^sup>*\<^sup>* (set_pub s i (PCheck e)) t \<Longrightarrow> r_pubs t ! i = PReturn r \<Longrightarrow>
     publish_call i s e r (set_pub t i PIdle)"

text \<open>What the place of a caller says about the event it publishes.\<close>

definition call_ok :: "nat \<Rightarrow> Event \<Rightarrow> runtime \<Rightarrow> bool" where
  "call_ok i e s \<longleftrightarrow>
     (case r_pubs s ! i of
        PIdle \<Rightarrow> False
      | PCheck e' \<Rightarrow> e' = e
      | PCreate e' \<Rightarrow> e' = e
      | PPush h \<Rightarrow> event_at (r_pool s) h = e
      | PRelease h r \<Rightarrow> r \<noteq> PublishResult.published
      | PPublished \<Rightarrow> e \<in> set (h_accepted s)
      | PDropped r \<Rightarrow> r \<noteq> PublishResult.published
      | PReturn r \<Rightarrow> r = PublishResult.published \<longrightarrow> e \<in> set (h_accepted s))"

section \<open>Steps of the others\<close>

lemma call_step_rt: "call_step i s t \<Longrightarrow> rt_step s t"
  by (auto simp: call_step_def other_step_def own_step_rt)

lemma call_run_rt: "(call_step i)\<^sup>*\<^sup>* s t \<Longrightarrow> rt_step\<^sup>*\<^sup>* s t"
  by (erule mono_rtranclp [rule_format, rotated]) (rule call_step_rt)

lemma publish_call_run:
  assumes "publish_call i s e r t"
  shows "rt_step\<^sup>*\<^sup>* s t"
  using assms
proof cases
  case (1 u)
  have "rt_step s (set_pub s i (PCheck e))" using 1 by (intro rt_step.call) simp_all
  moreover have "rt_step u t"
    using 1 rt_step_length_run [OF call_run_rt [OF 1(5)]] by (auto intro!: rt_step.return)
  ultimately show ?thesis
    using call_run_rt [OF 1(5)]
    by (meson converse_rtranclp_into_rtranclp rtranclp.rtrancl_into_rtrancl)
qed

text \<open>An object that a publisher holds stays as it is while other threads run.\<close>

lemma holder_in_sum:
  "i < length ps \<Longrightarrow> a \<in># pub_holds (ps ! i) \<Longrightarrow> a \<in># sum_list (map pub_holds ps)"
proof (induction ps arbitrary: i)
  case (Cons p ps)
  then show ?case by (cases i) auto
qed simp

lemma owner_not_released:
  assumes inv: "rt_inv cfg s" and "a \<in># rt_owners s" and "b \<in># rt_owners s - {#a#}"
  shows "live (snd (destroy (r_pool s) a)) b = live (r_pool s) b"
proof -
  note D = rt_invD [OF inv]
  obtain r p where d: "destroy (r_pool s) a = (r, p)" by (cases "destroy (r_pool s) a")
  show ?thesis
    using op.own_dispose [OF D(1,5) assms(2) d] op.own_others [OF D(1,5) assms(2,3)] d by simp
qed

lemma other_publisher_keeps:
  assumes inv: "rt_inv cfg s" and j: "j < length (r_pubs s)" and ij: "i < length (r_pubs s)" "i \<noteq> j"
    and h: "a \<in># pub_holds (r_pubs s ! i)"
    and step: "publish_step s now expired (r_pubs s ! j) = Some (pc, s')"
  shows "live (r_pool s') a = live (r_pool s) a"
proof (cases "r_pubs s ! j")
  case (PCreate e)
  let ?v = "\<lparr>pe_event = e, pe_created_at = now\<rparr>"
  note D = rt_invD [OF inv]
  obtain b p where c: "create_object (r_pool s) ?v = (b, p)" by (cases "create_object (r_pool s) ?v")
  have "r_pool s' = p"
    using step PCreate by (auto simp: try_create_handle [OF D(1)] c Let_def split: if_splits)
  moreover have "a \<in># rt_owners s" using holder_in_sum [OF ij(1) h] by (simp add: rt_owners_def)
  ultimately show ?thesis
    using op.create_keeps [OF D(1) c] op.owner_not_null [OF D(1,5)] by blast
next
  case (PPush h')
  then show ?thesis using step by (auto split: option.splits if_splits)
next
  case (PRelease h' r)
  let ?b = "h_object h'"
  have "sum_list (map pub_holds (r_pubs s)) =
      add_mset ?b (sum_list (map pub_holds ((r_pubs s)[j := PIdle])))"
    using pubs_update [OF j, of PIdle] PRelease by simp
  moreover have "a \<in># sum_list (map pub_holds ((r_pubs s)[j := PIdle]))"
    using ij h by (intro holder_in_sum [of i]) simp_all
  ultimately have "?b \<in># rt_owners s" "a \<in># rt_owners s - {#?b#}" by (simp_all add: rt_owners_def)
  from owner_not_released [OF inv this] show ?thesis using step PRelease by auto
qed (use step in \<open>auto split: if_splits\<close>)

lemma control_keeps:
  assumes inv: "rt_inv cfg s" and i: "i < length (r_pubs s)" and h: "a \<in># pub_holds (r_pubs s ! i)"
    and step: "control_step s now (r_control s) = Some (pc, s')"
  shows "live (r_pool s') a = live (r_pool s) a"
proof (cases "r_control s")
  case (CRelease h')
  have "a \<in># sum_list (map pub_holds (r_pubs s))" by (rule holder_in_sum [OF i h])
  then have "h_object h' \<in># rt_owners s" "a \<in># rt_owners s - {#h_object h'#}"
    using CRelease by (simp_all add: rt_owners_def)
  from owner_not_released [OF inv this] show ?thesis using step CRelease by auto
next
  case CPop
  then show ?thesis using step by (auto split: option.splits)
next
  case (CHandle h')
  then show ?thesis using step by (auto simp: Let_def split: option.splits prod.splits)
qed (use step in auto)

lemma lifecycle_keeps:
  assumes "start_step s = Some t \<or> stop_step s = Some t"
  shows "r_pool t = r_pool s \<and> h_accepted t = h_accepted s"
  using assms
  by (cases "r_main s") (auto simp: start_step_def stop_step_def split: if_splits)

lemma other_step_keeps:
  assumes inv: "rt_inv cfg s" and i: "i < length (r_pubs s)" and h: "r_pubs s ! i = PPush h"
    and step: "other_step i s t"
  shows "live (r_pool t) (h_object h) = live (r_pool s) (h_object h)"
proof -
  have held: "h_object h \<in># pub_holds (r_pubs s ! i)" using h by simp
  have same: "r_pubs t ! i = PPush h" and rt: "rt_step s t" using step h by (simp_all add: other_step_def)
  from rt show ?thesis
  proof cases
    case (publish j now expired pc s')
    have "i \<noteq> j"
    proof
      assume "i = j"
      then have "pc = PPush h" using publish same publish_step_frame [OF publish(3)] i by simp
      then show False using publish h \<open>i = j\<close> by (auto split: option.splits if_splits)
    qed
    then show ?thesis using other_publisher_keeps [OF inv publish(2) i _ held publish(3)] publish(1) by simp
  next
    case (control now pc s')
    then show ?thesis using control_keeps [OF inv i held control(2)] by simp
  next
    case (sensor reading)
    then show ?thesis by (auto simp: sensor_step_def split: if_splits)
  next
    case monitor
    then show ?thesis by (auto simp: monitor_step_def split: if_splits)
  next
    case start
    then show ?thesis using lifecycle_keeps [of s t] by simp
  next
    case stop
    then show ?thesis using lifecycle_keeps [of s t] by simp
  qed simp_all
qed

lemma accepted_extends:
  assumes "rt_step s t"
  shows "\<exists>zs. h_accepted t = h_accepted s @ zs"
  using assms
proof cases
  case (publish i now expired pc s')
  then show ?thesis
    by (cases "r_pubs s ! i") (auto split: option.splits prod.splits if_splits)
next
  case (control now pc s')
  then show ?thesis using control_step_frame [OF control(2)] by simp
next
  case (sensor reading)
  then show ?thesis by (auto simp: sensor_step_def split: if_splits)
next
  case monitor
  then show ?thesis by (auto simp: monitor_step_def split: if_splits)
next
  case start
  then show ?thesis using lifecycle_keeps [of s t] by simp
next
  case stop
  then show ?thesis using lifecycle_keeps [of s t] by simp
qed simp_all

lemma accepted_grows: "rt_step s t \<Longrightarrow> set (h_accepted s) \<subseteq> set (h_accepted t)"
  using accepted_extends by fastforce

lemma accepted_grows_run: "rt_step\<^sup>*\<^sup>* s t \<Longrightarrow> set (h_accepted s) \<subseteq> set (h_accepted t)"
  by (induction rule: rtranclp_induct) (auto dest: accepted_grows)

section \<open>What the result of a call means\<close>

lemma own_step_ok:
  assumes inv: "rt_inv cfg s" and "own_step i s t" and "call_ok i e s"
  shows "call_ok i e t"
proof -
  obtain now expired pc s' where i: "i < length (r_pubs s)"
    and step: "publish_step s now expired (r_pubs s ! i) = Some (pc, s')" and t: "t = set_pub s' i pc"
    using assms(2) by (auto simp: own_step_def)
  have pubs: "r_pubs s' = r_pubs s" using publish_step_frame [OF step] by simp
  then have pc: "r_pubs t ! i = pc" using t i by simp
  show ?thesis
  proof (cases "r_pubs s ! i")
    case (PCreate e')
    let ?v = "\<lparr>pe_event = e, pe_created_at = now\<rparr>"
    note D = rt_invD [OF inv]
    obtain a p where c: "create_object (r_pool s) ?v = (a, p)" by (cases "create_object (r_pool s) ?v")
    have e: "e' = e" using assms(3) PCreate by (simp add: call_ok_def)
    have "live p a = Some ?v" if "a \<noteq> nullptr" by (rule op.create_live [OF D(1) c that])
    then show ?thesis
      using step PCreate e pc t
      by (auto simp: call_ok_def try_create_handle [OF D(1)] c Let_def event_at_def split: if_splits)
  next
    case (PPush h)
    have "refused r \<noteq> PublishResult.published" for r by (cases r) simp_all
    then show ?thesis
      using step PPush assms(3) pc t by (auto simp: call_ok_def split: option.splits if_splits)
  qed (use step assms(3) pc t in \<open>auto simp: call_ok_def split: if_splits\<close>)
qed

lemma other_step_ok:
  assumes inv: "rt_inv cfg s" and i: "i < length (r_pubs s)" and "other_step i s t" and "call_ok i e s"
  shows "call_ok i e t"
proof -
  have same: "r_pubs t ! i = r_pubs s ! i" using assms(3) by (simp add: other_step_def)
  have "set (h_accepted s) \<subseteq> set (h_accepted t)"
    using assms(3) accepted_grows by (simp add: other_step_def)
  moreover have "event_at (r_pool t) h = event_at (r_pool s) h" if "r_pubs s ! i = PPush h" for h
    using other_step_keeps [OF inv i that assms(3)] by (simp add: event_at_def)
  ultimately show ?thesis
    using assms(4) same by (auto simp: call_ok_def split: pub_pc.splits)
qed

lemma call_run_ok:
  assumes "(call_step i)\<^sup>*\<^sup>* s t" and "rt_inv cfg s" and "i < length (r_pubs s)" and "call_ok i e s"
  shows "call_ok i e t"
proof -
  have "rt_inv cfg t \<and> i < length (r_pubs t) \<and> call_ok i e t"
    using assms
  proof (induction rule: rtranclp_induct)
    case (step t u)
    then have inv: "rt_inv cfg t" and i: "i < length (r_pubs t)" and ok: "call_ok i e t" by auto
    have "rt_step t u" using step(2) by (rule call_step_rt)
    moreover have "call_ok i e u"
      using step(2) own_step_ok [OF inv _ ok] other_step_ok [OF inv i _ ok] by (auto simp: call_step_def)
    ultimately show ?case using rt_inv_step [OF _ inv] i rt_step_length by simp
  qed simp
  then show ?thesis by simp
qed

lemma publish_call_accepted:
  assumes "publish_call i s e PublishResult.published t" and "rt_inv cfg s"
  shows "e \<in> set (h_accepted t)"
  using assms(1)
proof cases
  case (1 u)
  have step: "rt_step s (set_pub s i (PCheck e))" using 1 by (intro rt_step.call) simp_all
  have "call_ok i e u"
    using 1 by (intro call_run_ok [OF 1(5) rt_inv_step [OF step assms(2)]]) (simp_all add: call_ok_def)
  then show ?thesis using 1 by (simp add: call_ok_def)
qed

end
