(* ===== verification/Simulated_Sensor.thy ===== *)
theory Simulated_Sensor
  imports Sensor_Source
begin

text \<open>
  The sensor of \<open>include/edge_sentinel/simulation/simulated_sensor.hpp\<close>, whose readings other threads
  set: a baseline and an optional override. Every method holds the mutex for its whole body, so each
  is one function; what other threads do between two reads is a list of calls.
\<close>

record SimulatedSensor =
  ss_baseline :: SensorSample
  ss_override :: "SensorSample option"
  ss_sequence :: uint64

definition SimulatedSensor_init :: "SensorSample \<Rightarrow> SimulatedSensor" where
  "SimulatedSensor_init baseline = \<lparr>ss_baseline = baseline, ss_override = None, ss_sequence = 0\<rparr>"

definition simulated_read :: "SimulatedSensor \<Rightarrow> SensorSample \<times> SimulatedSensor" where
  "simulated_read s =
     (let result = (case ss_override s of None \<Rightarrow> ss_baseline s | Some v \<Rightarrow> v);
          s = s\<lparr>ss_sequence := ss_sequence s + 1\<rparr>
      in (result\<lparr>sequence := ss_sequence s\<rparr>, s))"

definition set_baseline :: "SimulatedSensor \<Rightarrow> SensorSample \<Rightarrow> SimulatedSensor" where
  "set_baseline s baseline = s\<lparr>ss_baseline := baseline\<rparr>"

definition set_override :: "SimulatedSensor \<Rightarrow> SensorSample \<Rightarrow> SimulatedSensor" where
  "set_override s v = s\<lparr>ss_override := Some v\<rparr>"

definition clear_override :: "SimulatedSensor \<Rightarrow> SimulatedSensor" where
  "clear_override s = s\<lparr>ss_override := None\<rparr>"

datatype sim_call =
    SetBaseline SensorSample
  | SetOverride SensorSample
  | ClearOverride

fun sim_do :: "SimulatedSensor \<Rightarrow> sim_call \<Rightarrow> SimulatedSensor" where
  "sim_do s (SetBaseline v) = set_baseline s v"
| "sim_do s (SetOverride v) = set_override s v"
| "sim_do s ClearOverride = clear_override s"

text \<open>A read after the calls of other threads.\<close>

definition simulated_source :: "sim_call list \<Rightarrow> SimulatedSensor \<Rightarrow> SensorSample \<times> SimulatedSensor" where
  "simulated_source cs s = simulated_read (foldl sim_do s cs)"

text \<open>What the sensor shows, apart from the number.\<close>

definition shown :: "SimulatedSensor \<Rightarrow> SensorSample" where
  "shown s = (case ss_override s of None \<Rightarrow> ss_baseline s | Some v \<Rightarrow> v)"

lemma sim_do_sequence [simp]: "ss_sequence (sim_do s c) = ss_sequence s"
  by (cases c) (simp_all add: set_baseline_def set_override_def clear_override_def)

lemma sim_calls_sequence [simp]: "ss_sequence (foldl sim_do s cs) = ss_sequence s"
  by (induction cs arbitrary: s) simp_all

lemma simulated_read_simps [simp]:
  "fst (simulated_read s) = (shown s)\<lparr>sequence := ss_sequence s + 1\<rparr>"
  "ss_sequence (snd (simulated_read s)) = ss_sequence s + 1"
  "shown (snd (simulated_read s)) = shown s"
  by (simp_all add: simulated_read_def shown_def Let_def split: option.split)

lemma shown_simps [simp]:
  "shown (set_override s v) = v"
  "shown (set_baseline s v) = (case ss_override s of None \<Rightarrow> v | Some w \<Rightarrow> w)"
  "shown (clear_override s) = ss_baseline s"
  by (simp_all add: shown_def set_override_def set_baseline_def clear_override_def split: option.split)

interpretation sim: monitored_source simulated_source ss_sequence
  "\<lambda>cs s. \<not> online (shown (foldl sim_do s cs))"
  by unfold_locales (simp_all add: simulated_source_def)

text \<open>Undisturbed reads show the same readings every time.\<close>

lemma undisturbed_reads:
  "\<forall>v \<in> set (fst (source_reads simulated_source (replicate n []) s)).
     \<exists>k. v = (shown s)\<lparr>sequence := k\<rparr>"
proof (induction n arbitrary: s)
  case (Suc n)
  then show ?case
    using Suc [of "snd (simulated_read s)"]
    by (auto simp: source_reads_Cons simulated_source_def simp del: source_reads.simps(2))
qed simp

end
