(* ===== verification/Fairness.thy ===== *)
theory Fairness
  imports Prelude
begin

text \<open>
  Runs of a system of threads under a fair scheduler. A step is labelled with the thread that takes it;
  a run is an infinite sequence of states, in which \<open>None\<close> marks a moment where nobody moves. The run is
  fair to a thread if the thread is not kept waiting for ever while it could take a step. The locale
  gives the rule for liveness: in every state short of the goal some thread is helpful, its steps lower
  a rank, and the steps of the others do not undo that.
\<close>

section \<open>Runs\<close>

definition can_step :: "('k \<Rightarrow> 's \<Rightarrow> 's \<Rightarrow> bool) \<Rightarrow> 'k \<Rightarrow> 's \<Rightarrow> bool" where
  "can_step step k s \<longleftrightarrow> (\<exists>t. step k s t)"

definition is_run :: "('k \<Rightarrow> 's \<Rightarrow> 's \<Rightarrow> bool) \<Rightarrow> (nat \<Rightarrow> 'k option) \<Rightarrow> (nat \<Rightarrow> 's) \<Rightarrow> bool" where
  "is_run step mover run \<longleftrightarrow>
     (\<forall>n. case mover n of None \<Rightarrow> run (Suc n) = run n | Some k \<Rightarrow> step k (run n) (run (Suc n)))"

definition fair_to ::
    "('k \<Rightarrow> 's \<Rightarrow> 's \<Rightarrow> bool) \<Rightarrow> 'k \<Rightarrow> (nat \<Rightarrow> 'k option) \<Rightarrow> (nat \<Rightarrow> 's) \<Rightarrow> bool" where
  "fair_to step k mover run \<longleftrightarrow> (\<forall>n. \<exists>m \<ge> n. \<not> can_step step k (run m) \<or> mover m = Some k)"

lemma fair_toD:
  assumes "fair_to step k mover run"
  obtains m where "m \<ge> n" "\<not> can_step step k (run m) \<or> mover m = Some k"
  using assms unfolding fair_to_def by metis

lemma run_cases:
  assumes "is_run step mover run"
  obtains (stay) "mover n = None" "run (Suc n) = run n"
  | (move) k where "mover n = Some k" "step k (run n) (run (Suc n))"
  using assms unfolding is_run_def by (cases "mover n") (metis (full_types) option.simps(4), metis option.simps(5))

lemma run_invariant:
  assumes "is_run step mover run" and "\<And>k s t. P s \<Longrightarrow> step k s t \<Longrightarrow> P t" and "P (run i)"
  shows "P (run (i + n))"
proof (induction n)
  case (Suc n)
  show ?case by (rule run_cases [OF assms(1), of "i + n"]) (use Suc assms(2) in auto)
qed (use assms(3) in simp)

text \<open>A finite run that ends where no thread can move goes on for ever, standing still, and is fair.\<close>

lemma finite_run_fair:
  assumes path: "(\<lambda>s t. \<exists>k. step k s t)\<^sup>*\<^sup>* s t" and stuck: "\<And>k. k \<in> K \<Longrightarrow> \<not> can_step step k t"
  shows "\<exists>mover run. is_run step mover run \<and> (\<forall>k \<in> K. fair_to step k mover run) \<and> run 0 = s"
  using path
proof (induction rule: converse_rtranclp_induct)
  case base
  have "is_run step (\<lambda>n. None) (\<lambda>n. t)" by (simp add: is_run_def)
  moreover have "\<forall>k \<in> K. fair_to step k (\<lambda>n. None) (\<lambda>n. t)" unfolding fair_to_def using stuck by blast
  ultimately show ?case by (intro exI [of _ "\<lambda>n. None"] exI [of _ "\<lambda>n. t"]) simp
next
  case (step s u)
  from step(1) obtain k where k: "step k s u" by blast
  from step(3) obtain mover run where run: "is_run step mover run"
    and fair: "\<forall>k \<in> K. fair_to step k mover run" and start: "run 0 = u" by blast
  let ?mover = "case_nat (Some k) mover" and ?run = "case_nat s run"
  have "is_run step ?mover ?run"
    unfolding is_run_def
  proof
    fix n
    show "case ?mover n of None \<Rightarrow> ?run (Suc n) = ?run n | Some k \<Rightarrow> step k (?run n) (?run (Suc n))"
    proof (cases n)
      case (Suc m)
      then show ?thesis
        using run [unfolded is_run_def, THEN spec, of m] by (cases "mover m") simp_all
    qed (use k start in simp)
  qed
  moreover have "fair_to step k ?mover ?run" if K: "k \<in> K" for k
    unfolding fair_to_def
  proof
    fix n
    obtain m where "m \<ge> n" "\<not> can_step step k (run m) \<or> mover m = Some k"
      using fair_toD [OF bspec [OF fair K]] by blast
    then show "\<exists>m \<ge> n. \<not> can_step step k (?run m) \<or> ?mover m = Some k"
      by (intro exI [of _ "Suc m"]) simp
  qed
  ultimately show ?case by (intro exI [of _ ?mover] exI [of _ ?run]) simp
qed

section \<open>Liveness from a rank\<close>

locale ranked_progress =
  fixes step :: "'k \<Rightarrow> 's \<Rightarrow> 's \<Rightarrow> bool"
    and inv :: "'s \<Rightarrow> bool"
    and goal :: "'s \<Rightarrow> bool"
    and rank :: "'s \<Rightarrow> 'r::wellorder"
    and helpful :: "'s \<Rightarrow> 'k"
  assumes inv_step: "inv s \<Longrightarrow> \<not> goal s \<Longrightarrow> step k s t \<Longrightarrow> goal t \<or> inv t"
    and helpful_enabled: "inv s \<Longrightarrow> \<not> goal s \<Longrightarrow> can_step step (helpful s) s"
    and helpful_advances: "inv s \<Longrightarrow> \<not> goal s \<Longrightarrow> step (helpful s) s t \<Longrightarrow> goal t \<or> rank t < rank s"
    and others_keep: "inv s \<Longrightarrow> \<not> goal s \<Longrightarrow> step k s t \<Longrightarrow>
      goal t \<or> rank t < rank s \<or> rank t = rank s \<and> helpful t = helpful s"
begin

text \<open>As long as the rank has not dropped, the same thread stays helpful.\<close>

lemma waits_for_helpful:
  assumes run: "is_run step mover run" and "inv (run i)" and "\<not> goal (run i)"
  shows "(\<exists>j \<ge> i. goal (run j)) \<or> (\<exists>j \<ge> i. inv (run j) \<and> rank (run j) < rank (run i)) \<or>
    inv (run (i + n)) \<and> \<not> goal (run (i + n)) \<and> rank (run (i + n)) = rank (run i) \<and>
      helpful (run (i + n)) = helpful (run i)"
proof (induction n)
  case (Suc n)
  show ?case
  proof (rule run_cases [OF run, of "i + n"])
    assume "run (Suc (i + n)) = run (i + n)"
    then show ?thesis using Suc by auto
  next
    fix k
    assume step: "step k (run (i + n)) (run (Suc (i + n)))"
    show ?thesis
    proof (rule ccontr)
      assume neg: "\<not> ?thesis"
      then have here: "inv (run (i + n))" "\<not> goal (run (i + n))" "rank (run (i + n)) = rank (run i)"
        "helpful (run (i + n)) = helpful (run i)" using Suc by blast+
      have later: "i \<le> Suc (i + n)" by simp
      have ng: "\<not> goal (run (Suc (i + n)))" using neg later by blast
      then have "inv (run (Suc (i + n)))" using inv_step [OF here(1,2) step] by blast
      moreover from this have "\<not> rank (run (Suc (i + n))) < rank (run i)"
        using neg later by blast
      ultimately show False using others_keep [OF here(1,2) step] ng here neg by simp
    qed
  qed
qed (use assms in simp)

theorem fair_run_reaches_goal:
  assumes run: "is_run step mover run" and "inv (run i)"
    and fair: "\<And>k. k \<in> range helpful \<Longrightarrow> fair_to step k mover run"
  shows "\<exists>j \<ge> i. goal (run j)"
  using assms(2)
proof (induction "rank (run i)" arbitrary: i rule: less_induct)
  case less
  show ?case
  proof (cases "goal (run i)")
    case False
    let ?k = "helpful (run i)"
    obtain m where m: "m \<ge> i" "\<not> can_step step ?k (run m) \<or> mover m = Some ?k"
      using fair_toD [OF fair [of ?k]] by blast
    then obtain n where n: "m = i + n" using le_Suc_ex by blast
    consider (goal) "\<exists>j \<ge> i. goal (run j)"
      | (drop) "\<exists>j \<ge> i. inv (run j) \<and> rank (run j) < rank (run i)"
      | (wait) "inv (run m)" "\<not> goal (run m)" "rank (run m) = rank (run i)" "helpful (run m) = ?k"
      using waits_for_helpful [OF run less(2) False, of n] n by blast
    then show ?thesis
    proof cases
      case drop
      then obtain j where j: "j \<ge> i" "inv (run j)" "rank (run j) < rank (run i)" by blast
      obtain l where "l \<ge> j" "goal (run l)" using less(1) [OF j(3,2)] by blast
      then show ?thesis using j(1) order_trans by blast
    next
      case wait
      then have "mover m = Some ?k" using m(2) helpful_enabled [of "run m"] by auto
      then have step: "step (helpful (run m)) (run m) (run (Suc m))"
        using run wait(4) unfolding is_run_def by (metis option.simps(5))
      have "goal (run (Suc m)) \<or> rank (run (Suc m)) < rank (run i)"
        using helpful_advances [OF wait(1,2) step] wait(3) by simp
      moreover have "goal (run (Suc m)) \<or> inv (run (Suc m))" using inv_step [OF wait(1,2) step] .
      ultimately consider "goal (run (Suc m))" | "inv (run (Suc m))" "rank (run (Suc m)) < rank (run i)" by blast
      then obtain l where "l \<ge> Suc m" "goal (run l)" using less(1) [of "Suc m"] by cases auto
      then show ?thesis using m(1) by (intro exI [of _ l]) simp
    qed simp
  qed auto
qed

text \<open>If only helpful threads move, the goal is reached in finitely many steps.\<close>

lemma helpful_path:
  assumes "inv s"
  shows "\<exists>t. (\<lambda>s t. inv s \<and> \<not> goal s \<and> step (helpful s) s t)\<^sup>*\<^sup>* s t \<and> goal t"
  using assms
proof (induction "rank s" arbitrary: s rule: less_induct)
  case less
  show ?case
  proof (cases "goal s")
    case False
    then obtain t where step: "step (helpful s) s t"
      using helpful_enabled [OF less(2)] by (auto simp: can_step_def)
    show ?thesis
    proof (cases "goal t")
      case True
      then show ?thesis using step False less(2) by (intro exI [of _ t]) auto
    next
      case ng: False
      then have "inv t" "rank t < rank s"
        using inv_step [OF less(2) False step] helpful_advances [OF less(2) False step] by blast+
      then obtain u where "(\<lambda>s t. inv s \<and> \<not> goal s \<and> step (helpful s) s t)\<^sup>*\<^sup>* t u" "goal u"
        using less(1) [of t] by blast
      then show ?thesis
        using step False less(2) by (intro exI [of _ u]) (auto intro: converse_rtranclp_into_rtranclp)
    qed
  qed auto
qed

end

end
