(* ===== verification/Runtime_Tasks.thy ===== *)
theory Runtime_Tasks
  imports Runtime_Calls Simulated_Sensor Fairness
begin

text \<open>
  The tasks of \<open>include/edge_sentinel/runtime/edge_runtime.hpp\<close> in detail: the loops of the sensor task
  and of the monitor task with their waits, the sensor the first one reads, and what \<open>start\<close> and \<open>stop\<close>
  do with the threads. A step is labelled with the thread that takes it. The steps of the runtime as
  \<open>Edge_Runtime\<close> has them, where samples come at any time and from anywhere, are an abstraction: every
  detailed step is one of them or leaves the runtime as it is.
\<close>

section \<open>Model\<close>

text \<open>
  Where the sensor task stands: before the test of the stop token, before \<open>read\<close>, in \<open>publish\<close>, in
  \<open>wait_for_period\<close>; and the monitor task: in \<open>wait_for_period\<close>, or before it counts.
\<close>

datatype sensor_pc = SNone | STop | SRead | SPublish | SWait | SExit

datatype monitor_pc = TNone | TWait | TTick | TExit

text \<open>
  The runtime with its sensor, which may be a null pointer, and the stop token of the monitor task; that of
  the sensor task is the flag of \<open>Edge_Runtime\<close>. The last field is a history variable, the samples the
  sensor task has read.
\<close>

record 's tasks =
  t_rt :: runtime
  t_source :: "'s option"
  t_sensor :: sensor_pc
  t_monitor :: monitor_pc
  t_monitor_stop :: bool
  t_reads :: "SensorSample list"

definition tasks_init :: "ProtectionConfig \<Rightarrow> nat \<Rightarrow> nat \<Rightarrow> nat \<Rightarrow> 's option \<Rightarrow> 's tasks" where
  "tasks_init cfg base stride publishers source =
     \<lparr>t_rt = runtime_init cfg base stride publishers, t_source = source,
      t_sensor = SNone, t_monitor = TNone, t_monitor_stop = False, t_reads = []\<rparr>"

text \<open>
  The wait ends when the period is over or a stop is requested, and tells whether to go on; \<open>None\<close> while
  it lasts. The predicate of the condition variable is constantly false, so nothing else ends it.
\<close>

definition wait_for_period :: "bool \<Rightarrow> bool \<Rightarrow> bool option" where
  "wait_for_period stop_requested expired =
     (if expired \<or> stop_requested then Some (\<not> stop_requested) else None)"

text \<open>The loops; \<open>e\<close> is what the outside world does to the sensor, \<open>expired\<close> whether the period is over.\<close>

definition sensor_loop ::
    "('e \<Rightarrow> 's \<Rightarrow> SensorSample \<times> 's) \<Rightarrow> 'e \<Rightarrow> bool \<Rightarrow> 's tasks \<Rightarrow> 's tasks option" where
  "sensor_loop read e expired s =
     (case t_sensor s of
        SNone \<Rightarrow> None
      | STop \<Rightarrow>
          Some (s\<lparr>t_sensor := if r_stop_requested (t_rt s) then SExit
                              else if t_source s = None then SWait else SRead\<rparr>)
      | SRead \<Rightarrow>
          (case t_source s of
             None \<Rightarrow> None
           | Some source \<Rightarrow>
               (let (v, source) = read e source in
                Some (s\<lparr>t_source := Some source, t_reads := t_reads s @ [v], t_sensor := SPublish,
                        t_rt := set_pub (t_rt s) 1 (PCheck (Event_sensor_sample v))\<rparr>)))
      | SPublish \<Rightarrow>
          if returned (r_pubs (t_rt s) ! 1)
          then Some (s\<lparr>t_rt := set_pub (t_rt s) 1 PIdle, t_sensor := SWait\<rparr>) else None
      | SWait \<Rightarrow>
          (case wait_for_period (r_stop_requested (t_rt s)) expired of
             None \<Rightarrow> None
           | Some go_on \<Rightarrow> Some (s\<lparr>t_sensor := if go_on then STop else SExit\<rparr>))
      | SExit \<Rightarrow> None)"

definition monitor_loop :: "bool \<Rightarrow> 's tasks \<Rightarrow> 's tasks option" where
  "monitor_loop expired s =
     (case t_monitor s of
        TNone \<Rightarrow> None
      | TWait \<Rightarrow>
          (case wait_for_period (t_monitor_stop s) expired of
             None \<Rightarrow> None
           | Some go_on \<Rightarrow> Some (s\<lparr>t_monitor := if go_on then TTick else TExit\<rparr>))
      | TTick \<Rightarrow>
          Some (s\<lparr>t_rt := (t_rt s)\<lparr>r_metrics := record_monitor_tick (r_metrics (t_rt s))\<rparr>,
                  t_monitor := TWait\<rparr>)
      | TExit \<Rightarrow> None)"

text \<open>
  The lifecycle. The last step of \<open>start\<close> in \<open>Edge_Runtime\<close> creates the sensor thread, one more the monitor
  thread, and then \<open>start\<close> has returned. The step of \<open>stop\<close> after its wait requests the stop of the sensor
  task, one more that of the monitor task; before \<open>stop\<close> closes the queue it joins both threads.
\<close>

definition start_task :: "'s tasks \<Rightarrow> 's tasks option" where
  "start_task s =
     (if r_main (t_rt s) = MRunning \<and> t_monitor s = TNone then Some (s\<lparr>t_monitor := TWait\<rparr>)
      else case start_step (t_rt s) of
        None \<Rightarrow> None
      | Some r \<Rightarrow> Some (s\<lparr>t_rt := r, t_sensor := if r_main r = MRunning then STop else t_sensor s\<rparr>))"

definition started_up :: "'s tasks \<Rightarrow> bool" where
  "started_up s \<longleftrightarrow> t_monitor s \<noteq> TNone"

text \<open>Whether joining a thread returns: there is no such thread, or it has ended.\<close>

definition join_if_needed :: "bool \<Rightarrow> bool \<Rightarrow> bool" where
  "join_if_needed joinable ended \<longleftrightarrow> (if joinable then ended else True)"

definition join_tasks :: "'s tasks \<Rightarrow> bool" where
  "join_tasks s \<longleftrightarrow>
     join_if_needed (t_sensor s \<noteq> SNone) (t_sensor s = SExit) \<and>
     join_if_needed (t_monitor s \<noteq> TNone) (t_monitor s = TExit)"

definition stop_task :: "'s tasks \<Rightarrow> 's tasks option" where
  "stop_task s =
     (if r_main (t_rt s) = MJoin \<and> \<not> t_monitor_stop s then Some (s\<lparr>t_monitor_stop := True\<rparr>)
      else if started_up s \<and> (r_main (t_rt s) = MJoin \<longrightarrow> join_tasks s)
      then case stop_step (t_rt s) of None \<Rightarrow> None | Some r \<Rightarrow> Some (s\<lparr>t_rt := r\<rparr>)
      else None)"

text \<open>
  The threads. What makes \<open>start\<close>, \<open>stop\<close> or \<open>publish\<close> begin is up to the outside; the rest of a call is
  the work of the thread that makes it.
\<close>

datatype thread = Outside | Main | Sensor | Caller nat | Control | Monitor

definition publisher :: "nat \<Rightarrow> thread" where
  "publisher i = (if i = 0 then Main else if i = 1 then Sensor else Caller i)"

inductive task_step ::
    "('e \<Rightarrow> 's \<Rightarrow> SensorSample \<times> 's) \<Rightarrow> Event set \<Rightarrow> thread \<Rightarrow> 's tasks \<Rightarrow> 's tasks \<Rightarrow> bool"
  for read calls where
  publish: "i < length (r_pubs (t_rt s)) \<Longrightarrow>
     publish_step (t_rt s) now expired (r_pubs (t_rt s) ! i) = Some (pc, r) \<Longrightarrow>
     task_step read calls (publisher i) s (s\<lparr>t_rt := set_pub r i pc\<rparr>)"
| call: "2 \<le> i \<Longrightarrow> i < length (r_pubs (t_rt s)) \<Longrightarrow> r_pubs (t_rt s) ! i = PIdle \<Longrightarrow> e \<in> calls \<Longrightarrow>
     task_step read calls Outside s (s\<lparr>t_rt := set_pub (t_rt s) i (PCheck e)\<rparr>)"
| return: "2 \<le> i \<Longrightarrow> i < length (r_pubs (t_rt s)) \<Longrightarrow> returned (r_pubs (t_rt s) ! i) \<Longrightarrow>
     task_step read calls (Caller i) s (s\<lparr>t_rt := set_pub (t_rt s) i PIdle\<rparr>)"
| control: "control_step (t_rt s) now (r_control (t_rt s)) = Some (pc, r) \<Longrightarrow>
     task_step read calls Control s (s\<lparr>t_rt := r\<lparr>r_control := pc\<rparr>\<rparr>)"
| sensor: "sensor_loop read e expired s = Some t \<Longrightarrow> task_step read calls Sensor s t"
| monitor: "monitor_loop expired s = Some t \<Longrightarrow> task_step read calls Monitor s t"
| start: "start_task s = Some t \<Longrightarrow>
     task_step read calls (if r_main (t_rt s) = MInit then Outside else Main) s t"
| stop: "stop_task s = Some t \<Longrightarrow>
     task_step read calls (if r_main (t_rt s) = MRunning then Outside else Main) s t"

inductive tasks_reachable ::
    "('e \<Rightarrow> 's \<Rightarrow> SensorSample \<times> 's) \<Rightarrow> Event set \<Rightarrow> ProtectionConfig \<Rightarrow> nat \<Rightarrow> nat \<Rightarrow> nat \<Rightarrow> 's option \<Rightarrow>
     's tasks \<Rightarrow> bool"
  for read calls cfg base stride publishers source where
  tasks_init: "tasks_reachable read calls cfg base stride publishers source
     (tasks_init cfg base stride publishers source)"
| tasks_next: "tasks_reachable read calls cfg base stride publishers source s \<Longrightarrow>
     task_step read calls k s t \<Longrightarrow> tasks_reachable read calls cfg base stride publishers source t"

section \<open>The runtime is an abstraction of its tasks\<close>

text \<open>How the places of the threads fit together.\<close>

definition starting :: "main_pc \<Rightarrow> bool" where
  "starting m \<longleftrightarrow> m \<in> {MInit, MStartup, MSelfTest}"

definition closing :: "main_pc \<Rightarrow> bool" where
  "closing m \<longleftrightarrow> m \<in> {MJoinControl, MDone}"

definition in_call :: "main_pc \<Rightarrow> bool" where
  "in_call m \<longleftrightarrow> m \<in> {MStartup, MSelfTest, MShutdown}"

definition task_phases :: "'s tasks \<Rightarrow> bool" where
  "task_phases s \<longleftrightarrow>
     (t_sensor s = SNone \<longleftrightarrow> starting (r_main (t_rt s))) \<and>
     (t_sensor s = SPublish \<longleftrightarrow> r_pubs (t_rt s) ! 1 \<noteq> PIdle) \<and>
     (t_sensor s = SRead \<longrightarrow> t_source s \<noteq> None) \<and>
     (t_monitor s = TNone \<longrightarrow> starting (r_main (t_rt s)) \<or> r_main (t_rt s) = MRunning) \<and>
     (starting (r_main (t_rt s)) \<longrightarrow> t_monitor s = TNone) \<and>
     (t_sensor s = SExit \<longrightarrow> r_stop_requested (t_rt s)) \<and>
     (t_monitor s = TExit \<longrightarrow> t_monitor_stop s) \<and>
     (t_monitor_stop s \<longrightarrow> r_stop_requested (t_rt s)) \<and>
     (closing (r_main (t_rt s)) \<longrightarrow> t_sensor s = SExit \<and> t_monitor s = TExit) \<and>
     (in_call (r_main (t_rt s)) \<longrightarrow> r_pubs (t_rt s) ! 0 \<noteq> PIdle)"

definition task_inv :: "ProtectionConfig \<Rightarrow> 's tasks \<Rightarrow> bool" where
  "task_inv cfg s \<longleftrightarrow> rt_inv cfg (t_rt s) \<and> task_phases s"

lemma task_invD:
  assumes "task_inv cfg s"
  shows "rt_inv cfg (t_rt s)" and "task_phases s" and "rt_phases (t_rt s)"
    and "2 \<le> length (r_pubs (t_rt s))"
  using assms rt_invD(10) [of cfg "t_rt s"] phasesD(2) [of "t_rt s"] by (auto simp: task_inv_def)

lemma publish_step_not_idle:
  assumes "publish_step s now expired pc = Some (pc', s')"
  shows "pc' \<noteq> PIdle"
  using assms by (cases pc) (auto split: option.splits prod.splits if_splits)

text \<open>Every detailed step is a step of the runtime, or the runtime stays as it is.\<close>

lemma task_step_rt:
  assumes inv: "task_inv cfg s" and "task_step read calls k s t"
  shows "t_rt t = t_rt s \<or> rt_step (t_rt s) (t_rt t)"
  using assms(2)
proof cases
  case (publish i now expired pc r)
  then show ?thesis by (auto intro: rt_step.publish)
next
  case (call i e)
  then show ?thesis by (auto intro: rt_step.call)
next
  case (return i)
  then show ?thesis by (auto intro: rt_step.return)
next
  case (control now pc r)
  then show ?thesis by (auto intro: rt_step.control)
next
  case (sensor e expired)
  show ?thesis
  proof (cases "t_sensor s")
    case SRead
    then obtain v where "t_rt t = set_pub (t_rt s) 1 (PCheck (Event_sensor_sample v))"
      using sensor by (auto simp: sensor_loop_def split: option.splits prod.splits)
    moreover have "r_main (t_rt s) \<in> {MRunning, MShutdown, MWait, MJoin}"
      using task_invD(2) [OF inv] SRead by (cases "r_main (t_rt s)") (auto simp: task_phases_def starting_def closing_def)
    moreover have "r_pubs (t_rt s) ! 1 = PIdle" using task_invD(2) [OF inv] SRead by (simp add: task_phases_def)
    ultimately show ?thesis by (auto intro!: rt_step.sensor simp: sensor_step_def)
  next
    case SPublish
    then have "returned (r_pubs (t_rt s) ! 1)" "t_rt t = set_pub (t_rt s) 1 PIdle"
      using sensor by (auto simp: sensor_loop_def split: if_splits)
    then show ?thesis using task_invD(4) [OF inv] by (auto intro!: rt_step.return)
  qed (use sensor in \<open>auto simp: sensor_loop_def split: option.splits\<close>)
next
  case (monitor expired)
  show ?thesis
  proof (cases "t_monitor s")
    case TTick
    then have "t_rt t = (t_rt s)\<lparr>r_metrics := record_monitor_tick (r_metrics (t_rt s))\<rparr>"
      using monitor by (auto simp: monitor_loop_def)
    moreover have "r_main (t_rt s) \<in> {MRunning, MShutdown, MWait, MJoin}"
      using task_invD(2) [OF inv] TTick by (cases "r_main (t_rt s)") (auto simp: task_phases_def starting_def closing_def)
    ultimately show ?thesis by (auto intro!: rt_step.monitor simp: monitor_step_def)
  qed (use monitor in \<open>auto simp: monitor_loop_def split: option.splits\<close>)
next
  case start
  then show ?thesis
    by (auto simp: start_task_def split: if_splits option.splits intro: rt_step.start)
next
  case stop
  then show ?thesis
    by (auto simp: stop_task_def split: if_splits option.splits intro: rt_step.stop)
qed

text \<open>The steps of the sensor task one by one, and what they change.\<close>

lemma sensor_loop_cases:
  assumes "sensor_loop read e expired s = Some t"
  obtains (leave) "t_sensor s \<in> {STop, SWait}" "r_stop_requested (t_rt s)" "t = s\<lparr>t_sensor := SExit\<rparr>"
  | (go) pc where "t_sensor s \<in> {STop, SWait}" "\<not> r_stop_requested (t_rt s)" "t = s\<lparr>t_sensor := pc\<rparr>"
      "pc \<in> {STop, SWait} \<or> pc = SRead \<and> t_source s \<noteq> None"
  | (read) source v source' where "t_sensor s = SRead" "t_source s = Some source" "read e source = (v, source')"
      "t = s\<lparr>t_source := Some source', t_reads := t_reads s @ [v], t_sensor := SPublish,
             t_rt := set_pub (t_rt s) 1 (PCheck (Event_sensor_sample v))\<rparr>"
  | (over) "t_sensor s = SPublish" "returned (r_pubs (t_rt s) ! 1)"
      "t = s\<lparr>t_rt := set_pub (t_rt s) 1 PIdle, t_sensor := SWait\<rparr>"
proof (cases "t_sensor s")
  case STop
  then show ?thesis
    using assms leave go [of "if t_source s = None then SWait else SRead"]
    by (auto simp: sensor_loop_def split: if_splits)
next
  case SWait
  then show ?thesis
    using assms leave go [of STop] by (auto simp: sensor_loop_def wait_for_period_def split: if_splits)
next
  case SRead
  then obtain source where source: "t_source s = Some source"
    using assms by (auto simp: sensor_loop_def split: option.splits)
  obtain v source' where "read e source = (v, source')" by (cases "read e source")
  then show ?thesis using assms read SRead source by (simp add: sensor_loop_def)
next
  case SPublish
  then show ?thesis using assms over by (simp add: sensor_loop_def split: if_splits)
qed (use assms in \<open>simp_all add: sensor_loop_def\<close>)

lemma monitor_loop_cases:
  assumes "monitor_loop expired s = Some t"
  obtains (leave) "t_monitor s = TWait" "t_monitor_stop s" "t = s\<lparr>t_monitor := TExit\<rparr>"
  | (go) "t_monitor s = TWait" "\<not> t_monitor_stop s" "t = s\<lparr>t_monitor := TTick\<rparr>"
  | (tick) "t_monitor s = TTick"
      "t = s\<lparr>t_rt := (t_rt s)\<lparr>r_metrics := record_monitor_tick (r_metrics (t_rt s))\<rparr>, t_monitor := TWait\<rparr>"
  using assms
  by (cases "t_monitor s")
     (auto simp: monitor_loop_def wait_for_period_def split: if_splits option.splits)

lemma sensor_loop_phases:
  assumes inv: "task_inv cfg s" and step: "sensor_loop read e expired s = Some t"
  shows "task_phases t"
proof -
  have one: "(r_pubs (t_rt s))[Suc 0 := x] ! Suc 0 = x" for x using task_invD(4) [OF inv] by simp
  note ph = task_invD(2) [OF inv, unfolded task_phases_def]
  from step show ?thesis
  proof (cases rule: sensor_loop_cases)
    case leave
    then show ?thesis using ph by (auto simp: task_phases_def)
  next
    case (go pc)
    then show ?thesis using ph by (auto simp: task_phases_def)
  next
    case (read source v source')
    then show ?thesis using ph one by (auto simp: task_phases_def)
  next
    case over
    then show ?thesis using ph one by (auto simp: task_phases_def)
  qed
qed

lemma monitor_loop_phases:
  assumes inv: "task_inv cfg s" and step: "monitor_loop expired s = Some t"
  shows "task_phases t"
proof -
  note ph = task_invD(2) [OF inv, unfolded task_phases_def]
  from step show ?thesis
    by (cases rule: monitor_loop_cases) (use ph in \<open>auto simp: task_phases_def\<close>)
qed

lemma start_task_phases:
  assumes inv: "task_inv cfg s" and step: "start_task s = Some t"
  shows "task_phases t"
proof (cases "r_main (t_rt s) = MRunning \<and> t_monitor s = TNone")
  case True
  then show ?thesis
    using step task_invD(2) [OF inv]
    by (auto simp: start_task_def task_phases_def starting_def closing_def in_call_def)
next
  case False
  then obtain r where r: "start_step (t_rt s) = Some r"
    and t: "t = s\<lparr>t_rt := r, t_sensor := if r_main r = MRunning then STop else t_sensor s\<rparr>"
    using step by (auto simp: start_task_def split: option.splits)
  have "starting (r_main (t_rt s))" "\<not> closing (r_main r)" "starting (r_main r) \<longleftrightarrow> r_main r \<noteq> MRunning"
    "r_stop_requested r = r_stop_requested (t_rt s)" "r_pubs r ! 1 = r_pubs (t_rt s) ! 1"
    "in_call (r_main r) \<longrightarrow> r_pubs r ! 0 \<noteq> PIdle"
    using r task_invD(4) [OF inv]
    by (auto simp: start_step_def starting_def closing_def in_call_def update_first split: main_pc.splits if_splits)
  then show ?thesis
    using task_invD(2) [OF inv] t by (cases "r_main r = MRunning") (auto simp: task_phases_def)
qed

lemma stop_task_phases:
  assumes inv: "task_inv cfg s" and step: "stop_task s = Some t"
  shows "task_phases t"
proof (cases "r_main (t_rt s) = MJoin \<and> \<not> t_monitor_stop s")
  case True
  then have "r_stop_requested (t_rt s)" using task_invD(3) [OF inv] by (simp add: rt_phases_def)
  then show ?thesis using True step task_invD(2) [OF inv] by (auto simp: stop_task_def task_phases_def)
next
  case False
  obtain r where r: "stop_step (t_rt s) = Some r" and t: "t = s\<lparr>t_rt := r\<rparr>"
    and up: "t_monitor s \<noteq> TNone" and joined: "r_main (t_rt s) = MJoin \<Longrightarrow> join_tasks s"
    using step False by (auto simp: stop_task_def started_up_def split: if_splits option.splits)
  have "\<not> starting (r_main (t_rt s))" "\<not> starting (r_main r)"
    "r_stop_requested (t_rt s) \<Longrightarrow> r_stop_requested r" "r_pubs r ! 1 = r_pubs (t_rt s) ! 1"
    "closing (r_main r) \<longleftrightarrow> r_main (t_rt s) = MJoin \<or> closing (r_main (t_rt s))"
    "in_call (r_main r) \<longrightarrow> r_pubs r ! 0 \<noteq> PIdle"
    using r task_invD(4) [OF inv]
    by (auto simp: stop_step_def starting_def closing_def in_call_def update_first split: main_pc.splits if_splits)
  then show ?thesis
    using task_invD(2) [OF inv] t up joined by (auto simp: task_phases_def join_tasks_def join_if_needed_def)
qed

text \<open>Steps of publishers and of the control task do not concern the places of the others.\<close>

lemma task_phases_frame:
  assumes "task_phases s" and "r_main r = r_main (t_rt s)" and "r_stop_requested r = r_stop_requested (t_rt s)"
    and "r_pubs r ! 1 = PIdle \<longleftrightarrow> r_pubs (t_rt s) ! 1 = PIdle"
    and "r_pubs r ! 0 = PIdle \<longleftrightarrow> r_pubs (t_rt s) ! 0 = PIdle"
  shows "task_phases (s\<lparr>t_rt := r\<rparr>)"
  using assms by (auto simp: task_phases_def)

lemma task_inv_step:
  assumes inv: "task_inv cfg s" and step: "task_step read calls k s t"
  shows "task_inv cfg t"
proof -
  have "rt_inv cfg (t_rt t)"
    using task_step_rt [OF inv step] task_invD(1) [OF inv] rt_inv_step by fastforce
  moreover have "task_phases t"
    using step
  proof cases
    case (publish i now expired pc r)
    have "(r_pubs (t_rt s))[i := pc] ! j = PIdle \<longleftrightarrow> r_pubs (t_rt s) ! j = PIdle" for j
      using publish_step_not_idle [OF publish(4)] publish_step_frame [OF publish(4)] publish(3)
      by (cases "i = j") auto
    then show ?thesis
      using publish_step_frame [OF publish(4)] task_phases_frame [OF task_invD(2) [OF inv]] publish(2) by simp
  next
    case (call i e)
    then show ?thesis using task_phases_frame [OF task_invD(2) [OF inv]] by simp
  next
    case (return i)
    then show ?thesis using task_phases_frame [OF task_invD(2) [OF inv]] by simp
  next
    case (control now pc r)
    then show ?thesis
      using control_step_frame [OF control(3)] task_phases_frame [OF task_invD(2) [OF inv]] by simp
  qed (erule sensor_loop_phases [OF inv] monitor_loop_phases [OF inv] start_task_phases [OF inv]
      stop_task_phases [OF inv])+
  ultimately show ?thesis by (simp add: task_inv_def)
qed

lemma task_inv_init:
  assumes "0 < base" and "0 < stride" and "2 \<le> publishers"
  shows "task_inv cfg (tasks_init cfg base stride publishers source)"
  using rt_inv_init [OF assms, of cfg] assms(3)
  by (simp add: task_inv_def task_phases_def tasks_init_def runtime_init_def starting_def closing_def
      in_call_def)

lemma task_inv_reachable:
  assumes "tasks_reachable read calls cfg base stride publishers source s"
    and "0 < base" and "0 < stride" and "2 \<le> publishers"
  shows "task_inv cfg s"
  using assms(1) by induction (use task_inv_init [OF assms(2-4)] task_inv_step in blast)+

lemma tasks_reachable_rt:
  assumes "tasks_reachable read calls cfg base stride publishers source s"
    and "0 < base" and "0 < stride" and "2 \<le> publishers"
  shows "rt_reachable cfg base stride publishers (t_rt s)"
  using assms(1)
proof induction
  case tasks_init
  show ?case by (simp add: tasks_init_def rt_init)
next
  case (tasks_next s k t)
  then show ?case
    using task_step_rt [OF task_inv_reachable [OF tasks_next(1) assms(2-4)] tasks_next(2)] rt_next by fastforce
qed

end
