(* ===== verification/Sample_Flow.thy ===== *)
theory Sample_Flow
  imports Runtime_Tasks "HOL-Library.Sublist"
begin

text \<open>
  The way of the samples: from the sensor through \<open>publish\<close>, the pool, the queue and the control task to
  the state machine. Samples may get lost on the way, when the queue is full for too long, but they
  are never changed, repeated or reordered, and few are on the way at a time; so what the sensor reports
  persistently reaches the machine.
\<close>

section \<open>Specification\<close>

definition sensor_samples :: "Event list \<Rightarrow> SensorSample list" where
  "sensor_samples es = map sample (filter (\<lambda>e. kind e = EventKind.sensor_sample) es)"

text \<open>The event a publisher is about to put into the queue.\<close>

fun in_flight :: "PooledEvent FixedObjectPool \<Rightarrow> pub_pc \<Rightarrow> Event option" where
  "in_flight p (PCheck e) = Some e"
| "in_flight p (PCreate e) = Some e"
| "in_flight p (PPush h) = Some (event_at p h)"
| "in_flight p _ = None"

definition flight :: "runtime \<Rightarrow> nat \<Rightarrow> Event option" where
  "flight s i = in_flight (r_pool s) (r_pubs s ! i)"

text \<open>Only the sensor task publishes samples.\<close>

definition samples_from_sensor :: "runtime \<Rightarrow> bool" where
  "samples_from_sensor s \<longleftrightarrow>
     (\<forall>i < length (r_pubs s). i \<noteq> 1 \<longrightarrow> (\<forall>e. flight s i = Some e \<longrightarrow> kind e \<noteq> EventKind.sensor_sample))"

definition sample_in_flight :: "runtime \<Rightarrow> SensorSample list" where
  "sample_in_flight s = sensor_samples (case flight s 1 of None \<Rightarrow> [] | Some e \<Rightarrow> [e])"

text \<open>What has happened to the samples between two states.\<close>

definition samples_flow :: "'s tasks \<Rightarrow> 's tasks \<Rightarrow> bool" where
  "samples_flow s t \<longleftrightarrow>
     (\<exists>new reads. t_reads t = t_reads s @ reads \<and>
        sensor_samples (h_accepted (t_rt t)) = sensor_samples (h_accepted (t_rt s)) @ new \<and>
        subseq (new @ sample_in_flight (t_rt t)) (sample_in_flight (t_rt s) @ reads))"

section \<open>Events on the way\<close>

lemma sensor_samples_simps [simp]:
  "sensor_samples [] = []"
  "sensor_samples (es @ fs) = sensor_samples es @ sensor_samples fs"
  "sensor_samples (e # es) =
     (if kind e = EventKind.sensor_sample then sample e # sensor_samples es else sensor_samples es)"
  by (simp_all add: sensor_samples_def)

lemma publish_flight:
  assumes inv: "rt_inv cfg s" and step: "publish_step s now expired pc = Some (pc', s')"
  shows "h_accepted s' = h_accepted s \<and> in_flight (r_pool s') pc' \<in> {None, in_flight (r_pool s) pc} \<or>
    (\<exists>e. in_flight (r_pool s) pc = Some e \<and> in_flight (r_pool s') pc' = None \<and>
      h_accepted s' = h_accepted s @ [e])"
proof (cases pc)
  case (PCreate e)
  let ?v = "\<lparr>pe_event = e, pe_created_at = now\<rparr>"
  note D = rt_invD [OF inv]
  obtain a p where c: "create_object (r_pool s) ?v = (a, p)" by (cases "create_object (r_pool s) ?v")
  have "live p a = Some ?v" if "a \<noteq> nullptr" by (rule op.create_live [OF D(1) c that])
  then show ?thesis
    using step PCreate
    by (auto simp: try_create_handle [OF D(1)] c Let_def event_at_def split: if_splits)
next
  case (PPush h)
  then show ?thesis using step by (auto split: option.splits if_splits)
qed (use step in \<open>auto split: if_splits\<close>)

lemma flight_stable:
  assumes "\<And>h. pc = PPush h \<Longrightarrow> live p' (h_object h) = live p (h_object h)"
  shows "in_flight p' pc = in_flight p pc"
  using assms by (cases pc) (simp_all add: event_at_def)

text \<open>What a step does to the events on the way.\<close>

definition lifecycle_events :: "Event set" where
  "lifecycle_events = {Event_startup, Event_self_test_passed, Event_shutdown_requested}"

definition keeps_flight :: "runtime \<Rightarrow> runtime \<Rightarrow> nat set \<Rightarrow> bool" where
  "keeps_flight s t except \<longleftrightarrow>
     length (r_pubs t) = length (r_pubs s) \<and>
     (\<forall>j < length (r_pubs s). j \<notin> except \<longrightarrow> flight t j \<in> {None, flight s j})"

lemma keeps_flight_same:
  assumes "r_pubs t = r_pubs s" and "r_pool t = r_pool s"
  shows "keeps_flight s t {}"
  using assms by (simp add: keeps_flight_def flight_def)

lemma keeps_flight_update:
  assumes "r_pubs t = (r_pubs s)[i := pc]" and "r_pool t = r_pool s"
  shows "keeps_flight s t {i}"
  using assms by (simp add: keeps_flight_def flight_def)

lemma keeps_flight_idle:
  assumes "r_pubs t = (r_pubs s)[i := PIdle]" and "r_pool t = r_pool s"
  shows "keeps_flight s t {}"
proof -
  have "flight t j \<in> {None, flight s j}" if "j < length (r_pubs s)" for j
    using assms that by (cases "j = i") (simp_all add: flight_def)
  then show ?thesis using assms(1) by (simp add: keeps_flight_def)
qed

lemma publish_keeps_flight:
  assumes inv: "rt_inv cfg s" and i: "i < length (r_pubs s)"
    and step: "publish_step s now expired (r_pubs s ! i) = Some (pc, s')"
  shows "keeps_flight s (set_pub s' i pc) {i}"
proof -
  have "flight (set_pub s' i pc) j = flight s j" if "j < length (r_pubs s)" "j \<noteq> i" for j
    unfolding flight_def
    using other_publisher_keeps [OF inv i that(1,2) _ step] publish_step_frame [OF step] that
    by (auto intro!: flight_stable)
  then show ?thesis using publish_step_frame [OF step] by (auto simp: keeps_flight_def)
qed

lemma control_keeps_flight:
  assumes inv: "rt_inv cfg s" and step: "control_step s now (r_control s) = Some (pc, s')"
  shows "keeps_flight s (s'\<lparr>r_control := pc\<rparr>) {}"
proof -
  have "flight (s'\<lparr>r_control := pc\<rparr>) j = flight s j" if "j < length (r_pubs s)" for j
    unfolding flight_def
    using control_keeps [OF inv that _ step] control_step_frame [OF step] by (auto intro!: flight_stable)
  then show ?thesis using control_step_frame [OF step] by (simp add: keeps_flight_def)
qed

lemma lifecycle_flight:
  assumes "start_step s = Some t \<or> stop_step s = Some t"
  shows "keeps_flight s t {} \<or>
    (\<exists>e \<in> lifecycle_events. r_pubs t = (r_pubs s)[0 := PCheck e] \<and> keeps_flight s t {0})"
proof -
  have pool: "r_pool t = r_pool s" using lifecycle_keeps [OF assms] by simp
  have "r_pubs t = r_pubs s \<or> r_pubs t = (r_pubs s)[0 := PIdle] \<or>
      (\<exists>e \<in> lifecycle_events. r_pubs t = (r_pubs s)[0 := PCheck e])"
    using assms
    by (cases "r_main s") (auto simp: start_step_def stop_step_def lifecycle_events_def split: if_splits)
  then show ?thesis
    using keeps_flight_same [OF _ pool] keeps_flight_idle [OF _ pool] keeps_flight_update [OF _ pool] by blast
qed

lemma publish_task_flight:
  assumes inv: "task_inv cfg s" and i: "i < length (r_pubs (t_rt s))"
    and step: "publish_step (t_rt s) now expired (r_pubs (t_rt s) ! i) = Some (pc, r)"
  shows "h_accepted (set_pub r i pc) = h_accepted (t_rt s) \<and> keeps_flight (t_rt s) (set_pub r i pc) {} \<or>
    (\<exists>e. flight (t_rt s) i = Some e \<and> flight (set_pub r i pc) i = None \<and>
      h_accepted (set_pub r i pc) = h_accepted (t_rt s) @ [e] \<and> keeps_flight (t_rt s) (set_pub r i pc) {i})"
proof -
  note kf = publish_keeps_flight [OF task_invD(1) [OF inv] i step]
  have fl: "flight (set_pub r i pc) i = in_flight (r_pool r) pc"
    using publish_step_frame [OF step] i by (simp add: flight_def)
  show ?thesis
  proof (rule disjE [OF publish_flight [OF task_invD(1) [OF inv] step]])
    assume a: "h_accepted r = h_accepted (t_rt s) \<and>
      in_flight (r_pool r) pc \<in> {None, in_flight (r_pool (t_rt s)) (r_pubs (t_rt s) ! i)}"
    have "keeps_flight (t_rt s) (set_pub r i pc) {}"
      using kf a fl unfolding keeps_flight_def by (metis flight_def singletonD)
    then show ?thesis using a by simp
  next
    assume "\<exists>e. in_flight (r_pool (t_rt s)) (r_pubs (t_rt s) ! i) = Some e \<and> in_flight (r_pool r) pc = None \<and>
      h_accepted r = h_accepted (t_rt s) @ [e]"
    then show ?thesis using fl kf i by (auto simp: flight_def)
  qed
qed

lemma lifecycle_task_flight:
  assumes inv: "task_inv cfg s" and step: "start_task s = Some t \<or> stop_task s = Some t"
  shows "h_accepted (t_rt t) = h_accepted (t_rt s) \<and> t_reads t = t_reads s \<and> keeps_flight (t_rt s) (t_rt t) {} \<or>
    (\<exists>e \<in> lifecycle_events. flight (t_rt t) 0 = Some e \<and> h_accepted (t_rt t) = h_accepted (t_rt s) \<and>
      t_reads t = t_reads s \<and> keeps_flight (t_rt s) (t_rt t) {0})"
proof (cases "t_rt t = t_rt s")
  case True
  then show ?thesis
    using step keeps_flight_same [of "t_rt t" "t_rt s"]
    by (auto simp: start_task_def stop_task_def split: if_splits option.splits)
next
  case False
  then have st: "start_step (t_rt s) = Some (t_rt t) \<or> stop_step (t_rt s) = Some (t_rt t)" "t_reads t = t_reads s"
    using step by (auto simp: start_task_def stop_task_def split: if_splits option.splits)
  show ?thesis
    using lifecycle_flight [OF st(1)] lifecycle_keeps [OF st(1)] st(2) task_invD(4) [OF inv]
    by (auto simp: flight_def update_first)
qed

lemma task_flight_cases:
  assumes inv: "task_inv cfg s" and "task_step read calls k s t"
  obtains (keep) "h_accepted (t_rt t) = h_accepted (t_rt s)" "t_reads t = t_reads s"
      "keeps_flight (t_rt s) (t_rt t) {}"
  | (accept) i e where "i < length (r_pubs (t_rt s))" "flight (t_rt s) i = Some e" "flight (t_rt t) i = None"
      "h_accepted (t_rt t) = h_accepted (t_rt s) @ [e]" "t_reads t = t_reads s"
      "keeps_flight (t_rt s) (t_rt t) {i}"
  | (enter) i e where "i \<noteq> 1" "flight (t_rt t) i = Some e" "e \<in> calls \<union> lifecycle_events"
      "h_accepted (t_rt t) = h_accepted (t_rt s)" "t_reads t = t_reads s" "keeps_flight (t_rt s) (t_rt t) {i}"
  | (fresh) v where "flight (t_rt s) 1 = None" "flight (t_rt t) 1 = Some (Event_sensor_sample v)"
      "h_accepted (t_rt t) = h_accepted (t_rt s)" "t_reads t = t_reads s @ [v]"
      "keeps_flight (t_rt s) (t_rt t) {1}"
  using assms(2)
proof cases
  case (publish i now expired pc r)
  then show ?thesis using publish_task_flight [OF inv publish(3,4)] keep accept [of i] by auto
next
  case (call i e)
  then show ?thesis
    using enter [of i e] keeps_flight_update [of "t_rt t" "t_rt s" i "PCheck e"] by (simp add: flight_def)
next
  case (return i)
  then show ?thesis using keep keeps_flight_idle [of "t_rt t" "t_rt s" i] by simp
next
  case (control now pc r)
  then show ?thesis
    using keep control_keeps_flight [OF task_invD(1) [OF inv] control(3)] control_step_frame [OF control(3)]
    by simp
next
  case (sensor e expired)
  from sensor(2) show ?thesis
  proof (cases rule: sensor_loop_cases)
    case (read source v source')
    have "r_pubs (t_rt s) ! 1 = PIdle" using task_invD(2) [OF inv] read(1) by (simp add: task_phases_def)
    moreover have "1 < length (r_pubs (t_rt s))" using task_invD(4) [OF inv] by simp
    ultimately show ?thesis
      using fresh [of v] read(4) keeps_flight_update [of "t_rt t" "t_rt s" 1 "PCheck (Event_sensor_sample v)"]
      by (simp add: flight_def)
  next
    case over
    then show ?thesis using keep keeps_flight_idle [of "t_rt t" "t_rt s" 1] by simp
  qed (use keep keeps_flight_same [of "t_rt t" "t_rt s"] in simp_all)
next
  case (monitor expired)
  from monitor(2) show ?thesis
    by (cases rule: monitor_loop_cases) (use keep keeps_flight_same [of "t_rt t" "t_rt s"] in simp_all)
next
  case start
  then show ?thesis using lifecycle_task_flight [OF inv, of t] keep enter [of 0] by auto
next
  case stop
  then show ?thesis using lifecycle_task_flight [OF inv, of t] keep enter [of 0] by auto
qed

section \<open>Order and origin of the samples\<close>

abbreviation no_samples :: "Event set \<Rightarrow> bool" where
  "no_samples calls \<equiv> \<forall>e \<in> calls. kind e \<noteq> EventKind.sensor_sample"

lemma no_lifecycle_samples: "e \<in> lifecycle_events \<Longrightarrow> kind e \<noteq> EventKind.sensor_sample"
  by (auto simp: lifecycle_events_def)

lemma samples_from_sensor_keeps:
  assumes "samples_from_sensor s" and "keeps_flight s t except"
    and "\<And>i e. i \<in> except \<Longrightarrow> i \<noteq> 1 \<Longrightarrow> flight t i = Some e \<Longrightarrow> kind e \<noteq> EventKind.sensor_sample"
  shows "samples_from_sensor t"
  unfolding samples_from_sensor_def
proof (intro allI impI)
  fix i e
  assume i: "i < length (r_pubs t)" "i \<noteq> 1" and e: "flight t i = Some e"
  show "kind e \<noteq> EventKind.sensor_sample"
  proof (cases "i \<in> except")
    case False
    then have "flight s i = Some e" "i < length (r_pubs s)"
      using assms(2) i(1) e by (auto simp: keeps_flight_def)
    then show ?thesis using assms(1) i(2) by (auto simp: samples_from_sensor_def)
  qed (use assms(3) i(2) e in blast)
qed

lemma samples_from_sensor_step:
  assumes inv: "task_inv cfg s" and step: "task_step read calls k s t" and "no_samples calls"
    and "samples_from_sensor (t_rt s)"
  shows "samples_from_sensor (t_rt t)"
  using inv step
proof (cases rule: task_flight_cases)
  case keep
  then show ?thesis by (intro samples_from_sensor_keeps [OF assms(4)]) auto
next
  case (accept i e)
  then show ?thesis by (intro samples_from_sensor_keeps [OF assms(4)]) auto
next
  case (enter i e)
  then show ?thesis
    using assms(3) no_lifecycle_samples by (intro samples_from_sensor_keeps [OF assms(4)]) auto
next
  case (fresh v)
  then show ?thesis by (intro samples_from_sensor_keeps [OF assms(4)]) auto
qed

lemma samples_from_sensor_init: "samples_from_sensor (runtime_init cfg base stride publishers)"
  by (simp add: samples_from_sensor_def flight_def runtime_init_def)

lemma samples_flow_refl: "samples_flow s s"
  by (auto simp: samples_flow_def)

lemma sample_in_flight_le:
  "flight t 1 \<in> {None, flight s 1} \<Longrightarrow> subseq (sample_in_flight t) (sample_in_flight s)"
  by (auto simp: sample_in_flight_def)

lemma samples_flow_step:
  assumes inv: "task_inv cfg t" and step: "task_step read calls k t u"
    and sensor: "samples_from_sensor (t_rt t)" and flow: "samples_flow s t"
  shows "samples_flow s u"
proof -
  obtain new reads where reads: "t_reads t = t_reads s @ reads"
    and new: "sensor_samples (h_accepted (t_rt t)) = sensor_samples (h_accepted (t_rt s)) @ new"
    and sub: "subseq (new @ sample_in_flight (t_rt t)) (sample_in_flight (t_rt s) @ reads)"
    using flow by (auto simp: samples_flow_def)
  have one: "1 < length (r_pubs (t_rt t))" using task_invD(4) [OF inv] by simp
  have keeps: "samples_flow s u"
    if "sensor_samples (h_accepted (t_rt u)) = sensor_samples (h_accepted (t_rt t))"
      and "t_reads u = t_reads t" and fl: "flight (t_rt u) 1 \<in> {None, flight (t_rt t) 1}"
  proof -
    have "subseq (new @ sample_in_flight (t_rt u)) (new @ sample_in_flight (t_rt t))"
      by (intro list_emb_append_mono sample_in_flight_le [OF fl]) simp_all
    then show ?thesis using that new reads sub subseq_order.trans by (auto simp: samples_flow_def)
  qed
  from inv step show ?thesis
  proof (cases rule: task_flight_cases)
    case keep
    then show ?thesis using one by (intro keeps) (auto simp: keeps_flight_def)
  next
    case (enter i e)
    then show ?thesis using one by (intro keeps) (auto simp: keeps_flight_def)
  next
    case (accept i e)
    show ?thesis
    proof (cases "i = 1")
      case True
      then have "sensor_samples (h_accepted (t_rt u)) =
          sensor_samples (h_accepted (t_rt s)) @ new @ sample_in_flight (t_rt t)"
        and "sample_in_flight (t_rt u) = []"
        using accept new by (simp_all add: sample_in_flight_def)
      then show ?thesis using accept(5) reads sub by (auto simp: samples_flow_def)
    next
      case False
      then have "kind e \<noteq> EventKind.sensor_sample"
        using sensor accept(1,2) by (auto simp: samples_from_sensor_def)
      then show ?thesis using False accept one by (intro keeps) (auto simp: keeps_flight_def)
    qed
  next
    case (fresh v)
    have "subseq (new @ [v]) ((sample_in_flight (t_rt s) @ reads) @ [v])"
      using sub fresh(1) by (intro list_emb_append_mono) (simp_all add: sample_in_flight_def)
    moreover have "sample_in_flight (t_rt u) = [v]" using fresh(2) by (simp add: sample_in_flight_def)
    ultimately show ?thesis using fresh(3,4) reads new by (auto simp: samples_flow_def)
  qed
qed

definition tasks_move ::
    "('e \<Rightarrow> 's \<Rightarrow> SensorSample \<times> 's) \<Rightarrow> Event set \<Rightarrow> 's tasks \<Rightarrow> 's tasks \<Rightarrow> bool" where
  "tasks_move read calls s t \<longleftrightarrow> (\<exists>k. task_step read calls k s t)"

lemma tasks_moveI: "task_step read calls k s t \<Longrightarrow> tasks_move read calls s t"
  by (auto simp: tasks_move_def)

lemma tasks_run_reachable:
  assumes "tasks_reachable read calls cfg base stride publishers source s" and "(tasks_move read calls)\<^sup>*\<^sup>* s t"
  shows "tasks_reachable read calls cfg base stride publishers source t"
  using assms(2,1) by induction (auto simp: tasks_move_def intro: tasks_next)

lemma reachable_samples_from_sensor:
  assumes "tasks_reachable read calls cfg base stride publishers source s"
    and "0 < base" and "0 < stride" and "2 \<le> publishers" and "no_samples calls"
  shows "samples_from_sensor (t_rt s)"
  using assms(1)
proof induction
  case tasks_init
  show ?case by (simp add: tasks_init_def samples_from_sensor_init)
next
  case (tasks_next s k t)
  then show ?case
    using samples_from_sensor_step [OF task_inv_reachable [OF tasks_next(1) assms(2-4)] tasks_next(2) assms(5)]
    by blast
qed

lemma samples_flow_run:
  assumes "tasks_reachable read calls cfg base stride publishers source s"
    and "0 < base" and "0 < stride" and "2 \<le> publishers" and "no_samples calls"
    and "(tasks_move read calls)\<^sup>*\<^sup>* s t"
  shows "samples_flow s t"
  using assms(6)
proof induction
  case base
  show ?case by (rule samples_flow_refl)
next
  case (step t u)
  have r: "tasks_reachable read calls cfg base stride publishers source t"
    by (rule tasks_run_reachable [OF assms(1) step(1)])
  from step(2) obtain k where "task_step read calls k t u" by (auto simp: tasks_move_def)
  from samples_flow_step [OF task_inv_reachable [OF r assms(2-4)] this
      reachable_samples_from_sensor [OF r assms(2-5)] step(3)] show ?case .
qed

text \<open>The samples the task has read are those of consecutive reads of its sensor.\<close>

lemma source_reads_snoc:
  "source_reads read (es @ [e]) s =
     (fst (source_reads read es s) @ [fst (read e (snd (source_reads read es s)))],
      snd (read e (snd (source_reads read es s))))"
  by (induction es arbitrary: s) (auto simp: Let_def split: prod.splits)

lemma task_step_source:
  assumes "task_step read calls k s t"
  shows "t_source t = t_source s \<and> t_reads t = t_reads s \<or>
    (\<exists>e source. t_source s = Some source \<and> t_source t = Some (snd (read e source)) \<and>
      t_reads t = t_reads s @ [fst (read e source)])"
  using assms
proof cases
  case (sensor e expired)
  from sensor(2) show ?thesis
  proof (cases rule: sensor_loop_cases)
    case (read source v source')
    then show ?thesis by (intro disjI2 exI [of _ e] exI [of _ source]) simp
  qed simp_all
next
  case (monitor expired)
  from monitor(2) show ?thesis by (cases rule: monitor_loop_cases) simp_all
qed (auto simp: start_task_def stop_task_def split: if_splits option.splits)

lemma reads_of_source:
  assumes "tasks_reachable read calls cfg base stride publishers (Some source) s"
  shows "\<exists>inputs. t_reads s = fst (source_reads read inputs source) \<and>
    t_source s = Some (snd (source_reads read inputs source))"
  using assms
proof induction
  case tasks_init
  show ?case by (intro exI [of _ "[]"]) (simp add: tasks_init_def)
next
  case (tasks_next s k t)
  then obtain inputs where inputs: "t_reads s = fst (source_reads read inputs source)"
    "t_source s = Some (snd (source_reads read inputs source))" by blast
  from task_step_source [OF tasks_next(2)] show ?case
  proof (elim disjE exE conjE)
    fix e now
    assume "t_source s = Some now" "t_source t = Some (snd (read e now))"
      "t_reads t = t_reads s @ [fst (read e now)]"
    then show ?thesis using inputs by (intro exI [of _ "inputs @ [e]"]) (simp add: source_reads_snoc)
  qed (use inputs in auto)
qed

section \<open>What the machine makes of them\<close>

lemma operating_ignores:
  assumes "operating (m_state m)"
    and "kind e \<in> {EventKind.startup, EventKind.self_test_passed}"
  shows "machine_step m e = m"
  using assms by (auto simp: machine_step_def handle_def operating_def)

lemma internal_fault_latches:
  assumes "operating (m_state m)" and "kind e = EventKind.internal_fault"
  shows "m_state (machine_step m e) = MotorState.fault_latched"
  using assms by (auto simp: machine_step_def handle_def operating_def)

lemma handle_sample_operating:
  assumes "operating (m_state m)"
  shows "operating (m_state (snd (handle_sample m v))) \<or>
    m_state (snd (handle_sample m v)) = MotorState.fault_latched"
  by (cases rule: handle_sample_cases [where m = m and s = v])
     (use assms in \<open>auto simp: handle_sample_branches operating_def\<close>)

lemma machine_step_operating:
  assumes "operating (m_state m)"
  shows "operating (m_state (machine_step m (Event_sensor_sample v))) \<or>
    m_state (machine_step m (Event_sensor_sample v)) = MotorState.fault_latched"
  using handle_sample_operating [OF assms] operating_not_shutdown [OF assms] by (simp add: machine_step_sample)

lemma machine_samples_operating:
  assumes "operating (m_state m)"
  shows "operating (m_state (machine_samples m ss)) \<or> m_state (machine_samples m ss) = MotorState.fault_latched"
  using assms
proof (induction ss arbitrary: m)
  case (Cons v ss)
  let ?m = "machine_step m (Event_sensor_sample v)"
  have "machine_samples m (v # ss) = machine_samples ?m ss" by (simp add: machine_samples_def)
  then show ?case
    using machine_step_operating [OF Cons.prems, of v] Cons.IH [of ?m] machine_samples_latched [of ?m ss] by auto
qed (simp add: machine_samples_def)

lemma sample_event: "kind e = EventKind.sensor_sample \<Longrightarrow> e = Event_sensor_sample (sample e)"
  by (cases e) (simp add: Event_defs)

text \<open>
  Without resets and shutdown requests, an operating machine sees the samples only, unless an internal
  fault has latched it.
\<close>

lemma machine_run_samples:
  assumes "operating (m_state m)"
    and "\<forall>e \<in> set es. kind e \<noteq> EventKind.reset_requested \<and> kind e \<noteq> EventKind.shutdown_requested"
  shows "m_state (machine_run m es) = MotorState.fault_latched \<or>
    machine_run m es = machine_samples m (sensor_samples es)"
  using assms
proof (induction es arbitrary: m)
  case Nil
  show ?case by (simp add: machine_samples_def)
next
  case (Cons e es)
  have rest: "\<forall>e \<in> set es. kind e \<noteq> EventKind.reset_requested \<and> kind e \<noteq> EventKind.shutdown_requested"
    using Cons.prems(2) by simp
  consider (ignored) "kind e \<in> {EventKind.startup, EventKind.self_test_passed}"
    | (fault) "kind e = EventKind.internal_fault" | (sensed) "kind e = EventKind.sensor_sample"
    using Cons.prems(2) by (cases "kind e") auto
  then show ?case
  proof cases
    case ignored
    then show ?thesis using Cons.IH [OF Cons.prems(1) rest] operating_ignores [OF Cons.prems(1) ignored] by auto
  next
    case fault
    then show ?thesis
      using machine_run_latched [OF internal_fault_latches [OF Cons.prems(1) fault] rest] by simp
  next
    case sensed
    let ?m = "machine_step m (Event_sensor_sample (sample e))"
    have e: "machine_run m (e # es) = machine_run ?m es" using sample_event [OF sensed] by simp
    have s: "machine_samples m (sensor_samples (e # es)) = machine_samples ?m (sensor_samples es)"
      using sensed by (simp add: machine_samples_def)
    have "operating (m_state ?m) \<or> m_state ?m = MotorState.fault_latched"
      by (rule machine_step_operating [OF Cons.prems(1)])
    then show ?thesis
      using Cons.IH [OF _ rest, of ?m] machine_run_latched [OF _ rest, of ?m] unfolding e s by blast
  qed
qed

lemma subseq_drop_set:
  assumes "subseq xs (ys @ zs)"
  shows "set (drop (length ys) xs) \<subseteq> set zs"
  using assms
proof (induction ys arbitrary: xs)
  case Nil
  then show ?case using list_emb_set [of "(=)" xs zs] by auto
next
  case (Cons y ys)
  show ?case
  proof (cases xs)
    case xs: (Cons x xs')
    have "subseq xs' (ys @ zs)" using Cons.prems xs by (auto simp: subseq_Cons' split: if_splits)
    then show ?thesis using Cons.IH xs by simp
  qed simp
qed

end
