(* ===== verification/Task_Runs.thy ===== *)
theory Task_Runs
  imports Sample_Flow
begin

text \<open>
  Undisturbed runs of the tasks: the runtime starts up, and from then on each turn of the sensor task
  delivers its sample to the state machine.
\<close>

section \<open>Specification\<close>

text \<open>The runtime between two turns of the sensor task, with \<open>n\<close> publishers, all of them idle.\<close>

definition waiting :: "ProtectionConfig \<Rightarrow> main_pc \<Rightarrow> nat \<Rightarrow> runtime \<Rightarrow> bool" where
  "waiting cfg m n s \<longleftrightarrow>
     rt_inv cfg s \<and> r_main s = m \<and> r_control s = CPop \<and> queue_items (r_queue s) = [] \<and>
     r_pubs s = replicate n PIdle"

definition ready :: "ProtectionConfig \<Rightarrow> nat \<Rightarrow> 's tasks \<Rightarrow> bool" where
  "ready cfg n s \<longleftrightarrow>
     waiting cfg MRunning n (t_rt s) \<and> t_sensor s = STop \<and> t_monitor s = TWait \<and>
     \<not> r_stop_requested (t_rt s)"

section \<open>Threads on their own\<close>

lemma move_own:
  assumes "own_step i (t_rt s) r"
  shows "tasks_move read calls s (s\<lparr>t_rt := r\<rparr>)"
  using assms by (auto simp: own_step_def intro!: tasks_moveI task_step.publish)

lemma move_own_run:
  assumes "(own_step i)\<^sup>*\<^sup>* (t_rt s) r"
  shows "(tasks_move read calls)\<^sup>*\<^sup>* s (s\<lparr>t_rt := r\<rparr>)"
  using assms
proof induction
  case (step r u)
  have "tasks_move read calls (s\<lparr>t_rt := r\<rparr>) (s\<lparr>t_rt := u\<rparr>)"
    using move_own [of i "s\<lparr>t_rt := r\<rparr>" u] step(2) by simp
  then show ?case using step(3) by (rule rtranclp.rtrancl_into_rtrancl [rotated])
qed simp

lemma move_control:
  assumes "control_step (t_rt s) now (r_control (t_rt s)) = Some (pc, r)"
  shows "tasks_move read calls s (s\<lparr>t_rt := r\<lparr>r_control := pc\<rparr>\<rparr>)"
  by (rule tasks_moveI [OF task_step.control [OF assms]])

lemma control_catches_up:
  assumes "rt_inv cfg (t_rt s)" and "r_control (t_rt s) \<notin> {CNone, CExit}" and "\<not> q_closed (r_queue (t_rt s))"
  shows "\<exists>r. (tasks_move read calls)\<^sup>*\<^sup>* s (s\<lparr>t_rt := r\<rparr>) \<and> rt_inv cfg r \<and> r_control r = CPop \<and>
    queue_items (r_queue r) = [] \<and> r_pubs r = r_pubs (t_rt s) \<and> r_main r = r_main (t_rt s) \<and>
    h_accepted r = h_accepted (t_rt s) \<and> r_stop_requested r = r_stop_requested (t_rt s)"
  using assms
proof (induction "drain_rank (t_rt s)" arbitrary: s rule: less_induct)
  case less
  show ?case
  proof (cases "r_control (t_rt s) = CPop \<and> queue_items (r_queue (t_rt s)) = []")
    case True
    then show ?thesis using less.prems(1) by (intro exI [of _ "t_rt s"]) simp
  next
    case False
    then obtain pc s' where st: "control_step (t_rt s) 0 (r_control (t_rt s)) = Some (pc, s')"
      using control_enabled [OF less.prems(1)] less.prems(2) by blast
    let ?r = "s'\<lparr>r_control := pc\<rparr>"
    let ?t = "s\<lparr>t_rt := ?r\<rparr>"
    note fr = control_step_frame [OF st]
    have rank: "drain_rank (t_rt ?t) < drain_rank (t_rt s)" using control_step_rank [OF less.prems(1) st] by simp
    have inv: "rt_inv cfg (t_rt ?t)" using rt_inv_step [OF rt_step.control [OF st] less.prems(1)] by simp
    have op: "\<not> q_closed (r_queue (t_rt ?t))" using fr less.prems(3) by simp
    have "pc \<noteq> CExit" using control_step_exit [OF less.prems(1), of 0 "r_control (t_rt s)" s'] st op by auto
    then have pc: "r_control (t_rt ?t) \<notin> {CNone, CExit}" using fr by simp
    obtain r where r: "(tasks_move read calls)\<^sup>*\<^sup>* ?t (?t\<lparr>t_rt := r\<rparr>)" "rt_inv cfg r" "r_control r = CPop"
      "queue_items (r_queue r) = []" "r_pubs r = r_pubs (t_rt ?t)" "r_main r = r_main (t_rt ?t)"
      "h_accepted r = h_accepted (t_rt ?t)" "r_stop_requested r = r_stop_requested (t_rt ?t)"
      using less.hyps [OF rank inv pc op] by blast
    have "(tasks_move read calls)\<^sup>*\<^sup>* s (s\<lparr>t_rt := r\<rparr>)"
      using converse_rtranclp_into_rtranclp [of "tasks_move read calls", OF move_control [OF st] r(1)] by simp
    then show ?thesis using r fr by (intro exI [of _ r]) simp
  qed
qed

lemma waiting_handled: "waiting cfg m n s \<Longrightarrow> h_handled s = h_accepted s"
  using rt_invD(7) [of cfg s] by (simp add: waiting_def)

text \<open>A call of \<open>publish\<close> and the handling of its event, when nothing else happens.\<close>

lemma deliver:
  assumes inv: "rt_inv cfg (t_rt s)" and m: "r_main (t_rt s) \<in> publishing"
    and c: "r_control (t_rt s) = CPop" and q: "queue_items (r_queue (t_rt s)) = []"
    and pubs: "r_pubs (t_rt s) = (replicate n PIdle)[i := PCheck e]" and i: "i < n" and few: "n \<le> 127"
  shows "\<exists>r res. (tasks_move read calls)\<^sup>*\<^sup>* s (s\<lparr>t_rt := r\<rparr>) \<and> rt_inv cfg r \<and> r_control r = CPop \<and>
    queue_items (r_queue r) = [] \<and> r_pubs r = (replicate n PIdle)[i := PReturn res] \<and>
    r_main r = r_main (t_rt s) \<and> h_accepted r = h_accepted (t_rt s) @ [e] \<and>
    r_stop_requested r = r_stop_requested (t_rt s)"
proof -
  note ready = phases_publishing [OF rt_invD(10) [OF inv] m]
  have off: "offered (t_rt s) e = [e]" using q by (simp add: offered_def kEventQueueCapacity_def)
  obtain r res where r: "(own_step i)\<^sup>*\<^sup>* (t_rt s) r" "r_pubs r = (r_pubs (t_rt s))[i := PReturn res]"
    "same_phase (t_rt s) r" "h_accepted r = h_accepted (t_rt s) @ [e]"
    using publish_run [OF inv _ _ ready(1) _ ready(2), of i e] pubs i few off by auto
  have inv': "rt_inv cfg r" by (rule rt_inv_run [OF inv own_run_rt [OF r(1)]])
  let ?t = "s\<lparr>t_rt := r\<rparr>"
  have t: "rt_inv cfg (t_rt ?t)" "r_control (t_rt ?t) \<notin> {CNone, CExit}" "\<not> q_closed (r_queue (t_rt ?t))"
    using inv' r(3) c ready(2) by (simp_all add: same_phase_def)
  obtain u where u: "(tasks_move read calls)\<^sup>*\<^sup>* ?t (?t\<lparr>t_rt := u\<rparr>)" "rt_inv cfg u" "r_control u = CPop"
      "queue_items (r_queue u) = []" "r_pubs u = r_pubs r" "r_main u = r_main r" "h_accepted u = h_accepted r"
      "r_stop_requested u = r_stop_requested r"
    using control_catches_up [OF t, of read calls] by auto
  have "r_stop_requested r = r_stop_requested (t_rt s)"
    using rt_invD(10) [OF inv] rt_invD(10) [OF inv'] r(3) by (simp add: rt_phases_def same_phase_def)
  then show ?thesis
    using rtranclp_trans [OF move_own_run [OF r(1)] u(1)] u r pubs
    by (intro exI [of _ u] exI [of _ res]) (simp add: same_phase_def)
qed

section \<open>Start\<close>

lemma move_start:
  assumes "start_step (t_rt s) = Some r" and "r_main (t_rt s) \<noteq> MRunning"
  shows "tasks_move read calls s (s\<lparr>t_rt := r, t_sensor := if r_main r = MRunning then STop else t_sensor s\<rparr>)"
  by (rule tasks_moveI [OF task_step.start]) (use assms in \<open>simp add: start_task_def\<close>)

text \<open>One of the two events that \<open>start\<close> publishes.\<close>

lemma start_delivers:
  assumes s: "rt_inv cfg (t_rt s)" "r_main (t_rt s) \<in> {MStartup, MSelfTest}" "r_control (t_rt s) = CPop"
      "queue_items (r_queue (t_rt s)) = []" "r_pubs (t_rt s) = (replicate n PIdle)[0 := PCheck e]"
    and n: "2 \<le> n" "n \<le> 127"
  shows "\<exists>r. (tasks_move read calls)\<^sup>*\<^sup>* s
      (s\<lparr>t_rt := r, t_sensor := if r_main (t_rt s) = MSelfTest then STop else t_sensor s\<rparr>) \<and>
    rt_inv cfg r \<and> r_control r = CPop \<and> queue_items (r_queue r) = [] \<and>
    h_accepted r = h_accepted (t_rt s) @ [e] \<and> r_stop_requested r = r_stop_requested (t_rt s) \<and>
    (if r_main (t_rt s) = MStartup
     then r_main r = MSelfTest \<and> r_pubs r = (replicate n PIdle)[0 := PCheck Event_self_test_passed]
     else r_main r = MRunning \<and> r_pubs r = replicate n PIdle)"
proof -
  have "r_main (t_rt s) \<in> publishing" "0 < n" using s(2) n by auto
  then obtain r res where r: "(tasks_move read calls)\<^sup>*\<^sup>* s (s\<lparr>t_rt := r\<rparr>)" "rt_inv cfg r" "r_control r = CPop"
    "queue_items (r_queue r) = []" "r_pubs r = (replicate n PIdle)[0 := PReturn res]"
    "r_main r = r_main (t_rt s)" "h_accepted r = h_accepted (t_rt s) @ [e]"
    "r_stop_requested r = r_stop_requested (t_rt s)"
    using deliver [OF s(1) _ s(3-5) _ n(2), of read calls] by blast
  define u where "u = (if r_main r = MStartup
    then set_pub (r\<lparr>r_main := MSelfTest\<rparr>) 0 (PCheck Event_self_test_passed)
    else set_pub (r\<lparr>r_main := MRunning\<rparr>) 0 PIdle)"
  have first: "returned (r_pubs r ! 0)" using r(5) n by simp
  have u: "start_step r = Some u" using r(6) s(2) first by (auto simp: start_step_def u_def)
  have inv: "rt_inv cfg u" by (rule rt_inv_step [OF rt_step.start [OF u] r(2)])
  have main: "r_main r \<noteq> MRunning" using r(6) s(2) by auto
  have "(tasks_move read calls)\<^sup>*\<^sup>* s
      (s\<lparr>t_rt := u, t_sensor := if r_main u = MRunning then STop else t_sensor s\<rparr>)"
    using rtranclp.rtrancl_into_rtrancl [OF r(1) move_start [of "s\<lparr>t_rt := r\<rparr>" u]] u main
    by (cases "r_main u = MRunning") simp_all
  moreover have "r_main u = MRunning \<longleftrightarrow> r_main (t_rt s) = MSelfTest"
    using r(6) s(2) by (auto simp: u_def)
  ultimately show ?thesis
    using inv r s(2) by (intro exI [of _ u]) (auto simp: u_def replicate_update)
qed

lemma start_ready:
  assumes n: "2 \<le> n" "n \<le> 127" and base: "0 < base" "0 < stride"
  shows "\<exists>s. (tasks_move read calls)\<^sup>*\<^sup>* (tasks_init cfg base stride n source) s \<and> ready cfg n s \<and>
    h_handled (t_rt s) = [Event_startup, Event_self_test_passed] \<and> t_source s = source \<and> t_reads s = []"
proof -
  let ?s = "tasks_init cfg base stride n source"
  define r1 where "r1 = set_pub ((t_rt ?s)\<lparr>r_started := True, r_accepting := True, r_running := True,
    r_control := CPop, r_main := MStartup\<rparr>) 0 (PCheck Event_startup)"
  have st1: "start_step (t_rt ?s) = Some r1" "r_main (t_rt ?s) = MInit"
    by (simp_all add: start_step_def tasks_init_def runtime_init_def r1_def)
  have inv1: "rt_inv cfg r1"
    by (rule rt_inv_step [OF rt_step.start [OF st1(1)]])
       (use rt_inv_init [OF base n(1), of cfg] in \<open>simp add: tasks_init_def\<close>)
  let ?s1 = "?s\<lparr>t_rt := r1\<rparr>"
  have m1: "tasks_move read calls ?s ?s1"
    using move_start [OF st1(1), of read calls] st1(2) by (simp add: r1_def tasks_init_def)
  have s1: "r_main r1 = MStartup" "r_control r1 = CPop" "queue_items (r_queue r1) = []"
    "r_pubs r1 = (replicate n PIdle)[0 := PCheck Event_startup]" "h_accepted r1 = []" "\<not> r_stop_requested r1"
    by (simp_all add: r1_def tasks_init_def runtime_init_def)
  obtain r2 where r2: "(tasks_move read calls)\<^sup>*\<^sup>* ?s1 (?s1\<lparr>t_rt := r2\<rparr>)" "rt_inv cfg r2" "r_control r2 = CPop"
    "queue_items (r_queue r2) = []" "h_accepted r2 = [Event_startup]" "\<not> r_stop_requested r2" "r_main r2 = MSelfTest"
    "r_pubs r2 = (replicate n PIdle)[0 := PCheck Event_self_test_passed]"
    using start_delivers [of cfg ?s1 n Event_startup read calls] inv1 s1 n by auto
  let ?s2 = "?s1\<lparr>t_rt := r2\<rparr>"
  obtain r3 where r3: "(tasks_move read calls)\<^sup>*\<^sup>* ?s2 (?s2\<lparr>t_rt := r3, t_sensor := STop\<rparr>)" "rt_inv cfg r3"
    "r_control r3 = CPop" "queue_items (r_queue r3) = []"
    "h_accepted r3 = [Event_startup, Event_self_test_passed]" "\<not> r_stop_requested r3" "r_main r3 = MRunning"
    "r_pubs r3 = replicate n PIdle"
    using start_delivers [of cfg ?s2 n Event_self_test_passed read calls] r2 n by auto
  let ?s3 = "?s2\<lparr>t_rt := r3, t_sensor := STop\<rparr>"
  have "tasks_move read calls ?s3 (?s3\<lparr>t_monitor := TWait\<rparr>)"
    by (rule tasks_moveI [OF task_step.start]) (use r3(7) in \<open>simp add: start_task_def tasks_init_def\<close>)
  then have "(tasks_move read calls)\<^sup>*\<^sup>* ?s (?s3\<lparr>t_monitor := TWait\<rparr>)"
    using m1 r2(1) r3(1) by (meson converse_rtranclp_into_rtranclp rtranclp.rtrancl_into_rtrancl rtranclp_trans)
  moreover have w: "waiting cfg MRunning n r3" using r3 by (simp add: waiting_def)
  ultimately show ?thesis
    using waiting_handled [OF w] r3
    by (intro exI [of _ "?s3\<lparr>t_monitor := TWait\<rparr>"]) (simp add: ready_def tasks_init_def)
qed

section \<open>Turns of the sensor task\<close>

lemma move_sensor:
  assumes "sensor_loop read e expired s = Some t"
  shows "tasks_move read calls s t"
  by (rule tasks_moveI [OF task_step.sensor [OF assms]])

lemma sensor_turn:
  assumes s: "ready cfg n s" and src: "t_source s = Some source" and n: "2 \<le> n" "n \<le> 127"
  shows "\<exists>t. (tasks_move read calls)\<^sup>*\<^sup>* s t \<and> ready cfg n t \<and> t_source t = Some (snd (read e source)) \<and>
    t_reads t = t_reads s @ [fst (read e source)] \<and>
    h_handled (t_rt t) = h_handled (t_rt s) @ [Event_sensor_sample (fst (read e source))]"
proof -
  obtain v source' where v: "read e source = (v, source')" by (cases "read e source")
  note w = s [unfolded ready_def waiting_def]
  let ?s1 = "s\<lparr>t_sensor := SRead\<rparr>"
  let ?s2 = "?s1\<lparr>t_source := Some source', t_reads := t_reads s @ [v], t_sensor := SPublish,
    t_rt := set_pub (t_rt s) 1 (PCheck (Event_sensor_sample v))\<rparr>"
  have m1: "tasks_move read calls s ?s1"
    using move_sensor [of read e False s ?s1 calls] w src by (simp add: sensor_loop_def)
  have m2: "tasks_move read calls ?s1 ?s2"
    using move_sensor [of read e False ?s1 ?s2 calls] src v by (simp add: sensor_loop_def)
  have "sensor_step (t_rt s) v = Some (t_rt ?s2)" using w n by (simp add: sensor_step_def)
  then have inv2: "rt_inv cfg (t_rt ?s2)" using rt_inv_step rt_step.sensor w by blast
  have s2: "r_main (t_rt ?s2) \<in> publishing" "r_control (t_rt ?s2) = CPop" "queue_items (r_queue (t_rt ?s2)) = []"
    "r_pubs (t_rt ?s2) = (replicate n PIdle)[1 := PCheck (Event_sensor_sample v)]" "1 < n"
    using w n by simp_all
  obtain r res where r: "(tasks_move read calls)\<^sup>*\<^sup>* ?s2 (?s2\<lparr>t_rt := r\<rparr>)" "rt_inv cfg r" "r_control r = CPop"
    "queue_items (r_queue r) = []" "r_pubs r = (replicate n PIdle)[1 := PReturn res]" "r_main r = r_main (t_rt ?s2)"
    "h_accepted r = h_accepted (t_rt ?s2) @ [Event_sensor_sample v]"
    "r_stop_requested r = r_stop_requested (t_rt ?s2)"
    using deliver [OF inv2 s2 n(2), of read calls] by blast
  let ?s3 = "?s2\<lparr>t_rt := r\<rparr>"
  define r4 where "r4 = set_pub r 1 PIdle"
  let ?s4 = "?s3\<lparr>t_rt := r4, t_sensor := SWait\<rparr>"
  let ?s5 = "?s4\<lparr>t_sensor := STop\<rparr>"
  have m4: "tasks_move read calls ?s3 ?s4"
    using move_sensor [of read e False ?s3 ?s4 calls] r(5) n by (simp add: sensor_loop_def r4_def)
  have stop: "\<not> r_stop_requested r4" using r(8) w by (simp add: r4_def)
  have m5: "tasks_move read calls ?s4 ?s5"
    using move_sensor [of read e True ?s4 ?s5 calls] stop by (simp add: sensor_loop_def wait_for_period_def)
  have "rt_inv cfg r4"
    unfolding r4_def using r(2,5) n by (intro rt_inv_step [OF rt_step.return]) simp_all
  then have "waiting cfg MRunning n r4" using r w by (simp add: waiting_def r4_def replicate_update)
  then have "ready cfg n ?s5" "h_handled r4 = h_accepted r4"
    using stop w waiting_handled by (simp_all add: ready_def)
  moreover have "h_accepted r4 = h_handled (t_rt s) @ [Event_sensor_sample v]"
    using r(7) waiting_handled [of cfg MRunning n "t_rt s"] s by (simp add: r4_def ready_def)
  moreover have "(tasks_move read calls)\<^sup>*\<^sup>* s ?s5"
    using m1 m2 r(1) m4 m5
    by (meson converse_rtranclp_into_rtranclp rtranclp.rtrancl_into_rtrancl rtranclp_trans)
  ultimately show ?thesis using v by (intro exI [of _ ?s5]) simp
qed

lemma sensor_turns:
  assumes "ready cfg n s" and "t_source s = Some source" and n: "2 \<le> n" "n \<le> 127"
  shows "\<exists>t. (tasks_move read calls)\<^sup>*\<^sup>* s t \<and> ready cfg n t \<and>
    t_reads t = t_reads s @ fst (source_reads read inputs source) \<and>
    h_handled (t_rt t) = h_handled (t_rt s) @ map Event_sensor_sample (fst (source_reads read inputs source))"
  using assms(1,2)
proof (induction inputs arbitrary: s source)
  case Nil
  then show ?case by (intro exI [of _ s]) simp
next
  case (Cons e inputs)
  obtain t where t: "(tasks_move read calls)\<^sup>*\<^sup>* s t" "ready cfg n t" "t_source t = Some (snd (read e source))"
    "t_reads t = t_reads s @ [fst (read e source)]"
    "h_handled (t_rt t) = h_handled (t_rt s) @ [Event_sensor_sample (fst (read e source))]"
    using sensor_turn [OF Cons.prems n, where read = read and calls = calls and e = e] by blast
  obtain u where "(tasks_move read calls)\<^sup>*\<^sup>* t u" "ready cfg n u"
    "t_reads u = t_reads t @ fst (source_reads read inputs (snd (read e source)))"
    "h_handled (t_rt u) = h_handled (t_rt t) @
      map Event_sensor_sample (fst (source_reads read inputs (snd (read e source))))"
    using Cons.IH [OF t(2,3)] by blast
  moreover from this have "(tasks_move read calls)\<^sup>*\<^sup>* s u" using t(1) by (simp add: rtranclp_trans)
  ultimately show ?case
    using t(4,5) by (intro exI [of _ u]) (simp add: source_reads_Cons del: source_reads.simps(2))
qed

section \<open>Detection\<close>

lemma subseq_append_left: "subseq (xs @ ys) zs \<Longrightarrow> subseq xs zs"
  by (rule subseq_order.trans [OF prefix_imp_subseq]) simp_all

text \<open>At the end of a run, what the machine has handled since its start is known by its samples.\<close>

lemma handled_samples:
  assumes reach: "tasks_reachable read calls cfg base stride publishers source s"
    and pos: "0 < base" "0 < stride" "2 \<le> publishers" and calls: "no_samples calls"
    and run: "(tasks_move read calls)\<^sup>*\<^sup>* s t" and handled: "h_handled (t_rt t) = h_handled (t_rt s) @ es"
    and reads: "t_reads t = t_reads s @ hot"
    and pending: "h_accepted (t_rt s) = h_handled (t_rt s) @ pending"
  shows "set (drop (length pending + 1) (sensor_samples es)) \<subseteq> set hot"
proof -
  obtain new where new: "sensor_samples (h_accepted (t_rt t)) = sensor_samples (h_accepted (t_rt s)) @ new"
    "subseq (new @ sample_in_flight (t_rt t)) (sample_in_flight (t_rt s) @ hot)"
    using samples_flow_run [OF reach pos calls run] reads by (auto simp: samples_flow_def)
  have inv: "rt_inv cfg (t_rt t)"
    using task_invD(1) [OF task_inv_reachable [OF tasks_run_reachable [OF reach run] pos]] .
  obtain rest where rest: "h_accepted (t_rt t) = h_handled (t_rt t) @ rest" using rt_invD(7) [OF inv] by blast
  have eq: "sensor_samples es @ sensor_samples rest = sensor_samples pending @ new"
    using new(1) handled rest pending by simp
  have few: "length (sensor_samples pending) \<le> length pending" "length (sample_in_flight (t_rt s)) \<le> 1"
    by (simp_all add: sensor_samples_def sample_in_flight_def split: option.split)
  have "subseq new (sample_in_flight (t_rt s) @ hot)"
    by (rule subseq_append_left [OF new(2)])
  then have "set (drop 1 new) \<subseteq> set hot"
    using subseq_drop_set set_drop_subset_set_drop [OF few(2), of new] by blast
  moreover have "drop (length pending + 1) (sensor_samples es @ sensor_samples rest) =
      drop (length pending + 1 - length (sensor_samples pending)) new"
    using few(1) unfolding eq by simp
  moreover have "set (drop (length pending + 1 - length (sensor_samples pending)) new) \<subseteq> set (drop 1 new)"
    by (rule set_drop_subset_set_drop) (use few(1) in simp)
  ultimately have "set (drop (length pending + 1) (sensor_samples es @ sensor_samples rest)) \<subseteq> set hot" by simp
  then show ?thesis by simp
qed

text \<open>An example: a simulated sensor that is hot from the beginning, and a few of its turns.\<close>

abbreviation hot_source :: SimulatedSensor where
  "hot_source \<equiv> SimulatedSensor_init hot_sample"

abbreviation example_reachable :: "SimulatedSensor tasks \<Rightarrow> bool" where
  "example_reachable \<equiv> tasks_reachable simulated_source {Event_reset_requested} ProtectionConfig_default
     4096 64 3 (Some hot_source)"

lemma example_run:
  "\<exists>s t hot. example_reachable s \<and> example_reachable t \<and>
     (tasks_move simulated_source {Event_reset_requested})\<^sup>*\<^sup>* s t \<and>
     h_handled (t_rt s) = [Event_startup, Event_self_test_passed] \<and> h_accepted (t_rt s) = h_handled (t_rt s) \<and>
     t_reads s = [] \<and> t_reads t = hot \<and> h_handled (t_rt t) = h_handled (t_rt s) @ map Event_sensor_sample hot \<and>
     length hot = 4 \<and> (\<forall>v \<in> set hot. \<exists>k. v = hot_sample\<lparr>sequence := k\<rparr>)"
proof -
  let ?move = "tasks_move simulated_source {Event_reset_requested}"
  let ?hot = "fst (source_reads simulated_source (replicate 4 []) hot_source)"
  obtain s where s: "?move\<^sup>*\<^sup>* (tasks_init ProtectionConfig_default 4096 64 3 (Some hot_source)) s"
    "ready ProtectionConfig_default 3 s" "h_handled (t_rt s) = [Event_startup, Event_self_test_passed]"
    "t_source s = Some hot_source" "t_reads s = []"
    using start_ready [of 3 4096 64 simulated_source "{Event_reset_requested}" ProtectionConfig_default
      "Some hot_source"] by auto
  obtain t where t: "?move\<^sup>*\<^sup>* s t" "t_reads t = t_reads s @ ?hot"
    "h_handled (t_rt t) = h_handled (t_rt s) @ map Event_sensor_sample ?hot"
    using sensor_turns [OF s(2,4), of simulated_source "{Event_reset_requested}" "replicate 4 []"] by auto
  have r: "example_reachable s" by (rule tasks_run_reachable [OF tasks_reachable.tasks_init s(1)])
  have "shown hot_source = hot_sample" by (simp add: shown_def SimulatedSensor_init_def)
  then have "\<forall>v \<in> set ?hot. \<exists>k. v = hot_sample\<lparr>sequence := k\<rparr>"
    using undisturbed_reads [of 4 hot_source] by simp
  moreover have "h_accepted (t_rt s) = h_handled (t_rt s)"
    using waiting_handled [of ProtectionConfig_default MRunning 3 "t_rt s"] s(2) by (simp add: ready_def)
  ultimately show ?thesis
    using r tasks_run_reachable [OF r t(1)] t s(3,5)
    by (intro exI [of _ s] exI [of _ t] exI [of _ ?hot]) simp
qed

section \<open>Properties\<close>

text \<open>
  C10. The tasks refine the runtime: whatever the loops of the sensor task and the monitor task do, every
  step of the detailed system is a step of the runtime model or leaves the runtime as it is, so
  everything shown of the runtime holds with them; and when \<open>stop\<close> has returned, all three tasks have
  ended.
\<close>

theorem tasks_refine_runtime:
  assumes "tasks_reachable read calls cfg base stride publishers source s"
    and "0 < base" and "0 < stride" and "2 \<le> publishers"
  shows "rt_reachable cfg base stride publishers (t_rt s) \<and>
    (\<forall>k t. task_step read calls k s t \<longrightarrow> t_rt t = t_rt s \<or> rt_step (t_rt s) (t_rt t)) \<and>
    (r_main (t_rt s) = MDone \<longrightarrow>
      t_sensor s = SExit \<and> t_monitor s = TExit \<and> r_control (t_rt s) = CExit)"
proof -
  note inv = task_inv_reachable [OF assms]
  have "r_main (t_rt s) = MDone \<longrightarrow> t_sensor s = SExit \<and> t_monitor s = TExit \<and> r_control (t_rt s) = CExit"
    using task_invD(2) [OF inv] done_handled(2) [OF task_invD(1) [OF inv]]
    by (auto simp: task_phases_def closing_def)
  then show ?thesis using tasks_reachable_rt [OF assms] task_step_rt [OF inv] by blast
qed

theorem tasks_refine_runtime_witness:
  "\<exists>s. example_reachable s \<and> h_handled (t_rt s) = [Event_startup, Event_self_test_passed] \<and>
     rt_reachable ProtectionConfig_default 4096 64 3 (t_rt s)"
proof -
  obtain s where s: "example_reachable s" "h_handled (t_rt s) = [Event_startup, Event_self_test_passed]"
    using example_run by blast
  then show ?thesis using tasks_refine_runtime [OF s(1)] by auto
qed

text \<open>
  C9. The samples the state machine handles are samples that consecutive reads of the sensor have
  returned, in the same order and each at most once, whatever the other threads do, as long as nobody
  else publishes samples.
\<close>

theorem samples_in_order:
  assumes "tasks_reachable read calls cfg base stride publishers (Some source) s"
    and "0 < base" and "0 < stride" and "2 \<le> publishers"
    and "\<forall>e \<in> calls. kind e \<noteq> EventKind.sensor_sample"
  shows "\<exists>inputs. t_reads s = fst (source_reads read inputs source) \<and>
    subseq (sensor_samples (h_handled (t_rt s))) (t_reads s)"
proof -
  let ?init = "tasks_init cfg base stride publishers (Some source)"
  have "(tasks_move read calls)\<^sup>*\<^sup>* ?init s"
    using assms(1) by induction (auto intro: rtranclp.rtrancl_into_rtrancl tasks_moveI)
  note flow = samples_flow_run [OF tasks_reachable.tasks_init assms(2-5) this]
  have "sample_in_flight (t_rt ?init) = []" "h_accepted (t_rt ?init) = []" "t_reads ?init = []"
    using assms(4) by (simp_all add: tasks_init_def runtime_init_def sample_in_flight_def flight_def)
  then have "subseq (sensor_samples (h_accepted (t_rt s)) @ sample_in_flight (t_rt s)) (t_reads s)"
    using flow by (simp add: samples_flow_def)
  moreover obtain rest where "h_accepted (t_rt s) = h_handled (t_rt s) @ rest"
    using rt_invD(7) [OF task_invD(1) [OF task_inv_reachable [OF assms(1-4)]]] by blast
  ultimately have "subseq (sensor_samples (h_handled (t_rt s))) (t_reads s)"
    by (simp add: subseq_append_left)
  then show ?thesis using reads_of_source [OF assms(1)] by blast
qed

theorem samples_in_order_witness:
  "\<exists>s inputs. example_reachable s \<and> length (sensor_samples (h_handled (t_rt s))) = 4 \<and>
     t_reads s = fst (source_reads simulated_source inputs hot_source) \<and>
     subseq (sensor_samples (h_handled (t_rt s))) (t_reads s)"
proof -
  obtain t hot where t: "example_reachable t" "length hot = 4"
    "h_handled (t_rt t) = [Event_startup, Event_self_test_passed] @ map Event_sensor_sample hot"
    using example_run by auto
  have "sensor_samples (map Event_sensor_sample hot) = hot" by (induction hot) simp_all
  then show ?thesis using samples_in_order [OF t(1)] t by (intro exI [of _ t]) auto
qed

text \<open>
  C8. Overheating is detected through the whole pipeline, in bounded time: if from some state on, in which
  the motor operates, the sensor reads critical values only, and nobody asks for a reset or a shutdown,
  then the fault is latched as soon as the control task has handled the events that were pending, one
  sample that was on its way, and twice the configured number of critical samples less one. No more than
  129 events are ever pending.
\<close>

theorem overheating_detected:
  assumes "tasks_reachable read calls cfg base stride publishers source s"
    and "0 < base" and "0 < stride" and "2 \<le> publishers"
    and "\<forall>e \<in> calls. kind e \<noteq> EventKind.sensor_sample"
    and "config_ok cfg" and "operating (m_state (r_machine (t_rt s)))"
    and "(tasks_move read calls)\<^sup>*\<^sup>* s t"
    and "t_reads t = t_reads s @ hot" and "\<forall>v \<in> set hot. online v \<and> is_critical cfg v"
    and "h_handled (t_rt t) = h_handled (t_rt s) @ es"
    and "\<forall>e \<in> set es. kind e \<noteq> EventKind.reset_requested \<and> kind e \<noteq> EventKind.shutdown_requested"
    and "h_accepted (t_rt s) = h_handled (t_rt s) @ pending"
    and "length pending + 2 * unat (critical_samples cfg) \<le> length (sensor_samples es)"
  shows "m_state (r_machine (t_rt t)) = MotorState.fault_latched \<and>
    length pending \<le> kEventQueueCapacity + 1"
proof -
  let ?m = "r_machine (t_rt s)" and ?ss = "sensor_samples es" and ?k = "length pending + 1"
  note inv = task_invD(1) [OF task_inv_reachable [OF assms(1-4)]]
  note inv' = task_invD(1) [OF task_inv_reachable [OF tasks_run_reachable [OF assms(1,8)] assms(2-4)]]
  have m: "?m = machine_run (MotorStateMachine_init cfg) (h_handled (t_rt s))" by (rule rt_invD(8) [OF inv])
  have run: "r_machine (t_rt t) = machine_run ?m es"
    using rt_invD(8) [OF inv'] assms(11) m by (simp add: machine_run_append)
  have hot: "\<forall>v \<in> set (drop ?k ?ss). online v \<and> is_critical cfg v"
    using handled_samples [OF assms(1-5,8,11,9,13)] assms(10) by blast
  let ?m' = "machine_samples ?m (take ?k ?ss)"
  have cfg: "m_config ?m' = cfg" using m by (simp add: MotorStateMachine_init_def)
  have minv: "machine_inv ?m'"
    unfolding machine_samples_def m using machine_run_inv machine_inv_init by metis
  have ss: "machine_samples ?m ?ss = machine_samples ?m' (drop ?k ?ss)"
    by (metis append_take_drop_id machine_samples_append)
  have "m_state (machine_samples ?m ?ss) = MotorState.fault_latched"
  proof (cases "operating (m_state ?m')")
    case True
    then show ?thesis
      unfolding ss by (rule operating_detects_critical [OF _ minv]) (use cfg hot assms(6,14) in auto)
  next
    case False
    then have "m_state ?m' = MotorState.fault_latched"
      using machine_samples_operating [OF assms(7)] by blast
    then show ?thesis unfolding ss by (rule machine_samples_latched)
  qed
  then have "m_state (r_machine (t_rt t)) = MotorState.fault_latched"
    using machine_run_samples [OF assms(7,12)] run by auto
  moreover have "length pending \<le> kEventQueueCapacity + 1"
    using pending_bound [OF inv] assms(13) by simp
  ultimately show ?thesis by simp
qed

theorem overheating_detected_witness:
  "\<exists>s t. example_reachable s \<and> operating (m_state (r_machine (t_rt s))) \<and>
     (tasks_move simulated_source {Event_reset_requested})\<^sup>*\<^sup>* s t \<and>
     m_state (r_machine (t_rt t)) = MotorState.fault_latched"
proof -
  obtain s t hot where ex: "example_reachable s" "(tasks_move simulated_source {Event_reset_requested})\<^sup>*\<^sup>* s t"
    "h_handled (t_rt s) = [Event_startup, Event_self_test_passed]" "h_accepted (t_rt s) = h_handled (t_rt s)"
    "t_reads s = []" "t_reads t = hot" "h_handled (t_rt t) = h_handled (t_rt s) @ map Event_sensor_sample hot"
    "length hot = 4" "\<forall>v \<in> set hot. \<exists>k. v = hot_sample\<lparr>sequence := k\<rparr>"
    using example_run by blast
  have samples: "sensor_samples (map Event_sensor_sample hot) = hot" by (induction hot) simp_all
  have crit: "\<forall>v \<in> set hot. online v \<and> is_critical ProtectionConfig_default v"
  proof
    fix v
    assume "v \<in> set hot"
    then obtain k where "v = hot_sample\<lparr>sequence := k\<rparr>" using ex(9) by blast
    then show "online v \<and> is_critical ProtectionConfig_default v"
      by (simp add: hot_sample_def is_critical_def ProtectionConfig_default_def dge_finite)
  qed
  have "r_machine (t_rt s) = machine_run (MotorStateMachine_init ProtectionConfig_default)
      [Event_startup, Event_self_test_passed]"
    using rt_invD(8) [OF task_invD(1) [OF task_inv_reachable [OF ex(1)]]] ex(3) by simp
  then have m: "operating (m_state (r_machine (t_rt s)))"
    by (simp add: healthy_after_start operating_def del: machine_run.simps)
  have "m_state (r_machine (t_rt t)) = MotorState.fault_latched \<and> length ([] :: Event list) \<le> kEventQueueCapacity + 1"
    by (rule overheating_detected [OF ex(1) _ _ _ _ config_ok_default m ex(2) _ crit ex(7)])
       (use ex samples in \<open>auto simp: ProtectionConfig_default_def\<close>)
  then show ?thesis using ex m by blast
qed

end
