(* ===== verification/Runtime_Liveness.thy ===== *)
theory Runtime_Liveness
  imports Task_Runs "HOL-Library.Product_Lexorder"
begin

text \<open>
  Liveness of the runtime under a fair scheduler: calls of \<open>start\<close>, \<open>stop\<close> and \<open>publish\<close> return. Both are
  instances of the rule of \<open>Fairness\<close>: at every moment one thread is responsible for the progress of the
  call, its steps lower a rank, and no other thread can raise it.
\<close>

section \<open>Ranks\<close>

text \<open>No call of \<open>start\<close> or \<open>stop\<close> is under way.\<close>

definition lifecycle_idle :: "'s tasks \<Rightarrow> bool" where
  "lifecycle_idle s \<longleftrightarrow>
     r_main (t_rt s) \<in> {MInit, MDone} \<or> r_main (t_rt s) = MRunning \<and> started_up s"

fun phase_rank :: "main_pc \<Rightarrow> nat" where
  "phase_rank MStartup = 8"
| "phase_rank MSelfTest = 7"
| "phase_rank MRunning = 6"
| "phase_rank MShutdown = 5"
| "phase_rank MWait = 4"
| "phase_rank MJoin = 3"
| "phase_rank MJoinControl = 2"
| "phase_rank MDone = 1"
| "phase_rank MInit = 9"

definition sensor_rank :: "'s tasks \<Rightarrow> nat" where
  "sensor_rank s =
     (case t_sensor s of
        SRead \<Rightarrow> 8
      | SPublish \<Rightarrow> 2 + publish_rank (r_pubs (t_rt s) ! 1)
      | STop \<Rightarrow> 1
      | SWait \<Rightarrow> 1
      | _ \<Rightarrow> 0)"

text \<open>The monitor task goes round until \<open>stop\<close> has requested its stop.\<close>

definition monitor_rank :: "'s tasks \<Rightarrow> nat" where
  "monitor_rank s =
     (if \<not> t_monitor_stop s then 3 else case t_monitor s of TTick \<Rightarrow> 2 | TWait \<Rightarrow> 1 | _ \<Rightarrow> 0)"

text \<open>What is left to do within a phase, and who has to do it.\<close>

definition work_rank :: "'s tasks \<Rightarrow> nat" where
  "work_rank s =
     (if in_call (r_main (t_rt s)) then publish_rank (r_pubs (t_rt s) ! 0)
      else if r_main (t_rt s) = MJoin then sensor_rank s + monitor_rank s
      else if r_main (t_rt s) = MJoinControl then drain_rank (t_rt s)
      else 0)"

definition lifecycle_rank :: "'s tasks \<Rightarrow> nat \<times> nat" where
  "lifecycle_rank s = (phase_rank (r_main (t_rt s)), work_rank s)"

definition responsible :: "'s tasks \<Rightarrow> thread" where
  "responsible s =
     (if r_main (t_rt s) = MJoin
      then if \<not> t_monitor_stop s then Main else if t_sensor s \<noteq> SExit then Sensor
           else if t_monitor s \<noteq> TExit then Monitor else Main
      else if r_main (t_rt s) = MJoinControl \<and> r_control (t_rt s) \<noteq> CExit then Control
      else Main)"

section \<open>Calls of start and stop\<close>

lemma publish_step_rank:
  assumes "publish_step s now expired pc = Some (pc', s')"
  shows "publish_rank pc' < publish_rank pc"
  using assms by (cases pc) (auto split: option.splits prod.splits if_splits)

lemma publisher_simps [simp]:
  "publisher 0 = Main" "publisher 1 = Sensor" "publisher (Suc 0) = Sensor" "publisher i \<noteq> Control" "publisher i \<noteq> Monitor"
  "publisher i \<noteq> Outside" "publisher i = Main \<longleftrightarrow> i = 0" "publisher i = Sensor \<longleftrightarrow> i = 1"
  "Control \<noteq> publisher i" "Monitor \<noteq> publisher i" "Outside \<noteq> publisher i"
  "Main = publisher i \<longleftrightarrow> i = 0" "Sensor = publisher i \<longleftrightarrow> i = 1"
  by (auto simp: publisher_def)

text \<open>A step that does not concern the work at hand.\<close>

lemma lifecycle_unconcerned:
  assumes "r_main (t_rt t) = r_main (t_rt s)" and "r_pubs (t_rt t) ! 0 = r_pubs (t_rt s) ! 0"
    and "r_main (t_rt s) = MJoin \<Longrightarrow>
      t_sensor t = t_sensor s \<and> t_monitor_stop t = t_monitor_stop s \<and>
      (t_monitor_stop s \<longrightarrow> t_monitor t = t_monitor s) \<and> r_pubs (t_rt t) ! 1 = r_pubs (t_rt s) ! 1"
    and "r_main (t_rt s) = MJoinControl \<Longrightarrow>
      drain_rank (t_rt t) = drain_rank (t_rt s) \<and> r_control (t_rt t) = r_control (t_rt s)"
  shows "lifecycle_rank t = lifecycle_rank s" and "responsible t = responsible s"
  using assms
  by (auto simp: lifecycle_rank_def work_rank_def responsible_def sensor_rank_def monitor_rank_def
      split: sensor_pc.split monitor_pc.split)

lemma lifecycle_lower:
  assumes "r_main (t_rt t) = r_main (t_rt s)" and "work_rank t < work_rank s"
  shows "lifecycle_rank t < lifecycle_rank s"
  using assms by (simp add: lifecycle_rank_def less_prod_def')

lemma stop_requested_phase: "rt_phases s \<Longrightarrow> r_main s = MJoin \<Longrightarrow> r_stop_requested s"
  by (simp add: rt_phases_def)

text \<open>The effect of a step while a call is under way: progress, or no change at all.\<close>

definition lifecycle_effect :: "thread \<Rightarrow> 's tasks \<Rightarrow> 's tasks \<Rightarrow> bool" where
  "lifecycle_effect k s t \<longleftrightarrow>
     lifecycle_idle t \<or> lifecycle_rank t < lifecycle_rank s \<or>
     lifecycle_rank t = lifecycle_rank s \<and> responsible t = responsible s \<and> k \<noteq> responsible s"

lemma main_idle:
  assumes "task_inv cfg s" and "\<not> in_call (r_main (t_rt s))"
  shows "r_pubs (t_rt s) ! 0 = PIdle"
  using task_invD(3) [OF assms(1)] assms(2) by (cases "r_main (t_rt s)") (simp_all add: rt_phases_def in_call_def)

lemma publish_effect:
  assumes inv: "task_inv cfg s" and i: "i < length (r_pubs (t_rt s))"
    and step: "publish_step (t_rt s) now expired (r_pubs (t_rt s) ! i) = Some (pc, r)"
  shows "lifecycle_effect (publisher i) s (s\<lparr>t_rt := set_pub r i pc\<rparr>)"
proof -
  note fr = publish_step_frame [OF step]
  let ?t = "s\<lparr>t_rt := set_pub r i pc\<rparr>"
  have same: "r_main (t_rt ?t) = r_main (t_rt s)" using fr by simp
  have at: "r_pubs (t_rt ?t) ! i = pc" "\<And>j. j \<noteq> i \<Longrightarrow> r_pubs (t_rt ?t) ! j = r_pubs (t_rt s) ! j"
    using fr i by simp_all
  note less = publish_step_rank [OF step]
  consider (main) "i = 0" | (sensor) "i = 1" "r_main (t_rt s) = MJoin"
    | (other) "i \<noteq> 0" "i = 1 \<Longrightarrow> r_main (t_rt s) \<noteq> MJoin" by blast
  then show ?thesis
  proof cases
    case main
    then have "in_call (r_main (t_rt s))" using main_idle [OF inv] fr by auto
    then have "work_rank ?t < work_rank s" using same at(1) less main by (simp add: work_rank_def)
    then show ?thesis using lifecycle_lower [OF same] by (simp add: lifecycle_effect_def)
  next
    case sensor
    have "t_sensor s = SPublish" using task_invD(2) [OF inv] fr sensor(1) by (simp add: task_phases_def)
    then have "work_rank ?t < work_rank s"
      using same at(1) less sensor by (simp add: work_rank_def sensor_rank_def monitor_rank_def in_call_def)
    then show ?thesis using lifecycle_lower [OF same] by (simp add: lifecycle_effect_def)
  next
    case other
    have drain: "drain_rank (t_rt ?t) = drain_rank (t_rt s) \<and> r_control (t_rt ?t) = r_control (t_rt s)"
      if "r_main (t_rt s) = MJoinControl"
    proof -
      have "q_closed (r_queue (t_rt s))" using task_invD(3) [OF inv] that by (simp add: rt_phases_def)
      then show ?thesis
        using publish_step_closed [OF task_invD(1) [OF inv] step] fr by (simp add: drain_rank_def)
    qed
    have join: "t_sensor ?t = t_sensor s \<and> t_monitor_stop ?t = t_monitor_stop s \<and>
        (t_monitor_stop s \<longrightarrow> t_monitor ?t = t_monitor s) \<and> r_pubs (t_rt ?t) ! 1 = r_pubs (t_rt s) ! 1" if "r_main (t_rt s) = MJoin"
    proof -
      have "i \<noteq> 1" using other(2) that by blast
      then show ?thesis using at(2) [of 1] by simp
    qed
    have zero: "r_pubs (t_rt ?t) ! 0 = r_pubs (t_rt s) ! 0" using at(2) [of 0] other(1) by simp
    have "publisher i \<noteq> responsible s"
      using other by (auto simp: responsible_def publisher_def)
    then show ?thesis
      using lifecycle_unconcerned [OF same zero join drain] by (simp add: lifecycle_effect_def)
  qed
qed

lemma caller_effect:
  assumes "2 \<le> i" and "k \<in> {Outside, Caller i}"
  shows "lifecycle_effect k s (s\<lparr>t_rt := set_pub (t_rt s) i pc\<rparr>)"
proof -
  let ?t = "s\<lparr>t_rt := set_pub (t_rt s) i pc\<rparr>"
  have "lifecycle_rank ?t = lifecycle_rank s" "responsible ?t = responsible s"
    using assms(1) by (auto intro!: lifecycle_unconcerned simp: drain_rank_def)
  moreover have "k \<noteq> responsible s" using assms(2) by (auto simp: responsible_def)
  ultimately show ?thesis by (simp add: lifecycle_effect_def)
qed

lemma control_effect:
  assumes inv: "task_inv cfg s" and step: "control_step (t_rt s) now (r_control (t_rt s)) = Some (pc, r)"
  shows "lifecycle_effect Control s (s\<lparr>t_rt := r\<lparr>r_control := pc\<rparr>\<rparr>)"
proof -
  let ?t = "s\<lparr>t_rt := r\<lparr>r_control := pc\<rparr>\<rparr>"
  note fr = control_step_frame [OF step]
  have same: "r_main (t_rt ?t) = r_main (t_rt s)" using fr by simp
  show ?thesis
  proof (cases "r_main (t_rt s) = MJoinControl")
    case True
    then have "work_rank ?t < work_rank s"
      using control_step_rank [OF task_invD(1) [OF inv] step] same by (simp add: work_rank_def in_call_def)
    then show ?thesis using lifecycle_lower [OF same] by (simp add: lifecycle_effect_def)
  next
    case False
    then have "Control \<noteq> responsible s" by (simp add: responsible_def)
    then show ?thesis
      using lifecycle_unconcerned [OF same] fr False by (simp add: lifecycle_effect_def)
  qed
qed

lemma sensor_effect:
  assumes inv: "task_inv cfg s" and step: "sensor_loop read e expired s = Some t"
  shows "lifecycle_effect Sensor s t"
proof -
  have two: "1 < length (r_pubs (t_rt s))" using task_invD(4) [OF inv] by simp
  have same: "r_main (t_rt t) = r_main (t_rt s)" "r_pubs (t_rt t) ! 0 = r_pubs (t_rt s) ! 0"
    "drain_rank (t_rt t) = drain_rank (t_rt s)" "r_control (t_rt t) = r_control (t_rt s)"
    "t_monitor t = t_monitor s" "t_monitor_stop t = t_monitor_stop s"
    using step by (cases rule: sensor_loop_cases; simp add: drain_rank_def)+
  show ?thesis
  proof (cases "r_main (t_rt s) = MJoin")
    case True
    have stop: "r_stop_requested (t_rt s)" by (rule stop_requested_phase [OF task_invD(3) [OF inv] True])
    have "sensor_rank t < sensor_rank s"
      using step by (cases rule: sensor_loop_cases) (use stop two in \<open>auto simp: sensor_rank_def\<close>)
    then have "work_rank t < work_rank s" using True same by (simp add: work_rank_def monitor_rank_def in_call_def)
    then show ?thesis using lifecycle_lower [OF same(1)] by (simp add: lifecycle_effect_def)
  next
    case False
    then have "Sensor \<noteq> responsible s" by (simp add: responsible_def)
    then show ?thesis
      using lifecycle_unconcerned [OF same(1,2)] same False by (simp add: lifecycle_effect_def)
  qed
qed

lemma monitor_effect:
  assumes inv: "task_inv cfg s" and step: "monitor_loop expired s = Some t"
  shows "lifecycle_effect Monitor s t"
proof -
  have same: "r_main (t_rt t) = r_main (t_rt s)" "r_pubs (t_rt t) = r_pubs (t_rt s)"
    "drain_rank (t_rt t) = drain_rank (t_rt s)" "r_control (t_rt t) = r_control (t_rt s)"
    "t_sensor t = t_sensor s" "t_monitor_stop t = t_monitor_stop s"
    using step by (cases rule: monitor_loop_cases; simp add: drain_rank_def)+
  show ?thesis
  proof (cases "r_main (t_rt s) = MJoin \<and> t_monitor_stop s")
    case True
    have "monitor_rank t < monitor_rank s"
      using step by (cases rule: monitor_loop_cases) (use True in \<open>auto simp: monitor_rank_def\<close>)
    moreover have "sensor_rank t = sensor_rank s"
      using same by (simp add: sensor_rank_def split: sensor_pc.split)
    ultimately have "work_rank t < work_rank s" using True same by (simp add: work_rank_def in_call_def)
    then show ?thesis using lifecycle_lower [OF same(1)] by (simp add: lifecycle_effect_def)
  next
    case False
    then have "Monitor \<noteq> responsible s" by (auto simp: responsible_def)
    then show ?thesis
      using lifecycle_unconcerned [OF same(1)] same False by (auto simp: lifecycle_effect_def)
  qed
qed

text \<open>Each step of \<open>start\<close> and \<open>stop\<close> itself enters the next phase, or requests the second stop.\<close>

lemma monitor_stop_rank:
  assumes "r_main (t_rt s) = MJoin" and "\<not> t_monitor_stop s"
  shows "lifecycle_rank (s\<lparr>t_monitor_stop := True\<rparr>) < lifecycle_rank s"
proof (rule lifecycle_lower)
  have "monitor_rank (s\<lparr>t_monitor_stop := True\<rparr>) < monitor_rank s"
    using assms(2) by (simp add: monitor_rank_def split: monitor_pc.split)
  moreover have "sensor_rank (s\<lparr>t_monitor_stop := True\<rparr>) = sensor_rank s"
    by (simp add: sensor_rank_def split: sensor_pc.split)
  ultimately show "work_rank (s\<lparr>t_monitor_stop := True\<rparr>) < work_rank s"
    using assms(1) by (simp add: work_rank_def in_call_def)
qed simp

lemma lifecycle_next:
  assumes "\<not> lifecycle_idle s" and "start_task s = Some t \<or> stop_task s = Some t"
  shows "lifecycle_idle t \<or> lifecycle_rank t < lifecycle_rank s"
  using assms monitor_stop_rank [of s]
  by (cases "r_main (t_rt s)")
     (auto simp: start_task_def stop_task_def start_step_def stop_step_def lifecycle_idle_def started_up_def
       lifecycle_rank_def less_prod_def' split: if_splits option.splits)

lemma lifecycle_step:
  assumes inv: "task_inv cfg s" and "\<not> lifecycle_idle s" and "task_step read calls k s t"
  shows "lifecycle_effect k s t"
  using assms(3)
proof cases
  case (publish i now expired pc r)
  then show ?thesis using publish_effect [OF inv] by simp
next
  case (call i e)
  then show ?thesis using caller_effect [of i Outside s "PCheck e"] by simp
next
  case (return i)
  then show ?thesis using caller_effect [of i "Caller i" s PIdle] by simp
next
  case (control now pc r)
  then show ?thesis using control_effect [OF inv] by simp
next
  case (sensor e expired)
  then show ?thesis using sensor_effect [OF inv] by simp
next
  case (monitor expired)
  then show ?thesis using monitor_effect [OF inv] by simp
next
  case start
  then show ?thesis using lifecycle_next [OF assms(2)] by (auto simp: lifecycle_effect_def)
next
  case stop
  then show ?thesis using lifecycle_next [OF assms(2)] by (auto simp: lifecycle_effect_def)
qed

text \<open>The thread that is responsible can always take a step.\<close>

lemma publisher_enabled:
  assumes inv: "task_inv cfg s" and i: "i < length (r_pubs (t_rt s))"
    and pc: "r_pubs (t_rt s) ! i \<noteq> PIdle" "\<not> returned (r_pubs (t_rt s) ! i)"
  shows "can_step (task_step read calls) (publisher i) s"
proof -
  obtain pc' r where "publish_step (t_rt s) 0 True (r_pubs (t_rt s) ! i) = Some (pc', r)"
    using publish_progress [OF task_invD(1) [OF inv] pc] by blast
  from task_step.publish [OF i this] show ?thesis by (auto simp: can_step_def)
qed

lemma start_enabled:
  assumes "\<exists>t. start_task s = Some t" and "r_main (t_rt s) \<noteq> MInit"
  shows "can_step (task_step read calls) Main s"
proof -
  obtain t where "start_task s = Some t" using assms(1) by blast
  from task_step.start [OF this, of read calls] show ?thesis using assms(2) by (auto simp: can_step_def)
qed

lemma stop_enabled:
  assumes "\<exists>t. stop_task s = Some t" and "r_main (t_rt s) \<noteq> MRunning"
  shows "can_step (task_step read calls) Main s"
proof -
  obtain t where "stop_task s = Some t" using assms(1) by blast
  from task_step.stop [OF this, of read calls] show ?thesis using assms(2) by (auto simp: can_step_def)
qed

lemma sensor_enabled:
  assumes inv: "task_inv cfg s" and join: "r_main (t_rt s) = MJoin" and "t_sensor s \<noteq> SExit"
  shows "can_step (task_step read calls) Sensor s"
proof (cases "t_sensor s = SPublish \<and> \<not> returned (r_pubs (t_rt s) ! 1)")
  case True
  have "r_pubs (t_rt s) ! 1 \<noteq> PIdle" using True task_invD(2) [OF inv] by (simp add: task_phases_def)
  then show ?thesis using publisher_enabled [OF inv, of 1 read calls] True task_invD(4) [OF inv] by simp
next
  case False
  have stop: "r_stop_requested (t_rt s)" by (rule stop_requested_phase [OF task_invD(3) [OF inv] join])
  have "t_sensor s \<noteq> SNone" "t_sensor s = SRead \<Longrightarrow> t_source s \<noteq> None"
    using task_invD(2) [OF inv] join by (auto simp: task_phases_def starting_def)
  then have "\<exists>t. sensor_loop read undefined True s = Some t"
    using False assms(3) stop
    by (cases "t_sensor s") (auto simp: sensor_loop_def wait_for_period_def split: prod.splits)
  then show ?thesis by (auto simp: can_step_def intro: task_step.sensor)
qed

lemma monitor_enabled:
  assumes inv: "task_inv cfg s" and join: "r_main (t_rt s) = MJoin" and "t_monitor s \<noteq> TExit"
  shows "can_step (task_step read calls) Monitor s"
proof -
  have "t_monitor s \<noteq> TNone" using task_invD(2) [OF inv] join by (auto simp: task_phases_def starting_def)
  then have "\<exists>t. monitor_loop True s = Some t"
    using assms(3) by (cases "t_monitor s") (auto simp: monitor_loop_def wait_for_period_def)
  then show ?thesis by (auto simp: can_step_def intro: task_step.monitor)
qed

lemma started_up_later:
  assumes "task_inv cfg s" and "r_main (t_rt s) \<in> {MShutdown, MWait, MJoin, MJoinControl}"
  shows "started_up s"
proof -
  have "\<not> starting (r_main (t_rt s))" "r_main (t_rt s) \<noteq> MRunning" using assms(2) by (auto simp: starting_def)
  then show ?thesis using task_invD(2) [OF assms(1)] unfolding task_phases_def started_up_def by blast
qed

lemma in_call_enabled:
  assumes inv: "task_inv cfg s" and call: "in_call (r_main (t_rt s))"
  shows "can_step (task_step read calls) Main s"
proof (cases "returned (r_pubs (t_rt s) ! 0)")
  case True
  note up = started_up_later [OF inv]
  show ?thesis
  proof (cases "r_main (t_rt s) = MShutdown")
    case shut: True
    then have "\<exists>t. stop_task s = Some t" using True up by (simp add: stop_task_def stop_step_def)
    then show ?thesis by (rule stop_enabled) (use shut in simp)
  next
    case False
    then have "\<exists>t. start_task s = Some t" "r_main (t_rt s) \<noteq> MInit"
      using True call by (auto simp: start_task_def start_step_def in_call_def)
    then show ?thesis by (rule start_enabled)
  qed
next
  case False
  have "r_pubs (t_rt s) ! 0 \<noteq> PIdle" using call task_invD(2) [OF inv] by (simp add: task_phases_def)
  moreover have "0 < length (r_pubs (t_rt s))" using task_invD(4) [OF inv] by linarith
  ultimately show ?thesis using publisher_enabled [OF inv, of 0 read calls] False by simp
qed

lemma join_enabled:
  assumes inv: "task_inv cfg s" and join: "r_main (t_rt s) = MJoin"
  shows "can_step (task_step read calls) (responsible s) s"
proof -
  have up: "started_up s" using started_up_later [OF inv] join by simp
  have ended: "join_tasks s \<longleftrightarrow> t_sensor s = SExit \<and> t_monitor s = TExit"
    using task_invD(2) [OF inv] up join
    by (auto simp: join_tasks_def join_if_needed_def task_phases_def started_up_def starting_def)
  consider (main) "join_tasks s \<or> \<not> t_monitor_stop s" | (sensor) "t_monitor_stop s" "t_sensor s \<noteq> SExit"
    | (monitor) "t_monitor_stop s" "t_sensor s = SExit" "t_monitor s \<noteq> TExit"
    by (auto simp: ended)
  then show ?thesis
  proof cases
    case main
    then have "join_tasks s \<Longrightarrow> r_pubs (t_rt s) ! 1 = PIdle"
      using task_invD(2) [OF inv] by (auto simp: task_phases_def ended)
    then have "responsible s = Main" "\<exists>t. stop_task s = Some t"
      using main join up by (auto simp: responsible_def stop_task_def stop_step_def ended)
    then show ?thesis using stop_enabled [of s read calls] join by simp
  next
    case sensor
    then have "responsible s = Sensor" using join by (simp add: responsible_def)
    then show ?thesis using sensor_enabled [OF inv join sensor(2)] by simp
  next
    case monitor
    then have "responsible s = Monitor" using join by (simp add: responsible_def)
    then show ?thesis using monitor_enabled [OF inv join monitor(3)] by simp
  qed
qed

lemma drain_enabled:
  assumes inv: "task_inv cfg s" and join: "r_main (t_rt s) = MJoinControl"
  shows "can_step (task_step read calls) (responsible s) s"
proof (cases "r_control (t_rt s) = CExit")
  case True
  then have "responsible s = Main" "\<exists>t. stop_task s = Some t"
    using join started_up_later [OF inv] by (simp_all add: responsible_def stop_task_def stop_step_def)
  then show ?thesis using stop_enabled [of s read calls] join by simp
next
  case False
  have closed: "q_closed (r_queue (t_rt s))" "r_control (t_rt s) \<noteq> CNone"
    using task_invD(3) [OF inv] join by (simp_all add: rt_phases_def)
  then obtain pc r where "control_step (t_rt s) 0 (r_control (t_rt s)) = Some (pc, r)"
    using control_enabled [OF task_invD(1) [OF inv] closed(2)] False by blast
  from task_step.control [OF this, of read calls] have "can_step (task_step read calls) Control s"
    by (auto simp: can_step_def)
  then show ?thesis using False join by (simp add: responsible_def)
qed

lemma responsible_enabled:
  assumes inv: "task_inv cfg s" and "\<not> lifecycle_idle s"
  shows "can_step (task_step read calls) (responsible s) s"
proof -
  note up = started_up_later [OF inv]
  consider (call) "in_call (r_main (t_rt s))" | (monitor) "r_main (t_rt s) = MRunning" "t_monitor s = TNone"
    | (wait) "r_main (t_rt s) = MWait" | (join) "r_main (t_rt s) = MJoin"
    | (control) "r_main (t_rt s) = MJoinControl"
    using assms(2) unfolding in_call_def lifecycle_idle_def started_up_def by (cases "r_main (t_rt s)") simp_all
  then show ?thesis
  proof cases
    case call
    then have "responsible s = Main" by (auto simp: responsible_def in_call_def)
    then show ?thesis using in_call_enabled [OF inv call] by simp
  next
    case monitor
    then have "responsible s = Main" "\<exists>t. start_task s = Some t"
      by (simp_all add: responsible_def start_task_def)
    then show ?thesis using start_enabled [of s read calls] monitor by simp
  next
    case wait
    then have "responsible s = Main" "\<exists>t. stop_task s = Some t"
      using up by (simp_all add: responsible_def stop_task_def stop_step_def)
    then show ?thesis using stop_enabled [of s read calls] wait by simp
  next
    case join
    then show ?thesis by (rule join_enabled [OF inv])
  next
    case control
    then show ?thesis by (rule drain_enabled [OF inv])
  qed
qed

interpretation lifecycle: ranked_progress "task_step read calls" "task_inv cfg" lifecycle_idle
  lifecycle_rank responsible
  for read :: "'e \<Rightarrow> 's \<Rightarrow> SensorSample \<times> 's" and calls cfg
proof unfold_locales
  fix s t :: "'s tasks" and k
  assume inv: "task_inv cfg s" and busy: "\<not> lifecycle_idle s"
  show "can_step (task_step read calls) (responsible s) s" by (rule responsible_enabled [OF inv busy])
  show "lifecycle_idle t \<or> lifecycle_rank t < lifecycle_rank s" if "task_step read calls (responsible s) s t"
    using lifecycle_step [OF inv busy that] by (simp add: lifecycle_effect_def)
  show "lifecycle_idle t \<or> task_inv cfg t" if "task_step read calls k s t"
    using task_inv_step [OF inv that] by simp
  show "lifecycle_idle t \<or> lifecycle_rank t < lifecycle_rank s \<or>
      lifecycle_rank t = lifecycle_rank s \<and> responsible t = responsible s" if "task_step read calls k s t"
    using lifecycle_step [OF inv busy that] by (auto simp: lifecycle_effect_def)
qed

section \<open>Calls of publish\<close>

lemma publisher_inject: "publisher i = publisher j \<longleftrightarrow> i = j"
  by (simp add: publisher_def)

lemma lifecycle_pubs:
  assumes "start_task s = Some t \<or> stop_task s = Some t"
  shows "length (r_pubs (t_rt t)) = length (r_pubs (t_rt s)) \<and>
    (i \<noteq> 0 \<longrightarrow> r_pubs (t_rt t) ! i = r_pubs (t_rt s) ! i)"
  using assms
  by (cases "r_main (t_rt s)")
     (auto simp: start_task_def stop_task_def start_step_def stop_step_def split: if_splits option.splits)

lemma in_call_waits:
  assumes "in_call (r_main (t_rt s))" and "\<not> returned (r_pubs (t_rt s) ! 0)"
  shows "start_task s = None" and "stop_task s = None"
  using assms by (auto simp: in_call_def start_task_def stop_task_def start_step_def stop_step_def)

lemma lifecycle_not_publishing:
  assumes inv: "task_inv cfg s" and "r_pubs (t_rt s) ! i \<noteq> PIdle" and "\<not> returned (r_pubs (t_rt s) ! i)"
    and "start_task s = Some t \<or> stop_task s = Some t"
  shows "i \<noteq> 0"
proof
  assume "i = 0"
  then have "in_call (r_main (t_rt s))" using main_idle [OF inv] assms(2) by blast
  from in_call_waits [OF this] show False using assms(3,4) \<open>i = 0\<close> by simp
qed

text \<open>While a call of \<open>publish\<close> is under way, its place changes by the steps of its thread only.\<close>

lemma caller_step:
  assumes inv: "task_inv cfg s" and i: "i < length (r_pubs (t_rt s))"
    and pc: "r_pubs (t_rt s) ! i \<noteq> PIdle" "\<not> returned (r_pubs (t_rt s) ! i)"
    and "task_step read calls k s t"
  shows "length (r_pubs (t_rt t)) = length (r_pubs (t_rt s)) \<and>
    (r_pubs (t_rt t) ! i = r_pubs (t_rt s) ! i \<and> k \<noteq> publisher i \<or>
     r_pubs (t_rt t) ! i \<noteq> PIdle \<and> publish_rank (r_pubs (t_rt t) ! i) < publish_rank (r_pubs (t_rt s) ! i))"
  using assms(5)
proof cases
  case (publish j now expired pc' r)
  then show ?thesis
    using publish_step_frame [OF publish(4)] publish_step_rank [OF publish(4)] publish_step_not_idle [OF publish(4)]
    by (cases "i = j") (simp_all add: publisher_inject)
next
  case (call j e)
  then have "i \<noteq> j" using pc by auto
  then show ?thesis using call by simp
next
  case (return j)
  then have "i \<noteq> j" using pc by auto
  then show ?thesis using return by (auto simp: publisher_def)
next
  case (control now pc' r)
  then show ?thesis using control_step_frame [OF control(3)] by simp
next
  case (sensor e expired)
  have "i \<noteq> 1"
  proof
    assume "i = 1"
    then have pub: "t_sensor s = SPublish" using task_invD(2) [OF inv] pc by (simp add: task_phases_def)
    from sensor(2) show False
      by (cases rule: sensor_loop_cases) (use pub pc \<open>i = 1\<close> in auto)
  qed
  then have "Sensor \<noteq> publisher i" by simp
  moreover have "length (r_pubs (t_rt t)) = length (r_pubs (t_rt s)) \<and> r_pubs (t_rt t) ! i = r_pubs (t_rt s) ! i"
    using sensor(2) \<open>i \<noteq> 1\<close> by (cases rule: sensor_loop_cases) simp_all
  ultimately show ?thesis using sensor(1) by simp
next
  case (monitor expired)
  from monitor(2) have "r_pubs (t_rt t) = r_pubs (t_rt s)" by (cases rule: monitor_loop_cases) simp_all
  then show ?thesis using monitor(1) by simp
next
  case start
  have "i \<noteq> 0" by (rule lifecycle_not_publishing [OF inv pc, of t]) (use start(2) in simp)
  then show ?thesis
    using lifecycle_pubs [of s t i] start by (auto split: if_splits)
next
  case stop
  have "i \<noteq> 0" by (rule lifecycle_not_publishing [OF inv pc, of t]) (use stop(2) in simp)
  then show ?thesis
    using lifecycle_pubs [of s t i] stop by (auto split: if_splits)
qed

interpretation caller: ranked_progress "task_step read calls"
  "\<lambda>s. task_inv cfg s \<and> i < length (r_pubs (t_rt s)) \<and> r_pubs (t_rt s) ! i \<noteq> PIdle"
  "\<lambda>s. returned (r_pubs (t_rt s) ! i)" "\<lambda>s. publish_rank (r_pubs (t_rt s) ! i)" "\<lambda>s. publisher i"
  for read :: "'e \<Rightarrow> 's \<Rightarrow> SensorSample \<times> 's" and calls cfg i
proof unfold_locales
  fix s t :: "'s tasks" and k
  assume "task_inv cfg s \<and> i < length (r_pubs (t_rt s)) \<and> r_pubs (t_rt s) ! i \<noteq> PIdle"
    and busy: "\<not> returned (r_pubs (t_rt s) ! i)"
  then have inv: "task_inv cfg s" and i: "i < length (r_pubs (t_rt s))" and pc: "r_pubs (t_rt s) ! i \<noteq> PIdle"
    by simp_all
  note effect = caller_step [OF inv i pc busy]
  show "can_step (task_step read calls) (publisher i) s" by (rule publisher_enabled [OF inv i pc busy])
  show "returned (r_pubs (t_rt t) ! i) \<or> publish_rank (r_pubs (t_rt t) ! i) < publish_rank (r_pubs (t_rt s) ! i)"
    if "task_step read calls (publisher i) s t"
    using effect [OF that] by blast
  show "returned (r_pubs (t_rt t) ! i) \<or>
      task_inv cfg t \<and> i < length (r_pubs (t_rt t)) \<and> r_pubs (t_rt t) ! i \<noteq> PIdle"
    if "task_step read calls k s t"
    using effect [OF that] task_inv_step [OF inv that] i pc by auto
  show "returned (r_pubs (t_rt t) ! i) \<or> publish_rank (r_pubs (t_rt t) ! i) < publish_rank (r_pubs (t_rt s) ! i) \<or>
      publish_rank (r_pubs (t_rt t) ! i) = publish_rank (r_pubs (t_rt s) ! i) \<and> publisher i = publisher i"
    if "task_step read calls k s t"
    using effect [OF that] by auto
qed

section \<open>Fair runs\<close>

text \<open>The scheduler is fair to all threads; the outside may call whenever it likes, or never.\<close>

definition fair_tasks ::
    "('e \<Rightarrow> 's \<Rightarrow> SensorSample \<times> 's) \<Rightarrow> Event set \<Rightarrow> (nat \<Rightarrow> thread option) \<Rightarrow> (nat \<Rightarrow> 's tasks) \<Rightarrow> bool" where
  "fair_tasks read calls mover run \<longleftrightarrow>
     is_run (task_step read calls) mover run \<and>
     (\<forall>k. k \<noteq> Outside \<longrightarrow> fair_to (task_step read calls) k mover run)"

lemma responsible_not_outside: "responsible s \<noteq> Outside" "responsible s \<noteq> Caller i"
  by (simp_all add: responsible_def)

lemma fair_tasksD:
  assumes "fair_tasks read calls mover run"
  shows "is_run (task_step read calls) mover run"
    and "k \<noteq> Outside \<Longrightarrow> fair_to (task_step read calls) k mover run"
  using assms by (simp_all add: fair_tasks_def)

lemma is_run_reachable:
  assumes "is_run (task_step read calls) mover run"
    and "tasks_reachable read calls cfg base stride publishers source (run 0)"
  shows "tasks_reachable read calls cfg base stride publishers source (run n)"
proof -
  have "tasks_reachable read calls cfg base stride publishers source (run (0 + n))"
  proof (rule run_invariant [of "task_step read calls" mover])
    show "tasks_reachable read calls cfg base stride publishers source t"
      if "tasks_reachable read calls cfg base stride publishers source s" "task_step read calls k s t" for k s t
      by (rule tasks_next [OF that])
  qed (use assms in simp_all)
  then show ?thesis by simp
qed

lemmas run_reachable = is_run_reachable [OF fair_tasksD(1)]

lemma lifecycle_flags:
  assumes "task_step read calls k s t"
  shows "(r_started (t_rt s) \<longrightarrow> r_started (t_rt t)) \<and> (r_stopped (t_rt s) \<longrightarrow> r_stopped (t_rt t))"
  using assms
proof cases
  case (publish i now expired pc r)
  then show ?thesis using publish_step_frame [OF publish(4)] by simp
next
  case (control now pc r)
  then show ?thesis using control_step_frame [OF control(3)] by simp
next
  case (sensor e expired)
  from sensor(2) show ?thesis by (cases rule: sensor_loop_cases) simp_all
next
  case (monitor expired)
  from monitor(2) show ?thesis by (cases rule: monitor_loop_cases) simp_all
next
  case start
  then show ?thesis
    by (cases "r_main (t_rt s)") (auto simp: start_task_def start_step_def split: if_splits option.splits)
next
  case stop
  then show ?thesis
    by (cases "r_main (t_rt s)") (auto simp: stop_task_def stop_step_def split: if_splits option.splits)
qed simp_all

lemma run_flags:
  assumes "fair_tasks read calls mover run" and "i \<le> j"
  shows "(r_started (t_rt (run i)) \<longrightarrow> r_started (t_rt (run j))) \<and>
    (r_stopped (t_rt (run i)) \<longrightarrow> r_stopped (t_rt (run j)))"
proof -
  let ?P = "\<lambda>s. (r_started (t_rt (run i)) \<longrightarrow> r_started (t_rt s)) \<and> (r_stopped (t_rt (run i)) \<longrightarrow> r_stopped (t_rt s))"
  have "?P (run (i + (j - i)))"
  proof (rule run_invariant [of "task_step read calls" mover run ?P])
    show "?P t" if "?P s" "task_step read calls k s t" for k s t
      using lifecycle_flags [OF that(2)] that(1) by blast
  qed (use assms(1) in \<open>simp_all add: fair_tasks_def\<close>)
  then show ?thesis using assms(2) by simp
qed

lemma idle_flags:
  assumes inv: "task_inv cfg s" and "lifecycle_idle s"
  shows "r_started (t_rt s) \<Longrightarrow> started_up s" and "r_stopped (t_rt s) \<Longrightarrow> r_main (t_rt s) = MDone"
proof -
  have flags: "r_stopped (t_rt s) \<longleftrightarrow> r_main (t_rt s) \<in> {MShutdown, MWait, MJoin, MJoinControl, MDone}"
    "r_started (t_rt s) \<longleftrightarrow> r_main (t_rt s) \<noteq> MInit"
    using task_invD(3) [OF inv] unfolding rt_phases_def by blast+
  show "r_main (t_rt s) = MDone" if "r_stopped (t_rt s)"
    using assms(2) that flags(1) by (auto simp: lifecycle_idle_def)
  have "closing (r_main (t_rt s)) \<longrightarrow> t_monitor s = TExit" using task_invD(2) [OF inv] by (simp add: task_phases_def)
  then show "started_up s" if "r_started (t_rt s)"
    using assms(2) that flags(2) by (auto simp: lifecycle_idle_def closing_def started_up_def)
qed

lemma reaches_idle:
  assumes "fair_tasks read calls mover run" and "task_inv cfg (run i)"
  shows "\<exists>j \<ge> i. lifecycle_idle (run j)"
proof (rule lifecycle.fair_run_reaches_goal [of read calls mover run cfg])
  show "fair_to (task_step read calls) k mover run" if "k \<in> range responsible" for k
    using assms(1) that responsible_not_outside(1) by (auto simp: fair_tasks_def)
qed (use assms in \<open>simp_all add: fair_tasks_def\<close>)

text \<open>When \<open>stop\<close> has returned and no call is under way, nobody but the outside can move.\<close>

lemma finished_stuck:
  assumes inv: "task_inv cfg s" and main: "r_main (t_rt s) = MDone" and "all_idle (t_rt s)" and "k \<noteq> Outside"
  shows "\<not> can_step (task_step read calls) k s"
proof
  assume "can_step (task_step read calls) k s"
  then obtain t where "task_step read calls k s t" by (auto simp: can_step_def)
  then show False
  proof cases
    case (publish i now expired pc r)
    then show ?thesis using assms(3) publish_step_frame [OF publish(4)] nth_mem by (fastforce simp: all_idle_def)
  next
    case (return i)
    then show ?thesis using assms(3) nth_mem by (fastforce simp: all_idle_def)
  next
    case (control now pc r)
    then show ?thesis
      using done_handled(2) [OF task_invD(1) [OF inv] main] control_step_frame [OF control(3)] by simp
  next
    case (sensor e expired)
    have "t_sensor s = SExit" using task_invD(2) [OF inv] main by (simp add: task_phases_def closing_def)
    then show ?thesis using sensor by (simp add: sensor_loop_def)
  next
    case (monitor expired)
    have "t_monitor s = TExit" using task_invD(2) [OF inv] main by (simp add: task_phases_def closing_def)
    then show ?thesis using monitor by (simp add: monitor_loop_def)
  qed (use assms(4) main in \<open>auto simp: start_task_def stop_task_def start_step_def stop_step_def
      split: if_splits option.splits\<close>)
qed

text \<open>Examples of fair runs: the threads do their work and then stand still.\<close>

lemma outsiders_keep:
  assumes "task_step read calls k s t" and "k \<noteq> Outside" and "\<And>i. k \<noteq> Caller i" and "2 \<le> j"
  shows "length (r_pubs (t_rt t)) = length (r_pubs (t_rt s)) \<and> r_pubs (t_rt t) ! j = r_pubs (t_rt s) ! j"
  using assms(1)
proof cases
  case (publish i now expired pc r)
  then have "i \<noteq> j" using assms(3) [of i] assms(4) by (auto simp: publisher_def)
  then show ?thesis using publish publish_step_frame [OF publish(4)] by simp
next
  case (control now pc r)
  then show ?thesis using control_step_frame [OF control(3)] by simp
next
  case (sensor e expired)
  from sensor(2) show ?thesis by (cases rule: sensor_loop_cases) (use assms(4) in simp_all)
next
  case (monitor expired)
  from monitor(2) show ?thesis by (cases rule: monitor_loop_cases) simp_all
next
  case start
  then show ?thesis using lifecycle_pubs [of s t j] assms(4) by simp
next
  case stop
  then show ?thesis using lifecycle_pubs [of s t j] assms(4) by simp
qed (use assms(2,3) in auto)

definition outsiders_idle :: "'s tasks \<Rightarrow> bool" where
  "outsiders_idle s \<longleftrightarrow> (\<forall>j. 2 \<le> j \<and> j < length (r_pubs (t_rt s)) \<longrightarrow> r_pubs (t_rt s) ! j = PIdle)"

lemma stopping_run:
  assumes inv: "task_inv cfg s" and stopped: "r_stopped (t_rt s)" and "outsiders_idle s"
  shows "\<exists>mover run. fair_tasks read calls mover run \<and> run 0 = s"
proof -
  let ?own = "\<lambda>s t. task_inv cfg s \<and> \<not> lifecycle_idle s \<and> task_step read calls (responsible s) s t"
  obtain t where path: "?own\<^sup>*\<^sup>* s t" and idle: "lifecycle_idle t"
    using lifecycle.helpful_path [OF inv, of read calls] by blast
  from path have t: "task_inv cfg t \<and> r_stopped (t_rt t) \<and> outsiders_idle t \<and>
      (\<lambda>s t. \<exists>k. task_step read calls k s t)\<^sup>*\<^sup>* s t"
  proof induction
    case base
    then show ?case using assms by simp
  next
    case (step t u)
    then have st: "task_step read calls (responsible t) t u" by simp
    have "outsiders_idle u"
      using outsiders_keep [OF st responsible_not_outside] step(3) by (auto simp: outsiders_idle_def)
    moreover have "(\<lambda>s t. \<exists>k. task_step read calls k s t)\<^sup>*\<^sup>* s u"
      using step(3) st by (blast intro: rtranclp.rtrancl_into_rtrancl)
    ultimately show ?case using step(3) task_inv_step [OF _ st] lifecycle_flags [OF st] by simp
  qed
  then have main: "r_main (t_rt t) = MDone" using idle_flags(2) idle by blast
  have "r_pubs (t_rt t) ! j = PIdle" if "j < length (r_pubs (t_rt t))" for j
  proof (cases "2 \<le> j")
    case False
    have "r_pubs (t_rt t) ! 0 = PIdle" by (rule main_idle [of cfg]) (use t main in \<open>simp_all add: in_call_def\<close>)
    moreover have "r_pubs (t_rt t) ! 1 = PIdle"
      using task_invD(2) [of cfg t] t main unfolding task_phases_def closing_def by auto
    moreover have "j = 0 \<or> j = 1" using False by auto
    ultimately show ?thesis by blast
  qed (use t that in \<open>simp add: outsiders_idle_def\<close>)
  then have "all_idle (t_rt t)" by (auto simp: all_idle_def in_set_conv_nth)
  then have stuck: "\<not> can_step (task_step read calls) k t" if "k \<in> - {Outside}" for k
    using finished_stuck [of cfg t k read calls] t main that by simp
  have "(\<lambda>s t. \<exists>k. task_step read calls k s t)\<^sup>*\<^sup>* s t" using t by blast
  from finite_run_fair [OF this stuck] obtain mover run where "is_run (task_step read calls) mover run"
    "\<forall>k \<in> - {Outside}. fair_to (task_step read calls) k mover run" "run 0 = s" by blast
  then show ?thesis by (intro exI [of _ mover] exI [of _ run]) (simp add: fair_tasks_def)
qed

text \<open>The example: \<open>stop\<close> has just been called and is about to publish its request.\<close>

lemma stopping_state:
  obtains u where "example_reachable u" "r_stopped (t_rt u)" "r_main (t_rt u) = MShutdown"
    "r_control (t_rt u) = CPop" "queue_items (r_queue (t_rt u)) = []"
    "r_pubs (t_rt u) = (replicate 3 PIdle)[0 := PCheck Event_shutdown_requested]"
proof -
  let ?cfg = ProtectionConfig_default and ?calls = "{Event_reset_requested}"
  obtain s where s: "(tasks_move simulated_source ?calls)\<^sup>*\<^sup>* (tasks_init ?cfg 4096 64 3 (Some hot_source)) s"
    "ready ?cfg 3 s"
    using start_ready [of 3 4096 64 simulated_source ?calls ?cfg "Some hot_source"] by auto
  have r: "example_reachable s" by (rule tasks_run_reachable [OF tasks_reachable.tasks_init s(1)])
  have inv: "task_inv ?cfg s" by (rule task_inv_reachable [OF r]) simp_all
  define u where "u = s\<lparr>t_rt := set_pub ((t_rt s)\<lparr>r_stopped := True, r_main := MShutdown\<rparr>) 0
    (PCheck Event_shutdown_requested)\<rparr>"
  have main: "waiting ?cfg MRunning 3 (t_rt s)" "started_up s"
    using s(2) by (simp_all add: ready_def started_up_def)
  then have "r_started (t_rt s)" "\<not> r_stopped (t_rt s)"
    using task_invD(3) [OF inv] by (simp_all add: rt_phases_def waiting_def)
  then have "stop_task s = Some u" using main by (simp add: stop_task_def stop_step_def u_def waiting_def)
  then have "example_reachable u" by (rule tasks_next [OF r task_step.stop])
  then show thesis by (rule that) (use main(1) in \<open>simp_all add: u_def waiting_def\<close>)
qed

lemma stopping_example:
  "\<exists>mover run. fair_tasks simulated_source {Event_reset_requested} mover run \<and>
     example_reachable (run 0) \<and> r_stopped (t_rt (run 0)) \<and> \<not> lifecycle_idle (run 0) \<and>
     r_pubs (t_rt (run 0)) ! 0 = PCheck Event_shutdown_requested"
proof -
  let ?cfg = ProtectionConfig_default and ?calls = "{Event_reset_requested}"
  obtain u where u: "example_reachable u" "r_stopped (t_rt u)" "r_main (t_rt u) = MShutdown"
    "r_pubs (t_rt u) = (replicate 3 PIdle)[0 := PCheck Event_shutdown_requested]"
    by (rule stopping_state)
  have inv: "task_inv ?cfg u" by (rule task_inv_reachable [OF u(1)]) simp_all
  have "outsiders_idle u" using u(4) by (simp add: outsiders_idle_def)
  then obtain mover run where run: "fair_tasks simulated_source ?calls mover run" "run 0 = u"
    using stopping_run [OF inv u(2), of simulated_source ?calls] by blast
  then show ?thesis
    using u by (intro exI [of _ mover] exI [of _ run]) (simp add: lifecycle_idle_def)
qed

section \<open>Properties\<close>

text \<open>
  C6. Calls of \<open>start\<close> and \<open>stop\<close> return, under any fair scheduling of the threads and whatever other
  threads publish meanwhile: once \<open>start\<close> has been called, all three tasks get created; once \<open>stop\<close> has
  been called, a moment comes when it has returned, all tasks have ended, the runtime is no longer
  running and every event the queue has accepted has been handled.
\<close>

theorem lifecycle_calls_return:
  assumes "fair_tasks read calls mover run"
    and "tasks_reachable read calls cfg base stride publishers source (run 0)"
    and "0 < base" and "0 < stride" and "2 \<le> publishers"
  shows "(r_started (t_rt (run i)) \<longrightarrow> (\<exists>j \<ge> i. started_up (run j))) \<and>
    (r_stopped (t_rt (run i)) \<longrightarrow>
      (\<exists>j \<ge> i. r_main (t_rt (run j)) = MDone \<and> \<not> running (t_rt (run j)) \<and> t_sensor (run j) = SExit \<and>
        t_monitor (run j) = TExit \<and> r_control (t_rt (run j)) = CExit \<and>
        h_handled (t_rt (run j)) = h_accepted (t_rt (run j))))"
proof -
  have inv: "task_inv cfg (run n)" for n
    by (rule task_inv_reachable [OF run_reachable [OF assms(1,2)] assms(3-5)])
  obtain j where j: "j \<ge> i" "lifecycle_idle (run j)" using reaches_idle [OF assms(1) inv] by blast
  note flags = run_flags [OF assms(1) j(1)]
  show ?thesis
  proof (intro conjI impI)
    assume "r_started (t_rt (run i))"
    then show "\<exists>j \<ge> i. started_up (run j)" using idle_flags(1) [OF inv j(2)] flags j(1) by blast
  next
    assume "r_stopped (t_rt (run i))"
    then have main: "r_main (t_rt (run j)) = MDone" using idle_flags(2) [OF inv j(2)] flags by blast
    have "\<not> running (t_rt (run j))" "t_sensor (run j) = SExit" "t_monitor (run j) = TExit" "r_control (t_rt (run j)) = CExit"
      using task_invD(2,3) [OF inv, of j] main
      by (simp_all add: rt_phases_def task_phases_def closing_def running_def)
    then show "\<exists>j \<ge> i. r_main (t_rt (run j)) = MDone \<and> \<not> running (t_rt (run j)) \<and> t_sensor (run j) = SExit \<and>
        t_monitor (run j) = TExit \<and> r_control (t_rt (run j)) = CExit \<and>
        h_handled (t_rt (run j)) = h_accepted (t_rt (run j))"
      using main done_handled(3) [OF task_invD(1) [OF inv] main] j(1) by blast
  qed
qed

theorem lifecycle_calls_return_witness:
  "\<exists>mover run. fair_tasks simulated_source {Event_reset_requested} mover run \<and>
     example_reachable (run 0) \<and> r_stopped (t_rt (run 0)) \<and> \<not> lifecycle_idle (run 0) \<and>
     (\<exists>j. r_main (t_rt (run j)) = MDone)"
proof -
  obtain mover run where run: "fair_tasks simulated_source {Event_reset_requested} mover run"
    "example_reachable (run 0)" "r_stopped (t_rt (run 0))" "\<not> lifecycle_idle (run 0)"
    using stopping_example by blast
  then show ?thesis
    using lifecycle_calls_return [OF run(1,2), of 0] by (intro exI [of _ mover] exI [of _ run]) auto
qed

text \<open>
  C7. Every call of \<open>publish\<close> returns, under any fair scheduling and whatever the other threads do, whether
  the runtime is running, stopping or stopped, and whether or not the queue has room.
\<close>

theorem publish_call_returns:
  assumes "fair_tasks read calls mover run"
    and "tasks_reachable read calls cfg base stride publishers source (run 0)"
    and "0 < base" and "0 < stride" and "2 \<le> publishers"
    and "i < publishers" and "r_pubs (t_rt (run n)) ! i \<noteq> PIdle"
  shows "\<exists>j \<ge> n. returned (r_pubs (t_rt (run j)) ! i)"
proof -
  note r = run_reachable [OF assms(1,2), of n]
  have "length (r_pubs (t_rt (run n))) = publishers"
    by (rule reachable_length [OF tasks_reachable_rt [OF r assms(3-5)]])
  then have "task_inv cfg (run n) \<and> i < length (r_pubs (t_rt (run n))) \<and> r_pubs (t_rt (run n)) ! i \<noteq> PIdle"
    using task_inv_reachable [OF r assms(3-5)] assms(6,7) by simp
  then show ?thesis
    using caller.fair_run_reaches_goal [of read calls mover run cfg n i] assms(1)
    by (simp add: fair_tasks_def)
qed

theorem publish_call_returns_witness:
  "\<exists>mover run. fair_tasks simulated_source {Event_reset_requested} mover run \<and> example_reachable (run 0) \<and>
     r_pubs (t_rt (run 0)) ! 0 = PCheck Event_shutdown_requested \<and>
     (\<exists>j. returned (r_pubs (t_rt (run j)) ! 0))"
proof -
  obtain mover run where run: "fair_tasks simulated_source {Event_reset_requested} mover run"
    "example_reachable (run 0)" "r_pubs (t_rt (run 0)) ! 0 = PCheck Event_shutdown_requested"
    using stopping_example by blast
  then show ?thesis
    using publish_call_returns [OF run(1,2), of 0 0] by (intro exI [of _ mover] exI [of _ run]) auto
qed

end
