(* ===== verification/Event_Delivery.thy ===== *)
theory Event_Delivery
  imports Runtime_Liveness
begin

text \<open>
  Every event the queue has accepted reaches the state machine, also while the runtime goes on for ever. The
  scheduler has to be fair to the control task alone; no other thread can hold up its work.
\<close>

section \<open>Before the start\<close>

text \<open>Nothing is accepted before \<open>start\<close>: a call of \<open>publish\<close> is turned away at its first test.\<close>

fun at_door :: "pub_pc \<Rightarrow> bool" where
  "at_door PIdle = True"
| "at_door (PCheck e) = True"
| "at_door (PReturn r) = True"
| "at_door _ = False"

definition untouched :: "runtime \<Rightarrow> bool" where
  "untouched s \<longleftrightarrow> (r_main s = MInit \<longrightarrow> (\<forall>pc \<in> set (r_pubs s). at_door pc) \<and> h_accepted s = [])"

lemma publish_step_door:
  assumes "publish_step s now expired pc = Some (pc', s')" and "at_door pc" and "\<not> r_accepting s"
  shows "at_door pc' \<and> h_accepted s' = h_accepted s"
  using assms by (cases pc) auto

lemma untouched_set_pub:
  assumes "untouched s" and "r_main t = r_main s" and "h_accepted t = h_accepted s" and "r_pubs t = r_pubs s"
    and "r_main s = MInit \<Longrightarrow> at_door pc"
  shows "untouched (set_pub t i pc)"
  using assms set_update_subset_insert [of "r_pubs s" i pc] by (auto simp: untouched_def)

lemma untouched_step:
  assumes inv: "rt_inv cfg s" and u: "untouched s" and "rt_step s t"
  shows "untouched t"
  using assms(3)
proof cases
  case (publish i now expired pc s')
  note fr = publish_step_frame [OF publish(3)]
  show ?thesis
  proof (cases "r_main s = MInit")
    case True
    then have "\<not> r_accepting s" using rt_invD(10) [OF inv] by (simp add: rt_phases_def)
    then have "at_door pc \<and> h_accepted s' = h_accepted s"
      using publish_step_door [OF publish(3)] u True publish(2) by (auto simp: untouched_def)
    then show ?thesis using untouched_set_pub [OF u] fr publish(1) by simp
  next
    case False
    then show ?thesis using fr publish(1) by (simp add: untouched_def)
  qed
next
  case (control now pc s')
  then show ?thesis using control_step_frame [OF control(2)] u by (auto simp: untouched_def)
next
  case (sensor reading)
  then show ?thesis by (auto simp: sensor_step_def untouched_def split: if_splits)
next
  case monitor
  then show ?thesis by (auto simp: monitor_step_def untouched_def split: if_splits)
next
  case start
  then show ?thesis by (cases "r_main s") (auto simp: start_step_def untouched_def split: if_splits)
next
  case stop
  then show ?thesis by (cases "r_main s") (auto simp: stop_step_def untouched_def split: if_splits)
qed (use untouched_set_pub [OF u] in simp_all)

lemma untouched_reachable:
  assumes "rt_reachable cfg base stride publishers s" and "0 < base" and "0 < stride" and "2 \<le> publishers"
  shows "untouched s"
  using assms(1)
proof induction
  case rt_init
  show ?case by (simp add: untouched_def runtime_init_def)
next
  case (rt_next s t)
  then show ?case using untouched_step rt_inv_reachable [OF rt_next(1) assms(2-4)] by blast
qed

lemma accepted_before_start:
  assumes "tasks_reachable read calls cfg base stride publishers source s"
    and "0 < base" and "0 < stride" and "2 \<le> publishers" and "\<not> r_started (t_rt s)"
  shows "h_accepted (t_rt s) = []"
proof -
  have "r_main (t_rt s) = MInit"
    using task_invD(3) [OF task_inv_reachable [OF assms(1-4)]] assms(5) by (auto simp: rt_phases_def)
  then show ?thesis
    using untouched_reachable [OF tasks_reachable_rt [OF assms(1-4)] assms(2-4)] by (simp add: untouched_def)
qed

section \<open>The work of the control task\<close>

text \<open>How far the control task is from handling the next event, and from handling \<open>n\<close> events.\<close>

fun turn_rank :: "control_pc \<Rightarrow> nat" where
  "turn_rank (CHandle h) = 0"
| "turn_rank CPop = 1"
| "turn_rank (CRelease h) = 2"
| "turn_rank (CTransition h) = 3"
| "turn_rank (CProcessed h l ch) = 4"
| "turn_rank _ = 0"

definition delivery_rank :: "nat \<Rightarrow> 's tasks \<Rightarrow> nat \<times> nat" where
  "delivery_rank n s = (n - length (h_handled (t_rt s)), turn_rank (r_control (t_rt s)))"

definition delivered :: "nat \<Rightarrow> 's tasks \<Rightarrow> bool" where
  "delivered n s \<longleftrightarrow> n \<le> length (h_handled (t_rt s))"

definition delivery_inv :: "ProtectionConfig \<Rightarrow> nat \<Rightarrow> 's tasks \<Rightarrow> bool" where
  "delivery_inv cfg n s \<longleftrightarrow>
     task_inv cfg s \<and> r_started (t_rt s) \<and> n \<le> length (h_accepted (t_rt s))"

lemma publish_handled:
  assumes "publish_step s now expired pc = Some (pc', s')"
  shows "h_handled s' = h_handled s"
  using assms by (cases pc) (auto split: option.splits prod.splits if_splits)

lemma handled_step:
  assumes "control_step s now pc = Some (pc', s')"
  shows "if \<exists>h. pc = CHandle h then \<exists>e. h_handled s' = h_handled s @ [e] else h_handled s' = h_handled s"
  using assms by (cases pc) (auto simp: Let_def split: option.splits prod.splits if_splits)

text \<open>An event that waits gives the control task work.\<close>

lemma undelivered_queue:
  assumes "delivery_inv cfg n s" and "\<not> delivered n s" and "\<And>h. r_control (t_rt s) \<noteq> CHandle h"
  shows "queue_items (r_queue (t_rt s)) \<noteq> []"
proof
  assume "queue_items (r_queue (t_rt s)) = []"
  then have "h_accepted (t_rt s) = h_handled (t_rt s)"
    using rt_invD(7) [OF task_invD(1), of cfg s] assms(1,3)
    by (cases "r_control (t_rt s)") (auto simp: delivery_inv_def)
  then show False using assms(1,2) by (simp add: delivery_inv_def delivered_def)
qed

lemma delivery_enabled:
  assumes inv: "delivery_inv cfg n s" and "\<not> delivered n s"
  shows "can_step (task_step read calls) Control s"
proof -
  have ti: "task_inv cfg s" "r_started (t_rt s)" using inv by (simp_all add: delivery_inv_def)
  have "r_control (t_rt s) \<noteq> CNone" using task_invD(3) [OF ti(1)] ti(2) by (simp add: rt_phases_def)
  moreover have "r_control (t_rt s) \<noteq> CExit"
    using task_invD(3) [OF ti(1)] undelivered_queue [OF assms] by (auto simp: rt_phases_def)
  ultimately obtain pc r where "control_step (t_rt s) 0 (r_control (t_rt s)) = Some (pc, r)"
    using control_enabled [OF task_invD(1) [OF ti(1)]] undelivered_queue [OF assms] by force
  from task_step.control [OF this] show ?thesis by (auto simp: can_step_def)
qed

lemma control_delivers:
  assumes inv: "delivery_inv cfg n s" and todo: "\<not> delivered n s"
    and step: "control_step (t_rt s) now (r_control (t_rt s)) = Some (pc, r)"
  shows "delivery_rank n (s\<lparr>t_rt := r\<lparr>r_control := pc\<rparr>\<rparr>) < delivery_rank n s"
proof (cases "r_control (t_rt s)")
  case CPop
  have q: "queue_inv (r_queue (t_rt s))" using inv rt_invD(2) task_invD(1) by (auto simp: delivery_inv_def)
  have "queue_items (r_queue (t_rt s)) \<noteq> []" using undelivered_queue [OF inv todo] CPop by simp
  then have "\<exists>h. pc = CHandle h"
    using step CPop bq.get_end [OF q] by (auto split: option.splits)
  then show ?thesis using handled_step [OF step] CPop by (auto simp: delivery_rank_def less_prod_def')
next
  case (CHandle h)
  then show ?thesis
    using handled_step [OF step] todo by (auto simp: delivery_rank_def less_prod_def' delivered_def)
qed (use step in \<open>auto simp: delivery_rank_def less_prod_def' split: if_splits\<close>)

text \<open>The steps of the other threads leave the work of the control task alone.\<close>

lemma others_deliver:
  assumes inv: "task_inv cfg s" and "r_started (t_rt s)" and "task_step read calls k s t"
  shows "(\<exists>now pc r. control_step (t_rt s) now (r_control (t_rt s)) = Some (pc, r) \<and>
        t = s\<lparr>t_rt := r\<lparr>r_control := pc\<rparr>\<rparr>) \<or>
    k \<noteq> Control \<and> h_handled (t_rt t) = h_handled (t_rt s) \<and> r_control (t_rt t) = r_control (t_rt s)"
  using assms(3)
proof cases
  case (publish i now expired pc r)
  then show ?thesis using publish_step_frame [OF publish(4)] publish_handled [OF publish(4)] by simp
next
  case (control now pc r)
  then show ?thesis by blast
next
  case (sensor e expired)
  from sensor(2) show ?thesis by (cases rule: sensor_loop_cases) (use sensor(1) in simp_all)
next
  case (monitor expired)
  from monitor(2) show ?thesis by (cases rule: monitor_loop_cases) (use monitor(1) in simp_all)
next
  case start
  then show ?thesis
    using assms(2)
    by (cases "r_main (t_rt s)") (auto simp: start_task_def start_step_def split: if_splits option.splits)
next
  case stop
  then show ?thesis
    by (cases "r_main (t_rt s)") (auto simp: stop_task_def stop_step_def split: if_splits option.splits)
qed simp_all

lemma started_keeps: "rt_step s t \<Longrightarrow> r_started s \<Longrightarrow> r_started t"
proof (induction rule: rt_step.induct)
  case (publish i s now expired pc s')
  then show ?case using publish_step_frame [OF publish(2)] by simp
next
  case (control s now pc s')
  then show ?case using control_step_frame [OF control(1)] by simp
qed (auto simp: sensor_step_def monitor_step_def start_step_def stop_step_def
      split: if_splits main_pc.splits option.splits)

lemma delivery_inv_step:
  assumes "delivery_inv cfg n s" and "task_step read calls k s t"
  shows "delivery_inv cfg n t"
proof -
  have inv: "task_inv cfg s" "r_started (t_rt s)" "n \<le> length (h_accepted (t_rt s))"
    using assms(1) by (simp_all add: delivery_inv_def)
  from task_step_rt [OF inv(1) assms(2)] have "r_started (t_rt t) \<and> n \<le> length (h_accepted (t_rt t))"
  proof
    assume "rt_step (t_rt s) (t_rt t)"
    then show ?thesis using started_keeps accepted_extends inv by fastforce
  qed (use inv in simp)
  then show ?thesis using task_inv_step [OF inv(1) assms(2)] by (simp add: delivery_inv_def)
qed

interpretation delivery: ranked_progress "task_step read calls" "delivery_inv cfg n" "delivered n"
  "delivery_rank n" "\<lambda>s. Control"
  for read :: "'e \<Rightarrow> 's \<Rightarrow> SensorSample \<times> 's" and calls cfg n
proof unfold_locales
  fix s t :: "'s tasks" and k
  assume inv: "delivery_inv cfg n s" and todo: "\<not> delivered n s"
  then have ti: "task_inv cfg s" "r_started (t_rt s)" by (simp_all add: delivery_inv_def)
  show "can_step (task_step read calls) Control s" by (rule delivery_enabled [OF inv todo])
  have effect: "delivery_rank n t < delivery_rank n s \<or> k \<noteq> Control \<and> delivery_rank n t = delivery_rank n s"
    if "task_step read calls k s t" for k
    using others_deliver [OF ti that]
  proof
    assume "\<exists>now pc r. control_step (t_rt s) now (r_control (t_rt s)) = Some (pc, r) \<and>
      t = s\<lparr>t_rt := r\<lparr>r_control := pc\<rparr>\<rparr>"
    then show ?thesis using control_delivers [OF inv todo] by blast
  qed (simp add: delivery_rank_def)
  show "delivered n t \<or> delivery_rank n t < delivery_rank n s" if "task_step read calls Control s t"
    using effect [OF that] by blast
  show "delivered n t \<or> delivery_inv cfg n t" if "task_step read calls k s t"
    using delivery_inv_step [OF inv that] by simp
  show "delivered n t \<or> delivery_rank n t < delivery_rank n s \<or>
      delivery_rank n t = delivery_rank n s \<and> Control = Control" if "task_step read calls k s t"
    using effect [OF that] by blast
qed

text \<open>The accepted events only grow, and the handled ones are the first of them.\<close>

lemma run_accepted:
  assumes run: "is_run (task_step read calls) mover run" and "task_inv cfg (run i)" and "i \<le> j"
  shows "\<exists>zs. h_accepted (t_rt (run j)) = h_accepted (t_rt (run i)) @ zs"
proof -
  let ?P = "\<lambda>s. task_inv cfg s \<and> (\<exists>zs. h_accepted (t_rt s) = h_accepted (t_rt (run i)) @ zs)"
  have "?P (run (i + (j - i)))"
  proof (rule run_invariant [OF run])
    fix k s t
    assume P: "?P s" and st: "task_step read calls k s t"
    have "\<exists>zs. h_accepted (t_rt t) = h_accepted (t_rt s) @ zs"
      using task_step_rt [of cfg s read calls k t] accepted_extends P st by fastforce
    then show "?P t" using P task_inv_step [of cfg s read calls k t] st by auto
  qed (use assms(2) in simp)
  then show ?thesis using assms(3) by simp
qed

lemma handled_first:
  assumes "task_inv cfg s" and "h_accepted (t_rt s) = xs @ ys" and "length xs \<le> length (h_handled (t_rt s))"
  shows "\<exists>zs. h_handled (t_rt s) = xs @ zs"
proof -
  obtain us where "xs @ ys = h_handled (t_rt s) @ us"
    using rt_invD(7) [OF task_invD(1) [OF assms(1)]] assms(2) by auto
  then have "take (length xs) (h_handled (t_rt s)) = xs"
    using assms(3) by (metis append_eq_conv_conj take_append diff_is_0_eq take_0 append_Nil2)
  then show ?thesis by (metis append_take_drop_id)
qed

text \<open>A run with an event in the queue.\<close>

lemma pending_example:
  "\<exists>mover run. fair_tasks simulated_source {Event_reset_requested} mover run \<and> example_reachable (run 0) \<and>
     Event_shutdown_requested \<in> set (h_accepted (t_rt (run 0))) \<and>
     h_handled (t_rt (run 0)) \<noteq> h_accepted (t_rt (run 0))"
proof -
  let ?cfg = ProtectionConfig_default and ?calls = "{Event_reset_requested}" and ?e = Event_shutdown_requested
  obtain u where u: "example_reachable u" "r_stopped (t_rt u)" "r_main (t_rt u) = MShutdown"
    "r_control (t_rt u) = CPop" "queue_items (r_queue (t_rt u)) = []"
    "r_pubs (t_rt u) = (replicate 3 PIdle)[0 := PCheck ?e]"
    by (rule stopping_state)
  have inv: "rt_inv ?cfg (t_rt u)" by (rule task_invD(1), rule task_inv_reachable [OF u(1)]) simp_all
  have off: "offered (t_rt u) ?e = [?e]" using u(5) by (simp add: offered_def kEventQueueCapacity_def)
  note ph = phases_publishing [OF rt_invD(10) [OF inv]]
  obtain r res where r: "(own_step 0)\<^sup>*\<^sup>* (t_rt u) r" "r_pubs r = (r_pubs (t_rt u))[0 := PReturn res]"
    "same_phase (t_rt u) r" "h_accepted r = h_accepted (t_rt u) @ [?e]"
    using publish_run [OF inv _ _ ph(1) _ ph(2), of 0 ?e] u off by auto
  let ?v = "u\<lparr>t_rt := r\<rparr>"
  have rv: "example_reachable ?v" by (rule tasks_run_reachable [OF u(1) move_own_run [OF r(1)]])
  have iv: "task_inv ?cfg ?v" by (rule task_inv_reachable [OF rv]) simp_all
  have "h_handled r = h_handled (t_rt u)" using r(3) by (simp add: same_phase_def)
  moreover have "h_handled (t_rt u) = h_accepted (t_rt u)" using rt_invD(7) [OF inv] u(4,5) by simp
  moreover have "r_stopped (t_rt ?v)" "outsiders_idle ?v"
    using r(2,3) u(3,6) task_invD(3) [OF iv]
    by (simp_all add: same_phase_def outsiders_idle_def rt_phases_def)
  moreover from this obtain mover run where "fair_tasks simulated_source ?calls mover run" "run 0 = ?v"
    using stopping_run [OF iv, of simulated_source ?calls] by blast
  ultimately show ?thesis using rv r(4) by (intro exI [of _ mover] exI [of _ run]) simp
qed

section \<open>Property\<close>

text \<open>
  C14. Every event the queue has accepted is handled by the state machine at some later moment, in the order of
  acceptance, whether the runtime is stopped or goes on for ever. It is enough that the scheduler is fair
  to the control task; the other threads may do what they like.
\<close>

theorem accepted_events_handled:
  assumes "is_run (task_step read calls) mover run" and "fair_to (task_step read calls) Control mover run"
    and "tasks_reachable read calls cfg base stride publishers source (run 0)"
    and "0 < base" and "0 < stride" and "2 \<le> publishers"
  shows "\<exists>j \<ge> i. \<exists>later. h_handled (t_rt (run j)) = h_accepted (t_rt (run i)) @ later"
proof (cases "r_started (t_rt (run i))")
  case True
  let ?n = "length (h_accepted (t_rt (run i)))"
  note inv = task_inv_reachable [OF is_run_reachable [OF assms(1,3)] assms(4-6)]
  have "delivery_inv cfg ?n (run i)" using True inv by (simp add: delivery_inv_def)
  from delivery.fair_run_reaches_goal [OF assms(1) this] assms(2) obtain j
    where j: "j \<ge> i" "delivered ?n (run j)" by auto
  obtain zs where "h_accepted (t_rt (run j)) = h_accepted (t_rt (run i)) @ zs"
    using run_accepted [OF assms(1) inv j(1)] by blast
  from handled_first [OF inv this] j show ?thesis by (auto simp: delivered_def)
next
  case False
  then have "h_accepted (t_rt (run i)) = []"
    using accepted_before_start [OF is_run_reachable [OF assms(1,3)] assms(4-6)] by blast
  then show ?thesis by auto
qed

theorem accepted_events_handled_witness:
  "\<exists>mover run. fair_tasks simulated_source {Event_reset_requested} mover run \<and> example_reachable (run 0) \<and>
     h_handled (t_rt (run 0)) \<noteq> h_accepted (t_rt (run 0)) \<and>
     (\<exists>j. Event_shutdown_requested \<in> set (h_handled (t_rt (run j))))"
proof -
  obtain mover run where run: "fair_tasks simulated_source {Event_reset_requested} mover run"
    "example_reachable (run 0)" "Event_shutdown_requested \<in> set (h_accepted (t_rt (run 0)))"
    "h_handled (t_rt (run 0)) \<noteq> h_accepted (t_rt (run 0))"
    using pending_example by blast
  obtain j later where "h_handled (t_rt (run j)) = h_accepted (t_rt (run 0)) @ later"
    using accepted_events_handled [OF fair_tasksD(1) [OF run(1)] fair_tasksD(2) [OF run(1)] run(2), of 0] by auto
  then have "Event_shutdown_requested \<in> set (h_handled (t_rt (run j)))" using run(3) by simp
  then show ?thesis using run by (intro exI [of _ mover] exI [of _ run]) blast
qed

end
