(* ===== verification/Command.thy ===== *)
theory Command
  imports Binary64
begin

text \<open>
  The control command parser of \<open>include/edge_sentinel/ipc/command.hpp\<close>. A \<open>std::string_view\<close> is a
  string; \<open>std::from_chars\<close> in the general format is modelled as the C++ standard describes it: an
  optional minus sign, decimal digits with an optional point, an optional exponent, or a name of an
  infinity or NaN, the longest prefix of that form, converted with correct rounding. A result is
  out of range if it overflows, or if it is not zero and rounds to zero.
\<close>

section \<open>Model\<close>

definition kMaximumCommandLength :: nat where
  "kMaximumCommandLength = 256"

datatype CommandKind = invalid | status | metrics | inject | clear | reset | shutdown

datatype InjectionTarget = none | temperature | vibration | current | offline

datatype ParseError =
    none
  | empty
  | too_long
  | unknown_command
  | wrong_argument_count
  | unknown_target
  | invalid_number
  | out_of_range

record Command =
  c_kind :: CommandKind
  c_target :: InjectionTarget
  c_value :: double

definition Command_default :: Command where
  "Command_default =
     \<lparr>c_kind = CommandKind.invalid, c_target = InjectionTarget.none, c_value = dlit 0\<rparr>"

record ParseResult =
  r_command :: Command
  r_error :: ParseError

definition ok :: "ParseResult \<Rightarrow> bool" where
  "ok r \<longleftrightarrow> r_error r = ParseError.none"

subsection \<open>Numbers\<close>

definition is_digit :: "char \<Rightarrow> bool" where
  "is_digit c \<longleftrightarrow> of_char c \<in> {48..57 :: nat}"

definition digits_value :: "string \<Rightarrow> nat" where
  "digits_value ds = foldl (\<lambda>n c. 10 * n + (of_char c - 48)) 0 ds"

definition lower :: "char \<Rightarrow> char" where
  "lower c = (if of_char c \<in> {65..90 :: nat} then char_of (of_char c + 32 :: nat) else c)"

definition is_word_char :: "char \<Rightarrow> bool" where
  "is_word_char c \<longleftrightarrow> is_digit c \<or> of_char (lower c) \<in> {97..122 :: nat} \<or> c = CHR ''_''"

text \<open>The exponent part, if the text starts with one.\<close>

definition scan_exponent :: "string \<Rightarrow> int \<times> string" where
  "scan_exponent cs =
     (case cs of
        c # cs' \<Rightarrow>
          if lower c \<noteq> CHR ''e'' then (0, cs)
          else
            (let (neg, ds) =
               (case cs' of
                  s # ds' \<Rightarrow> if s = CHR ''-'' then (True, ds') else if s = CHR ''+'' then (False, ds')
                            else (False, cs')
                | [] \<Rightarrow> (False, cs'));
               e = takeWhile is_digit ds
             in if e = [] then (0, cs)
                else (if neg then - int (digits_value e) else int (digits_value e),
                      dropWhile is_digit ds))
      | [] \<Rightarrow> (0, cs))"

text \<open>Mantissa and exponent: the magnitude and the rest, if there is at least one digit.\<close>

definition scan_decimal :: "string \<Rightarrow> (rat \<times> string) option" where
  "scan_decimal cs =
     (let whole = takeWhile is_digit cs;
          rest = dropWhile is_digit cs;
          (frac, rest) =
            (case rest of
               c # cs' \<Rightarrow> if c = CHR ''.'' then (takeWhile is_digit cs', dropWhile is_digit cs')
                         else ([], rest)
             | [] \<Rightarrow> ([], rest))
      in if whole = [] \<and> frac = [] then None
         else let (e, rest) = scan_exponent rest
              in Some (of_nat (digits_value (whole @ frac)) * 10 powi (e - int (length frac)), rest))"

text \<open>Infinities and NaNs.\<close>

definition scan_special :: "bool \<Rightarrow> string \<Rightarrow> (double \<times> string) option" where
  "scan_special neg cs =
     (let low = map lower cs in
      if take 8 low = ''infinity'' then Some (DInf neg, drop 8 cs)
      else if take 3 low = ''inf'' then Some (DInf neg, drop 3 cs)
      else if take 3 low = ''nan''
      then (case drop 3 cs of
              c # cs' \<Rightarrow>
                if c = CHR ''('' \<and> take 1 (dropWhile is_word_char cs') = '')''
                then Some (DNaN, drop 1 (dropWhile is_word_char cs'))
                else Some (DNaN, drop 3 cs)
            | [] \<Rightarrow> Some (DNaN, drop 3 cs))
      else None)"

text \<open>
  \<open>std::from_chars\<close>: \<open>None\<close> for \<open>errc::invalid_argument\<close>; otherwise the value, or \<open>None\<close> for
  \<open>errc::result_out_of_range\<close>, and the text that follows the pattern.
\<close>

definition from_chars :: "string \<Rightarrow> (double option \<times> string) option" where
  "from_chars cs =
     (let (neg, cs) =
        (case cs of c # cs' \<Rightarrow> if c = CHR ''-'' then (True, cs') else (False, cs) | [] \<Rightarrow> (False, cs))
      in case scan_decimal cs of
           Some (m, rest) \<Rightarrow>
             (let v = to_double neg m
              in Some (if \<not> isfinite v \<or> (m \<noteq> 0 \<and> dval v = 0) then None else Some v, rest))
         | None \<Rightarrow> map_option (map_prod Some id) (scan_special neg cs))"

text \<open>\<open>detail::parse_number\<close>: the value it stores if it returns \<open>true\<close>.\<close>

definition parse_number :: "string \<Rightarrow> double option" where
  "parse_number input =
     (case from_chars input of
        Some (Some output, rest) \<Rightarrow> if rest = [] \<and> isfinite output then Some output else None
      | _ \<Rightarrow> None)"

definition in_range :: "InjectionTarget \<Rightarrow> double \<Rightarrow> bool" where
  "in_range target v =
     (case target of
        InjectionTarget.temperature \<Rightarrow> dge v (dlit (- 50)) \<and> dle v (dlit 200)
      | InjectionTarget.vibration \<Rightarrow> dge v (dlit 0) \<and> dle v (dlit 100)
      | InjectionTarget.current \<Rightarrow> dge v (dlit 0) \<and> dle v (dlit 200)
      | InjectionTarget.offline \<Rightarrow> True
      | InjectionTarget.none \<Rightarrow> True)"

subsection \<open>Tokens\<close>

definition is_space :: "char \<Rightarrow> bool" where
  "is_space c \<longleftrightarrow> c = CHR '' '' \<or> c = CHR 0x09 \<or> c = CHR 0x0D \<or> c = CHR 0x0A"

text \<open>The two loops of \<open>trim\<close>, at the front and at the back.\<close>

definition trim :: "string \<Rightarrow> string" where
  "trim input = rev (dropWhile is_space (rev (dropWhile is_space input)))"

record Tokens =
  t_values :: "string list"
  t_count :: nat
  t_overflow :: bool

definition Tokens_default :: Tokens where
  "Tokens_default = \<lparr>t_values = replicate 4 [], t_count = 0, t_overflow = False\<rparr>"

text \<open>The outer loop of \<open>tokenize\<close>.\<close>

function tokenize_loop :: "Tokens \<Rightarrow> string \<Rightarrow> Tokens" where
  "tokenize_loop tokens input =
     (if input = [] then tokens
      else
        let input = dropWhile is_space input in
        if input = [] then tokens
        else if t_count tokens = length (t_values tokens) then tokens\<lparr>t_overflow := True\<rparr>
        else
          let len = length (takeWhile (\<lambda>c. \<not> is_space c) input)
          in tokenize_loop
               (tokens\<lparr>t_values := (t_values tokens)[t_count tokens := take len input],
                       t_count := t_count tokens + 1\<rparr>)
               (drop len input))"
  by pat_completeness auto
termination
proof (relation "measure (\<lambda>(tokens, input). length input)", goal_cases)
  case (2 tokens input inp len)
  have "0 < len"
    using 2(2,3,5) hd_dropWhile [of is_space input]
    by (cases "dropWhile is_space input") auto
  moreover have "0 < length inp" using 2(3) by simp
  ultimately have "length (drop len inp) < length inp" by simp
  also have "\<dots> \<le> length input" using 2(2) length_dropWhile_le [of is_space input] by simp
  finally show ?case by simp
qed simp

definition tokenize :: "string \<Rightarrow> Tokens" where
  "tokenize input = tokenize_loop Tokens_default input"

subsection \<open>Commands\<close>

definition failure :: "ParseError \<Rightarrow> ParseResult" where
  "failure e = \<lparr>r_command = Command_default, r_error = e\<rparr>"

definition success :: "CommandKind \<Rightarrow> InjectionTarget \<Rightarrow> double \<Rightarrow> ParseResult" where
  "success k t v = \<lparr>r_command = \<lparr>c_kind = k, c_target = t, c_value = v\<rparr>, r_error = ParseError.none\<rparr>"

definition parse_command :: "string \<Rightarrow> ParseResult" where
  "parse_command input =
     (if kMaximumCommandLength < length input then failure ParseError.too_long
      else
      let input = trim input in
      if input = [] then failure ParseError.empty
      else
      let tokens = tokenize input in
      if t_overflow tokens then failure ParseError.wrong_argument_count
      else
      let verb = t_values tokens ! 0 in
      if verb = ''status'' \<or> verb = ''metrics'' \<or> verb = ''clear'' \<or> verb = ''reset'' \<or>
         verb = ''shutdown''
      then
        if t_count tokens \<noteq> 1 then failure ParseError.wrong_argument_count
        else if verb = ''status'' then success CommandKind.status InjectionTarget.none (dlit 0)
        else if verb = ''metrics'' then success CommandKind.metrics InjectionTarget.none (dlit 0)
        else if verb = ''clear'' then success CommandKind.clear InjectionTarget.none (dlit 0)
        else if verb = ''reset'' then success CommandKind.reset InjectionTarget.none (dlit 0)
        else success CommandKind.shutdown InjectionTarget.none (dlit 0)
      else if verb \<noteq> ''inject'' then failure ParseError.unknown_command
      else if t_count tokens < 2 then failure ParseError.wrong_argument_count
      else
      let target =
        (if t_values tokens ! 1 = ''temperature'' then InjectionTarget.temperature
         else if t_values tokens ! 1 = ''vibration'' then InjectionTarget.vibration
         else if t_values tokens ! 1 = ''current'' then InjectionTarget.current
         else if t_values tokens ! 1 = ''offline'' then InjectionTarget.offline
         else InjectionTarget.none)
      in
      if target = InjectionTarget.none then failure ParseError.unknown_target
      else if target = InjectionTarget.offline
      then if t_count tokens \<noteq> 2 then failure ParseError.wrong_argument_count
           else success CommandKind.inject target (dlit 0)
      else if t_count tokens \<noteq> 3 then failure ParseError.wrong_argument_count
      else
      case parse_number (t_values tokens ! 2) of
        None \<Rightarrow> failure ParseError.invalid_number
      | Some v \<Rightarrow>
          if \<not> in_range target v then failure ParseError.out_of_range
          else success CommandKind.inject target v)"

fun ParseError_to_string :: "ParseError \<Rightarrow> string" where
  "ParseError_to_string ParseError.none = ''none''"
| "ParseError_to_string ParseError.empty = ''empty''"
| "ParseError_to_string ParseError.too_long = ''too_long''"
| "ParseError_to_string ParseError.unknown_command = ''unknown_command''"
| "ParseError_to_string ParseError.wrong_argument_count = ''wrong_argument_count''"
| "ParseError_to_string ParseError.unknown_target = ''unknown_target''"
| "ParseError_to_string ParseError.invalid_number = ''invalid_number''"
| "ParseError_to_string ParseError.out_of_range = ''out_of_range''"

section \<open>Specification\<close>

text \<open>The words of a text: its maximal parts without white space.\<close>

fun words :: "string \<Rightarrow> string list" where
  "words [] = []"
| "words (c # cs) =
     (if is_space c then words cs
      else if cs = [] \<or> is_space (hd cs) then [c] # words cs
      else (c # hd (words cs)) # tl (words cs))"

text \<open>What a command of the given words means.\<close>

definition inject_command :: "InjectionTarget \<Rightarrow> string list \<Rightarrow> ParseResult" where
  "inject_command target arguments =
     (case arguments of
        [number] \<Rightarrow>
          (case parse_number number of
             None \<Rightarrow> failure ParseError.invalid_number
           | Some v \<Rightarrow> if in_range target v then success CommandKind.inject target v
                       else failure ParseError.out_of_range)
      | _ \<Rightarrow> failure ParseError.wrong_argument_count)"

definition simple_commands :: "(string \<times> CommandKind) list" where
  "simple_commands =
     [(''status'', CommandKind.status), (''metrics'', CommandKind.metrics),
      (''clear'', CommandKind.clear), (''reset'', CommandKind.reset),
      (''shutdown'', CommandKind.shutdown)]"

definition inject_targets :: "(string \<times> InjectionTarget) list" where
  "inject_targets =
     [(''temperature'', InjectionTarget.temperature), (''vibration'', InjectionTarget.vibration),
      (''current'', InjectionTarget.current), (''offline'', InjectionTarget.offline)]"

definition command_of_words :: "string list \<Rightarrow> ParseResult" where
  "command_of_words ws =
     (if ws = [] then failure ParseError.empty
      else if 4 < length ws then failure ParseError.wrong_argument_count
      else (case map_of simple_commands (hd ws) of
        Some k \<Rightarrow> if length ws = 1 then success k InjectionTarget.none (dlit 0)
                  else failure ParseError.wrong_argument_count
      | None \<Rightarrow>
          if hd ws \<noteq> ''inject'' then failure ParseError.unknown_command
          else if length ws = 1 then failure ParseError.wrong_argument_count
          else (case map_of inject_targets (ws ! 1) of
            None \<Rightarrow> failure ParseError.unknown_target
          | Some target \<Rightarrow>
              if target = InjectionTarget.offline
              then if length ws = 2 then success CommandKind.inject target (dlit 0)
                   else failure ParseError.wrong_argument_count
              else inject_command target (drop 2 ws))))"

text \<open>The decimal digits of a number.\<close>

fun decimal :: "nat \<Rightarrow> string" where
  "decimal n = (if n < 10 then [char_of (48 + n)] else decimal (n div 10) @ [char_of (48 + n mod 10)])"

text \<open>Words joined by single spaces.\<close>

definition is_word :: "string \<Rightarrow> bool" where
  "is_word w \<longleftrightarrow> w \<noteq> [] \<and> (\<forall>c \<in> set w. \<not> is_space c)"

fun unwords :: "string list \<Rightarrow> string" where
  "unwords [] = []"
| "unwords [w] = w"
| "unwords (w # ws) = w @ CHR '' '' # unwords ws"

declare tokenize_loop.simps [simp del]
declare decimal.simps [simp del]

text \<open>A number in digits with an optional fraction, and its value.\<close>

definition number_text :: "string \<Rightarrow> string \<Rightarrow> string" where
  "number_text whole fraction = whole @ (if fraction = [] then [] else CHR ''.'' # fraction)"

definition number_value :: "string \<Rightarrow> string \<Rightarrow> rat" where
  "number_value whole fraction = of_nat (digits_value (whole @ fraction)) / 10 ^ length fraction"

section \<open>Words\<close>

lemma words_skip: "words (dropWhile is_space cs) = words cs"
  by (induction cs) auto

lemma words_split:
  assumes "cs \<noteq> []" and "\<not> is_space (hd cs)"
  shows "words cs = takeWhile (\<lambda>c. \<not> is_space c) cs # words (dropWhile (\<lambda>c. \<not> is_space c) cs)"
  using assms
proof (induction cs)
  case (Cons c cs)
  then show ?case by (cases cs) auto
qed simp

lemma words_Nil_iff: "words cs = [] \<longleftrightarrow> (\<forall>c \<in> set cs. is_space c)"
  by (induction cs) auto

lemma words_append_spaces: "\<forall>c \<in> set ss. is_space c \<Longrightarrow> words (cs @ ss) = words cs"
proof (induction cs)
  case Nil
  then show ?case by (simp add: words_Nil_iff)
next
  case (Cons c cs)
  then have "words ss = []" "ss \<noteq> [] \<Longrightarrow> is_space (hd ss)" by (simp_all add: words_Nil_iff)
  then show ?case using Cons by (cases "cs = []") auto
qed

lemma dropWhile_back: "\<exists>ss. cs = rev (dropWhile is_space (rev cs)) @ ss \<and> (\<forall>c \<in> set ss. is_space c)"
proof -
  have "cs = rev (dropWhile is_space (rev cs)) @ rev (takeWhile is_space (rev cs))"
    by (metis rev_append rev_rev_ident takeWhile_dropWhile_id)
  then show ?thesis
    by (intro exI [of _ "rev (takeWhile is_space (rev cs))"]) (auto dest: set_takeWhileD)
qed

lemma words_trim: "words (trim cs) = words cs"
proof -
  obtain ss where "dropWhile is_space cs = trim cs @ ss" "\<forall>c \<in> set ss. is_space c"
    using dropWhile_back [of "dropWhile is_space cs"] unfolding trim_def by blast
  then show ?thesis using words_append_spaces [of ss "trim cs"] words_skip [of cs] by simp
qed

lemma trim_Nil_iff: "trim cs = [] \<longleftrightarrow> words cs = []"
proof
  assume "words cs = []"
  then have "dropWhile is_space cs = []" by (simp add: words_Nil_iff)
  then show "trim cs = []" unfolding trim_def by (metis dropWhile.simps(1) rev.simps(1))
next
  assume "trim cs = []"
  then show "words cs = []" using words_trim [of cs] by simp
qed

text \<open>The loop collects the words that fit and notes whether there are more.\<close>

lemma tokenize_loop_words:
  assumes "t_count tokens \<le> length (t_values tokens)"
  shows "tokenize_loop tokens input =
    (let n = length (t_values tokens) - t_count tokens; ws = words input in
     tokens\<lparr>t_values := take (t_count tokens) (t_values tokens) @ take n ws @
              drop (t_count tokens + length ws) (t_values tokens),
            t_count := t_count tokens + length (take n ws),
            t_overflow := (t_overflow tokens \<or> n < length ws)\<rparr>)"
  using assms
proof (induction tokens input rule: tokenize_loop.induct)
  case (1 tokens input)
  let ?inp = "dropWhile is_space input"
  show ?case
  proof (cases "?inp = []")
    case True
    then have "words input = []" by (simp add: words_Nil_iff)
    moreover have "tokenize_loop tokens input = tokens"
      using True by (subst tokenize_loop.simps) (simp add: Let_def)
    ultimately show ?thesis by (cases tokens) simp
  next
    case False
    let ?len = "length (takeWhile (\<lambda>c. \<not> is_space c) ?inp)"
    have tok: "take ?len ?inp = takeWhile (\<lambda>c. \<not> is_space c) ?inp"
      "drop ?len ?inp = dropWhile (\<lambda>c. \<not> is_space c) ?inp"
      by (simp_all add: takeWhile_eq_take [symmetric] dropWhile_eq_drop [symmetric])
    have ws: "words input = take ?len ?inp # words (drop ?len ?inp)"
      unfolding tok using words_split [OF False] hd_dropWhile [OF False] words_skip [of input] by simp
    have ne: "input \<noteq> []" using False by auto
    show ?thesis
    proof (cases "t_count tokens = length (t_values tokens)")
      case True
      then have "tokenize_loop tokens input = tokens\<lparr>t_overflow := True\<rparr>"
        using False ne by (subst tokenize_loop.simps) (simp add: Let_def del: dropWhile_eq_Nil_conv)
      then show ?thesis using True ws by (cases tokens) simp
    next
      case full: False
      let ?t = "tokens\<lparr>t_values := (t_values tokens)[t_count tokens := take ?len ?inp],
                       t_count := t_count tokens + 1\<rparr>"
      have lt: "t_count tokens < length (t_values tokens)" using full 1(2) by simp
      have "tokenize_loop tokens input = tokenize_loop ?t (drop ?len ?inp)"
        using False full ne by (subst tokenize_loop.simps) (simp add: Let_def del: dropWhile_eq_Nil_conv)
      also have "\<dots> = (let n = length (t_values ?t) - t_count ?t; ws = words (drop ?len ?inp) in
         ?t\<lparr>t_values := take (t_count ?t) (t_values ?t) @ take n ws @
              drop (t_count ?t + length ws) (t_values ?t),
            t_count := t_count ?t + length (take n ws),
            t_overflow := (t_overflow ?t \<or> n < length ws)\<rparr>)"
        using 1(1) [OF ne refl False full refl] lt by simp
      finally show ?thesis
        using lt ws
        by (simp add: Let_def take_Suc_conv_app_nth Suc_diff_le take_Cons' min_def)
    qed
  qed
qed

lemma tokenize_words:
  "tokenize input = \<lparr>t_values = take 4 (words input) @ replicate (4 - length (words input)) [],
     t_count = min 4 (length (words input)), t_overflow = (4 < length (words input))\<rparr>"
  using tokenize_loop_words [of Tokens_default input]
  by (simp add: tokenize_def Tokens_default_def Let_def min.commute)

section \<open>Commands\<close>

lemma parse_command_words:
  assumes "length input \<le> kMaximumCommandLength"
  shows "parse_command input = command_of_words (words input)"
proof (cases "words input = []")
  case True
  then show ?thesis
    using assms by (simp add: parse_command_def trim_Nil_iff command_of_words_def)
next
  case False
  let ?ws = "words input"
  have trim: "trim input \<noteq> []" using False by (simp add: trim_Nil_iff)
  have tok: "tokenize (trim input) = \<lparr>t_values = take 4 ?ws @ replicate (4 - length ?ws) [],
     t_count = min 4 (length ?ws), t_overflow = (4 < length ?ws)\<rparr>"
    by (simp add: tokenize_words words_trim)
  show ?thesis
  proof (cases "4 < length ?ws")
    case True
    then show ?thesis
      using assms trim tok False by (simp add: parse_command_def command_of_words_def)
  next
    case short: False
    note unfold = parse_command_def command_of_words_def simple_commands_def inject_targets_def
      inject_command_def Let_def
    obtain a ws where a: "?ws = a # ws" using False by (cases ?ws) auto
    show ?thesis
    proof (cases ws)
      case Nil
      then show ?thesis using assms trim tok a by (simp add: unfold)
    next
      case (Cons b bs)
      show ?thesis
      proof (cases bs)
        case Nil
        then show ?thesis using assms trim tok a Cons by (simp add: unfold)
      next
        case two: (Cons c cs)
        then show ?thesis
          using assms trim tok a Cons short
          by (cases cs) (simp_all add: unfold split: option.split)
      qed
    qed
  qed
qed

section \<open>Numbers\<close>

lemma digit_char:
  fixes d :: nat
  assumes "d < 10"
  shows "is_digit (char_of (48 + d))" and "of_char (char_of (48 + d)) - 48 = d"
proof -
  have "of_char (char_of (48 + d) :: char) = 48 + d" using assms by simp
  then show "is_digit (char_of (48 + d))" and "of_char (char_of (48 + d)) - 48 = d"
    using assms by (simp_all add: is_digit_def)
qed

lemma digits_value_snoc: "digits_value (ds @ [c]) = 10 * digits_value ds + (of_char c - 48)"
  by (simp add: digits_value_def)

lemma decimal_digits: "\<forall>c \<in> set (decimal n). is_digit c"
proof (induction n rule: decimal.induct)
  case (1 n)
  then show ?case
    by (subst decimal.simps) (auto simp: digit_char)
qed

lemma decimal_value: "digits_value (decimal n) = n"
proof (induction n rule: decimal.induct)
  case (1 n)
  show ?case
  proof (cases "n < 10")
    case True
    then show ?thesis
      using digit_char(2) [OF True] by (subst decimal.simps) (simp add: digits_value_def)
  next
    case False
    have "n mod 10 < 10" by simp
    then show ?thesis
      using 1 [OF False] False digit_char(2) [of "n mod 10"]
      by (subst decimal.simps) (simp add: digits_value_snoc)
  qed
qed

lemma decimal_not_Nil: "decimal n \<noteq> []"
  by (subst decimal.simps) simp

lemma scan_decimal_decimal: "scan_decimal (decimal n) = Some (of_nat n, [])"
proof -
  have scan: "takeWhile is_digit (decimal n) = decimal n" "dropWhile is_digit (decimal n) = []"
    using decimal_digits [of n] by simp_all
  show ?thesis
    unfolding scan_decimal_def Let_def scan
    by (simp add: scan_exponent_def decimal_value decimal_not_Nil)
qed

lemma digit_not_sign: "is_digit c \<Longrightarrow> c \<noteq> CHR ''-''"
  by (auto simp: is_digit_def)

lemma parse_number_decimal:
  assumes "n < 2 ^ 53"
  shows "parse_number (decimal n) = Some (DFin False (of_nat n))"
    and "parse_number (CHR ''-'' # decimal n) = Some (DFin True (of_nat n))"
proof -
  obtain c cs where c: "decimal n = c # cs" using decimal_not_Nil by (cases "decimal n") auto
  have "c \<noteq> CHR ''-''" using decimal_digits [of n] c by (auto dest: digit_not_sign)
  then have "from_chars (decimal n) = Some (Some (DFin False (of_nat n)), [])"
    using c scan_decimal_decimal [of n]
    by (auto simp: from_chars_def to_double_of_nat [OF assms])
  then show "parse_number (decimal n) = Some (DFin False (of_nat n))" by (simp add: parse_number_def)
  have "from_chars (CHR ''-'' # decimal n) = Some (Some (DFin True (of_nat n)), [])"
    using scan_decimal_decimal [of n] by (auto simp: from_chars_def to_double_of_nat [OF assms])
  then show "parse_number (CHR ''-'' # decimal n) = Some (DFin True (of_nat n))"
    by (simp add: parse_number_def)
qed

text \<open>
  A number with a fraction is read as the double next to it, which is on the same side of every
  number that is a double itself.
\<close>

lemma scan_number_text:
  assumes "\<forall>c \<in> set (whole @ fraction). is_digit c" and "whole \<noteq> []"
  shows "scan_decimal (number_text whole fraction) = Some (number_value whole fraction, [])"
proof -
  have point: "\<not> is_digit CHR ''.''" by (simp add: is_digit_def)
  have whole: "takeWhile is_digit (whole @ xs) = whole @ takeWhile is_digit xs"
    "dropWhile is_digit (whole @ xs) = dropWhile is_digit xs" for xs
    using assms(1) by (simp_all add: takeWhile_append dropWhile_append)
  have fraction: "takeWhile is_digit fraction = fraction" "dropWhile is_digit fraction = []" using assms(1) by simp_all
  show ?thesis
    using assms(2)
    by (simp add: scan_decimal_def number_text_def number_value_def scan_exponent_def whole fraction point
        power_int_minus divide_inverse)
qed

lemma parse_number_text:
  assumes "\<forall>c \<in> set (whole @ fraction). is_digit c" and "whole \<noteq> []"
    and "0 < n" "n < 2 ^ 53" "j \<le> 52" and "of_nat n / 2 ^ j \<le> number_value whole fraction"
    and "number_value whole fraction \<le> of_nat m" and "m < 2 ^ 52"
  obtains v where "parse_number (number_text whole fraction) = Some v" and "isfinite v"
    and "of_nat n / 2 ^ j \<le> dval v" and "dval v \<le> of_nat m"
proof -
  let ?q = "number_value whole fraction"
  have "0 < (of_nat n / 2 ^ j :: rat)" using assms(3) by simp
  then have pos: "0 < ?q" using assms(6) by (rule less_le_trans)
  have lo: "of_nat n / 2 ^ j \<le> round_mag ?q" by (rule round_mag_ge_dyadic [OF assms(3-6)])
  have hi: "round_mag ?q \<le> of_nat m" by (rule round_mag_le_nat [OF pos assms(7,8)])
  have "(of_nat m :: rat) < of_nat (2 ^ 52)" using assms(8) by (simp only: of_nat_less_iff)
  then have "?q < 2 ^ 52" using assms(7) by simp
  from to_double_close(1) [OF pos this] have v: "to_double False ?q = DFin False (round_mag ?q)" by simp
  have nz: "round_mag ?q \<noteq> 0" using lo \<open>0 < of_nat n / 2 ^ j\<close> by auto
  obtain c cs where c: "number_text whole fraction = c # cs" "is_digit c"
    using assms(1,2) by (cases whole) (auto simp: number_text_def)
  have "from_chars (number_text whole fraction) = Some (Some (DFin False (round_mag ?q)), [])"
    using scan_number_text [OF assms(1,2)] digit_not_sign [OF c(2)] v nz by (simp add: from_chars_def c(1))
  then have "parse_number (number_text whole fraction) = Some (DFin False (round_mag ?q))"
    by (simp add: parse_number_def)
  from that [OF this] lo hi show thesis by simp
qed

lemma parse_number_finite: "parse_number cs = Some v \<Longrightarrow> isfinite v"
  by (auto simp: parse_number_def split: option.splits if_splits)

text \<open>Words joined by single spaces are found again.\<close>

lemma words_word_append:
  assumes "is_word w" and "cs = [] \<or> is_space (hd cs)"
  shows "words (w @ cs) = w # words cs"
proof -
  have "w @ cs \<noteq> []" "\<not> is_space (hd (w @ cs))" using assms(1) by (auto simp: is_word_def)
  moreover have "takeWhile (\<lambda>c. \<not> is_space c) (w @ cs) = w" "dropWhile (\<lambda>c. \<not> is_space c) (w @ cs) = cs"
    using assms by (cases cs; auto simp: is_word_def takeWhile_append dropWhile_append)+
  ultimately show ?thesis using words_split [of "w @ cs"] by simp
qed

lemma words_unwords: "\<forall>w \<in> set ws. is_word w \<Longrightarrow> words (unwords ws) = ws"
proof (induction ws rule: unwords.induct)
  case (2 w)
  then show ?case using words_word_append [of w "[]"] by simp
next
  case (3 w v ws)
  then show ?case using words_word_append [of w "CHR '' '' # unwords (v # ws)"] by (simp add: is_space_def)
qed simp

lemma digit_not_space: "is_digit c \<Longrightarrow> \<not> is_space c"
  by (auto simp: is_digit_def is_space_def)

lemma decimal_word: "is_word (decimal n)"
  using decimal_digits [of n] decimal_not_Nil [of n] digit_not_space by (auto simp: is_word_def)

lemma number_text_word:
  assumes "\<forall>c \<in> set (whole @ fraction). is_digit c" and "whole \<noteq> []"
  shows "is_word (number_text whole fraction)"
  using assms digit_not_space by (auto simp: is_word_def number_text_def is_space_def)

section \<open>Safety\<close>

lemma in_range_dval:
  assumes "isfinite v" and "in_range target v"
  shows "(target = InjectionTarget.temperature \<longrightarrow> - 50 \<le> dval v \<and> dval v \<le> 200) \<and>
    (target = InjectionTarget.vibration \<longrightarrow> 0 \<le> dval v \<and> dval v \<le> 100) \<and>
    (target = InjectionTarget.current \<longrightarrow> 0 \<le> dval v \<and> dval v \<le> 200)"
  using assms by (cases target) (simp_all add: in_range_def dge_finite dle_finite)

lemma inject_command_safe:
  assumes "target \<noteq> InjectionTarget.none" and "target \<noteq> InjectionTarget.offline"
  shows "(\<exists>e. e \<noteq> ParseError.none \<and> inject_command target ws = failure e) \<or>
    (\<exists>v. inject_command target ws = success CommandKind.inject target v \<and> isfinite v \<and> in_range target v)"
  using parse_number_finite
  by (auto simp: inject_command_def split: list.splits option.splits)

lemma command_of_words_cases:
  obtains (fail) e where "e \<noteq> ParseError.none" "command_of_words ws = failure e"
    | (simple) k where "k \<noteq> CommandKind.invalid" "k \<noteq> CommandKind.inject"
        "command_of_words ws = success k InjectionTarget.none (dlit 0)"
    | (offline) "command_of_words ws = success CommandKind.inject InjectionTarget.offline (dlit 0)"
    | (inject) target v where "target \<noteq> InjectionTarget.none" "target \<noteq> InjectionTarget.offline"
        "command_of_words ws = success CommandKind.inject target v" "isfinite v" "in_range target v"
proof (cases "ws = [] \<or> 4 < length ws")
  case True
  then show ?thesis
    using fail [of "ParseError.empty"] fail [of "ParseError.wrong_argument_count"]
    by (cases "ws = []") (auto simp: command_of_words_def)
next
  case False
  show ?thesis
  proof (cases "map_of simple_commands (hd ws)")
    case (Some k)
    then have "k \<noteq> CommandKind.invalid \<and> k \<noteq> CommandKind.inject"
      by (auto simp: simple_commands_def split: if_splits)
    then show ?thesis
      using False Some fail [of "ParseError.wrong_argument_count"] simple [of k]
      by (cases "length ws = 1") (auto simp: command_of_words_def)
  next
    case None
    show ?thesis
    proof (cases "hd ws = ''inject'' \<and> length ws \<noteq> 1 \<and> map_of inject_targets (ws ! 1) \<noteq> None")
      case other: False
      then show ?thesis
        using False None fail [of "ParseError.unknown_command"] fail [of "ParseError.unknown_target"]
          fail [of "ParseError.wrong_argument_count"]
        by (cases "hd ws = ''inject''"; cases "length ws = 1") (auto simp: command_of_words_def)
    next
      case True
      then obtain target where target: "map_of inject_targets (ws ! 1) = Some target" by auto
      then have "target \<noteq> InjectionTarget.none" by (auto simp: inject_targets_def split: if_splits)
      then show ?thesis
        using False None True target offline fail [of "ParseError.wrong_argument_count"]
          inject_command_safe [of target "drop 2 ws"] fail inject
        by (cases "target = InjectionTarget.offline"; cases "length ws = 2")
           (auto simp: command_of_words_def)
    qed
  qed
qed

lemma command_of_words_safe:
  "let c = r_command (command_of_words ws); v = dval (c_value c) in
   if ok (command_of_words ws)
   then c_kind c \<noteq> CommandKind.invalid \<and> isfinite (c_value c) \<and>
     (if c_kind c = CommandKind.inject
      then c_target c \<noteq> InjectionTarget.none \<and>
        (c_target c = InjectionTarget.temperature \<longrightarrow> - 50 \<le> v \<and> v \<le> 200) \<and>
        (c_target c = InjectionTarget.vibration \<longrightarrow> 0 \<le> v \<and> v \<le> 100) \<and>
        (c_target c = InjectionTarget.current \<longrightarrow> 0 \<le> v \<and> v \<le> 200) \<and>
        (c_target c = InjectionTarget.offline \<longrightarrow> v = 0)
      else c_target c = InjectionTarget.none \<and> v = 0)
   else c = Command_default"
proof -
  consider (fail) e where "e \<noteq> ParseError.none" "command_of_words ws = failure e"
    | (simple) k where "k \<noteq> CommandKind.invalid" "k \<noteq> CommandKind.inject"
        "command_of_words ws = success k InjectionTarget.none (dlit 0)"
    | (offline) "command_of_words ws = success CommandKind.inject InjectionTarget.offline (dlit 0)"
    | (inject) target v where "target \<noteq> InjectionTarget.none" "target \<noteq> InjectionTarget.offline"
        "command_of_words ws = success CommandKind.inject target v" "isfinite v" "in_range target v"
    by (rule command_of_words_cases [of ws])
  then show ?thesis
  proof cases
    case fail
    then show ?thesis by (simp add: failure_def ok_def)
  next
    case simple
    then show ?thesis by (simp add: success_def ok_def)
  next
    case offline
    then show ?thesis by (simp add: success_def ok_def)
  next
    case inject
    then show ?thesis using in_range_dval [OF inject(4,5)] by (simp add: success_def ok_def Let_def)
  qed
qed

section \<open>Properties\<close>

text \<open>
  C22. The parser recognises exactly the documented command language. Its result depends on the
  words of the input only, however they are separated, and is the meaning of that list of words:
  five commands without arguments, the injection of an in-range number into one of three sensors,
  the offline injection, and one definite error for everything else.
\<close>

theorem parse_command_grammar:
  "parse_command input =
     (if kMaximumCommandLength < length input then failure ParseError.too_long
      else command_of_words (words input))"
proof (cases "kMaximumCommandLength < length input")
  case True
  then show ?thesis by (simp add: parse_command_def)
next
  case False
  then show ?thesis using parse_command_words [of input] by simp
qed

text \<open>
  C23. What the parser accepts is safe to execute: an accepted command has a valid kind; an
  injection has a target and a finite value within the documented limits of that target; every
  other command carries no target and no value. A rejected input yields the invalid command.
\<close>

theorem accepted_command_in_range:
  "let c = r_command (parse_command input); v = dval (c_value c) in
   if ok (parse_command input)
   then c_kind c \<noteq> CommandKind.invalid \<and> isfinite (c_value c) \<and>
     (if c_kind c = CommandKind.inject
      then c_target c \<noteq> InjectionTarget.none \<and>
        (c_target c = InjectionTarget.temperature \<longrightarrow> - 50 \<le> v \<and> v \<le> 200) \<and>
        (c_target c = InjectionTarget.vibration \<longrightarrow> 0 \<le> v \<and> v \<le> 100) \<and>
        (c_target c = InjectionTarget.current \<longrightarrow> 0 \<le> v \<and> v \<le> 200) \<and>
        (c_target c = InjectionTarget.offline \<longrightarrow> v = 0)
      else c_target c = InjectionTarget.none \<and> v = 0)
   else c = Command_default"
proof (cases "kMaximumCommandLength < length input")
  case True
  then show ?thesis by (simp add: parse_command_def failure_def ok_def)
next
  case False
  then have len: "length input \<le> kMaximumCommandLength" by simp
  show ?thesis
    unfolding parse_command_words [OF len] by (rule command_of_words_safe)
qed

theorem accepted_command_in_range_witness:
  "isfinite (c_value (r_command (parse_command ''status''))) \<and> ok (parse_command ''status'')"
proof -
  have "ok (parse_command ''status'')"
    by (simp add: parse_command_words kMaximumCommandLength_def is_space_def command_of_words_def
        simple_commands_def success_def ok_def)
  then show ?thesis using accepted_command_in_range [of "''status''"] by (simp add: Let_def)
qed

text \<open>
  Whole numbers survive the round trip through text: the command that injects the decimal
  digits of a number \<open>n\<close> of at most 200 degrees, written with single spaces, is accepted with exactly
  the value \<open>n\<close>.
\<close>

lemma inject_decimal_roundtrip:
  assumes "n \<le> 200"
  shows "parse_command (unwords [''inject'', ''temperature'', decimal n]) =
    success CommandKind.inject InjectionTarget.temperature (DFin False (of_nat n))"
proof -
  have "length (decimal n) \<le> 3"
    using assms by (simp add: decimal.simps [of n] decimal.simps [of "n div 10"]
        decimal.simps [of "n div 10 div 10"])
  then have len: "length (unwords [''inject'', ''temperature'', decimal n]) \<le> kMaximumCommandLength"
    by (simp add: kMaximumCommandLength_def)
  have words: "words (unwords [''inject'', ''temperature'', decimal n]) =
      [''inject'', ''temperature'', decimal n]"
    by (rule words_unwords) (simp add: decimal_word, simp add: is_word_def is_space_def)
  have "parse_number (decimal n) = Some (DFin False (of_nat n))"
    using assms by (intro parse_number_decimal) simp
  moreover have "in_range InjectionTarget.temperature (DFin False (of_nat n))"
    using assms by (simp add: in_range_def dge_finite dle_finite)
  ultimately show ?thesis
    unfolding parse_command_words [OF len] words
    by (simp add: command_of_words_def simple_commands_def inject_targets_def inject_command_def)
qed

end
