(* ===== verification/Text_Output.thy ===== *)
theory Text_Output
  imports Command
begin

text \<open>
  What the programs print with \<open>operator<<\<close>: integers in decimal, and a \<open>double\<close> in the default format
  of an output stream, six significant digits without trailing zeros, in scientific notation if the
  decimal exponent is less than -4 or greater than 5.
\<close>

section \<open>Model\<close>

definition show_uint64 :: "uint64 \<Rightarrow> string" where
  "show_uint64 w = decimal (unat w)"

text \<open>The decimal exponent of a positive number: the greatest \<open>e\<close> with \<open>10 powi e \<le> q\<close>.\<close>

definition decimal_exponent :: "rat \<Rightarrow> int" where
  "decimal_exponent q =
     (if 1 \<le> q then int (length (decimal (nat \<lfloor>q\<rfloor>))) - 1
      else - int (length (decimal (nat (\<lceil>1 / q\<rceil> - 1)))))"

text \<open>Six significant digits, as a number of six digits, with the exponent of the first one.\<close>

definition six_digits :: "rat \<Rightarrow> nat \<times> int" where
  "six_digits q =
     (let e = decimal_exponent q;
          m = round_half_even (if e \<le> 5 then q * 10 ^ nat (5 - e) else q / 10 ^ nat (e - 5))
      in if m = 1000000 then (100000, e + 1) else (nat m, e))"

definition strip_zeros :: "string \<Rightarrow> string" where
  "strip_zeros ds = rev (dropWhile (\<lambda>c. c = CHR ''0'') (rev ds))"

definition with_point :: "string \<Rightarrow> string \<Rightarrow> string" where
  "with_point ds fraction = (if fraction = [] then ds else ds @ CHR ''.'' # fraction)"

definition show_exponent :: "int \<Rightarrow> string" where
  "show_exponent e =
     CHR ''e'' # (if e < 0 then CHR ''-'' else CHR ''+'') #
       (let ds = decimal (nat \<bar>e\<bar>) in if length ds < 2 then CHR ''0'' # ds else ds)"

definition show_magnitude :: "rat \<Rightarrow> string" where
  "show_magnitude q =
     (if q = 0 then ''0''
      else
        let (m, e) = six_digits q; ds = decimal m in
        if e < -4 \<or> 6 \<le> e
        then with_point (take 1 ds) (strip_zeros (drop 1 ds)) @ show_exponent e
        else if 0 \<le> e
        then with_point (take (nat e + 1) ds) (strip_zeros (drop (nat e + 1) ds))
        else with_point ''0'' (replicate (nat (- e) - 1) CHR ''0'' @ strip_zeros ds))"

fun show_double :: "double \<Rightarrow> string" where
  "show_double DNaN = ''nan''"
| "show_double (DInf neg) = (if neg then ''-inf'' else ''inf'')"
| "show_double (DFin neg q) = (if neg then CHR ''-'' # show_magnitude q else show_magnitude q)"

section \<open>Whole numbers\<close>

lemma decimal_simps:
  "n < 10 \<Longrightarrow> decimal n = [char_of (48 + n)]"
  "\<not> n < 10 \<Longrightarrow> decimal n = decimal (n div 10) @ [char_of (48 + n mod 10)]"
  by (subst decimal.simps; simp)+

lemma char_of_zero_digit: "char_of (48 :: nat) = CHR ''0''"
  by (simp add: char_of_def bit_0)

lemma decimal_times_10: "0 < n \<Longrightarrow> decimal (n * 10) = decimal n @ ''0''"
  by (subst decimal_simps(2)) (simp_all add: char_of_zero_digit)

lemma decimal_times_power: "0 < n \<Longrightarrow> decimal (n * 10 ^ k) = decimal n @ replicate k CHR ''0''"
proof (induction k)
  case (Suc k)
  have "decimal (n * 10 ^ Suc k) = decimal (n * 10 ^ k * 10)" by (simp add: algebra_simps)
  also have "\<dots> = decimal (n * 10 ^ k) @ ''0''" using Suc.prems by (intro decimal_times_10) simp
  finally show ?case using Suc by (simp add: replicate_append_same)
qed simp

lemma decimal_length: "n < 10 ^ Suc k \<Longrightarrow> length (decimal n) \<le> Suc k"
proof (induction k arbitrary: n)
  case (Suc k)
  show ?case
  proof (cases "n < 10")
    case False
    have "n div 10 < 10 ^ Suc k" using Suc.prems by (simp add: less_mult_imp_div_less)
    then show ?thesis using Suc.IH [of "n div 10"] False by (simp add: decimal_simps)
  qed (simp add: decimal_simps)
qed (simp add: decimal_simps)

lemma round_half_even_int: "round_half_even (of_int i) = i"
  by (simp add: round_half_even_def)

text \<open>Whole numbers of at most six digits are printed with exactly their digits.\<close>

lemma show_whole:
  assumes "n < 1000000"
  shows "show_double (DFin False (of_nat n)) = decimal n"
proof (cases "n = 0")
  case True
  then show ?thesis by (simp add: show_magnitude_def decimal_simps char_of_zero_digit)
next
  case False
  define k where "k = length (decimal n) - 1"
  have len: "length (decimal n) = Suc k" using decimal_not_Nil [of n] by (simp add: k_def)
  have k: "k \<le> 5" using decimal_length [of n 5] assms len by simp
  have e: "decimal_exponent (of_nat n) = int k" using False len by (simp add: decimal_exponent_def)
  have pos: "0 < n * 10 ^ (5 - k)" using False by simp
  have "(of_nat n :: rat) * 10 ^ nat (5 - int k) = of_int (int (n * 10 ^ (5 - k)))"
    using k by (simp add: nat_diff_distrib)
  then have m: "round_half_even (of_nat n * 10 ^ nat (5 - int k)) = int (n * 10 ^ (5 - k))"
    by (simp only: round_half_even_int)
  have six: "length (decimal (n * 10 ^ (5 - k))) = 6"
    using decimal_times_power [of n "5 - k"] False len k by simp
  have "n * 10 ^ (5 - k) \<noteq> 1000000"
  proof
    assume "n * 10 ^ (5 - k) = 1000000"
    then have "length (decimal (1 * 10 ^ 6)) = 6" using six by simp
    then show False using decimal_times_power [of 1 6] by (simp add: decimal_simps)
  qed
  then have "int (n * 10 ^ (5 - k)) \<noteq> 1000000" by linarith
  then have d: "six_digits (of_nat n) = (n * 10 ^ (5 - k), int k)"
    using e m k by (simp add: six_digits_def Let_def nat_mult_distrib nat_power_eq)
  have "strip_zeros (replicate j CHR ''0'') = []" for j
    by (simp add: strip_zeros_def)
  then show ?thesis
    using d False len k decimal_times_power [of n "5 - k"]
    by (simp add: show_magnitude_def with_point_def Let_def)
qed

end
