(* ===== verification/Pipeline_Benchmark.thy ===== *)
theory Pipeline_Benchmark
  imports Object_Pool Bounded_Queue Fairness Text_Output "HOL-Library.Product_Lexorder"
begin

text \<open>
  The benchmark of \<open>benchmarks/event_pipeline_benchmark.cpp\<close>: one producer and one consumer, joined by an
  object pool and a bounded queue, and the report that is computed from the measured latencies. The two
  threads are step functions; the clock and the passing of the push timeout are arguments.
\<close>

section \<open>Model\<close>

definition kEventCount :: nat where
  "kEventCount = 50000"

record BenchmarkEvent =
  be_sequence :: uint64
  be_created_at :: int

text \<open>
  Where the producer stands: before the creation of event \<open>n\<close>, before or in \<open>wait_push\<close>, before the
  destruction of a handle the queue has refused, before \<open>close\<close>, in \<open>join\<close>, at the report. Where the
  consumer stands: before or in \<open>wait_pop\<close> in turn \<open>i\<close>, at the end of that turn with the popped handle, at
  the end.
\<close>

datatype producer_pc =
    BCreate nat
  | BPush nat Handle
  | BRefused nat Handle
  | BClose
  | BJoin
  | BDone

datatype consumer_pc =
    KPop nat
  | KRelease nat Handle
  | KExit

text \<open>The last field is a history variable: the numbers of the events the consumer has taken.\<close>

record benchmark =
  b_pool :: "BenchmarkEvent FixedObjectPool"
  b_queue :: "Handle BoundedQueue"
  b_producer :: producer_pc
  b_consumer :: consumer_pc
  b_latencies_ns :: "uint64 list"
  b_taken :: "uint64 list"

definition benchmark_init :: "nat \<Rightarrow> nat \<Rightarrow> benchmark" where
  "benchmark_init base stride =
     \<lparr>b_pool = FixedObjectPool_init 256 base stride, b_queue = BoundedQueue_init 128,
      b_producer = BCreate 0, b_consumer = KPop 0,
      b_latencies_ns = replicate kEventCount 0, b_taken = []\<rparr>"

definition next_event :: "nat \<Rightarrow> producer_pc" where
  "next_event n = (if Suc n < kEventCount then BCreate (Suc n) else BClose)"

fun producer_step :: "benchmark \<Rightarrow> int \<Rightarrow> bool \<Rightarrow> producer_pc \<Rightarrow> (producer_pc \<times> benchmark) option" where
  "producer_step s now expired (BCreate n) =
     (case try_create (b_pool s) (Some \<lparr>be_sequence = of_nat n, be_created_at = now\<rparr>) of
        (None, p) \<Rightarrow> None
      | (Some h, p) \<Rightarrow> Some (if handle_valid h then BPush n h else BCreate n, s\<lparr>b_pool := p\<rparr>))"
| "producer_step s now expired (BPush n h) =
     (case wait_push (b_queue s) h expired of
        None \<Rightarrow> None
      | Some (r, q) \<Rightarrow>
          Some (if r = QueuePushResult.pushed then next_event n else BRefused n h, s\<lparr>b_queue := q\<rparr>))"
| "producer_step s now expired (BRefused n h) =
     Some (BCreate n, s\<lparr>b_pool := snd (destroy (b_pool s) (h_object h))\<rparr>)"
| "producer_step s now expired BClose = Some (BJoin, s\<lparr>b_queue := close (b_queue s)\<rparr>)"
| "producer_step s now expired BJoin = (if b_consumer s = KExit then Some (BDone, s) else None)"
| "producer_step s now expired BDone = None"

definition next_turn :: "nat \<Rightarrow> consumer_pc" where
  "next_turn i = (if Suc i < kEventCount then KPop (Suc i) else KExit)"

text \<open>Dereferencing a handle whose object is not alive is undefined behaviour: there is no step.\<close>

fun consumer_step :: "benchmark \<Rightarrow> int \<Rightarrow> consumer_pc \<Rightarrow> (consumer_pc \<times> benchmark) option" where
  "consumer_step s now (KPop i) =
     (case wait_pop (b_queue s) of
        None \<Rightarrow> None
      | Some (None, q) \<Rightarrow> Some (KExit, s\<lparr>b_queue := q\<rparr>)
      | Some (Some h, q) \<Rightarrow>
          (case handle_deref (b_pool s) h of
             None \<Rightarrow> None
           | Some e \<Rightarrow>
               Some (KRelease i h,
                     s\<lparr>b_queue := q,
                       b_latencies_ns := (b_latencies_ns s)[i := word_of_int (now - be_created_at e)],
                       b_taken := b_taken s @ [be_sequence e]\<rparr>)))"
| "consumer_step s now (KRelease i h) =
     Some (next_turn i, s\<lparr>b_pool := snd (destroy (b_pool s) (h_object h))\<rparr>)"
| "consumer_step s now KExit = None"

datatype worker = Producer | Consumer

inductive benchmark_step :: "worker \<Rightarrow> benchmark \<Rightarrow> benchmark \<Rightarrow> bool" where
  produce: "producer_step s now expired (b_producer s) = Some (pc, s') \<Longrightarrow>
     benchmark_step Producer s (s'\<lparr>b_producer := pc\<rparr>)"
| consume: "consumer_step s now (b_consumer s) = Some (pc, s') \<Longrightarrow>
     benchmark_step Consumer s (s'\<lparr>b_consumer := pc\<rparr>)"

section \<open>Model: the report\<close>

text \<open>\<open>static_cast<std::size_t>\<close> of a finite non-negative value cuts the fraction off.\<close>

definition percentile :: "uint64 list \<Rightarrow> double \<Rightarrow> uint64" where
  "percentile latencies fraction =
     latencies ! nat \<lfloor>dval (dmul (double_of_int (int (length latencies - 1))) fraction)\<rfloor>"

definition total_latency :: "uint64 list \<Rightarrow> uint64" where
  "total_latency latencies = foldl (+) 0 latencies"

definition benchmark_report :: "benchmark \<Rightarrow> double \<Rightarrow> string list" where
  "benchmark_report s seconds =
     (let latencies = sort (b_latencies_ns s);
          p = pool_stats (b_pool s); q = queue_stats (b_queue s) in
      [''events='' @ decimal kEventCount,
       ''elapsed_seconds='' @ show_double seconds,
       ''throughput_events_per_second='' @ show_double (ddiv (double_of_int (int kEventCount)) seconds),
       ''latency_average_ns='' @ show_uint64 (total_latency latencies div of_nat kEventCount),
       ''latency_p50_ns='' @ show_uint64 (percentile latencies (to_double False (50 / 100))),
       ''latency_p95_ns='' @ show_uint64 (percentile latencies (to_double False (95 / 100))),
       ''latency_p99_ns='' @ show_uint64 (percentile latencies (to_double False (99 / 100))),
       ''latency_max_ns='' @ show_uint64 (last latencies),
       ''pool_high_watermark='' @ decimal (ps_high_watermark p) @ ''/'' @ decimal (ps_capacity p),
       ''queue_high_watermark='' @ decimal (st_high_watermark q) @ ''/'' @ decimal (st_capacity q),
       ''allocation_failures='' @ show_uint64 (ps_allocation_failures p)])"

definition benchmark_exit :: "benchmark \<Rightarrow> nat" where
  "benchmark_exit s = (if outstanding (b_pool s) = 0 then 0 else 1)"

section \<open>Invariant\<close>

text \<open>The number of events the queue has accepted, and the number of those the consumer has taken.\<close>

fun produced :: "producer_pc \<Rightarrow> nat" where
  "produced (BCreate n) = n"
| "produced (BPush n h) = n"
| "produced (BRefused n h) = n"
| "produced _ = kEventCount"

fun consumed :: "consumer_pc \<Rightarrow> nat" where
  "consumed (KPop i) = i"
| "consumed (KRelease i h) = Suc i"
| "consumed KExit = kEventCount"

fun producer_holds :: "producer_pc \<Rightarrow> pointer multiset" where
  "producer_holds (BPush n h) = {#h_object h#}"
| "producer_holds (BRefused n h) = {#h_object h#}"
| "producer_holds _ = {#}"

fun consumer_holds :: "consumer_pc \<Rightarrow> pointer multiset" where
  "consumer_holds (KRelease i h) = {#h_object h#}"
| "consumer_holds _ = {#}"

definition b_owners :: "benchmark \<Rightarrow> pointer multiset" where
  "b_owners s = producer_holds (b_producer s) + mset (map h_object (queue_items (b_queue s))) +
     consumer_holds (b_consumer s)"

definition number_at :: "BenchmarkEvent FixedObjectPool \<Rightarrow> Handle \<Rightarrow> uint64" where
  "number_at p h = be_sequence (the (live p (h_object h)))"

text \<open>The event in the hands of the producer carries the number of its turn.\<close>

fun producer_ok :: "BenchmarkEvent FixedObjectPool \<Rightarrow> producer_pc \<Rightarrow> bool" where
  "producer_ok p (BCreate n) = (n < kEventCount)"
| "producer_ok p (BPush n h) = (n < kEventCount \<and> number_at p h = of_nat n)"
| "producer_ok p (BRefused n h) = (n < kEventCount)"
| "producer_ok p _ = True"

fun consumer_ok :: "consumer_pc \<Rightarrow> bool" where
  "consumer_ok (KPop i) = (i < kEventCount)"
| "consumer_ok (KRelease i h) = (i < kEventCount)"
| "consumer_ok KExit = True"

definition b_resources :: "benchmark \<Rightarrow> bool" where
  "b_resources s \<longleftrightarrow>
     pool_inv (b_pool s) \<and> length (p_slots (b_pool s)) = 256 \<and>
     queue_inv (b_queue s) \<and> Capacity (b_queue s) = 128 \<and>
     owned_by (live (b_pool s)) (b_owners s) \<and> ps_invalid_releases (p_stats (b_pool s)) = 0 \<and>
     ps_allocation_failures (p_stats (b_pool s)) = 0"

definition b_order :: "benchmark \<Rightarrow> bool" where
  "b_order s \<longleftrightarrow>
     b_taken s @ map (number_at (b_pool s)) (queue_items (b_queue s)) =
       map of_nat [0..<produced (b_producer s)] \<and>
     length (b_taken s) = consumed (b_consumer s) \<and> length (b_latencies_ns s) = kEventCount"

definition b_phases :: "benchmark \<Rightarrow> bool" where
  "b_phases s \<longleftrightarrow>
     producer_ok (b_pool s) (b_producer s) \<and> consumer_ok (b_consumer s) \<and>
     (q_closed (b_queue s) \<longleftrightarrow> b_producer s \<in> {BJoin, BDone}) \<and>
     (b_producer s = BDone \<longrightarrow> b_consumer s = KExit)"

definition b_inv :: "benchmark \<Rightarrow> bool" where
  "b_inv s \<longleftrightarrow> b_resources s \<and> b_order s \<and> b_phases s"

lemma b_invD:
  assumes "b_inv s"
  shows "pool_inv (b_pool s)" and "queue_inv (b_queue s)" and "owned_by (live (b_pool s)) (b_owners s)"
    and "length (p_slots (b_pool s)) = 256" and "Capacity (b_queue s) = 128"
    and "ps_invalid_releases (p_stats (b_pool s)) = 0" and "ps_allocation_failures (p_stats (b_pool s)) = 0"
    and "b_order s" and "b_phases s"
  using assms by (simp_all add: b_inv_def b_resources_def)

lemma kEventCount_pos: "0 < kEventCount"
  by (simp add: kEventCount_def)

section \<open>The steps keep the invariant\<close>

lemma numbers_stable:
  assumes "\<And>h. h \<in> set hs \<Longrightarrow> live p' (h_object h) = live p (h_object h)"
  shows "map (number_at p') hs = map (number_at p) hs"
  using assms by (simp add: number_at_def)

lemma holds_size: "size (producer_holds pc) \<le> 1" "size (consumer_holds pc') \<le> 1"
  by (cases pc; simp) (cases pc'; simp)

text \<open>The queue, the producer and the consumer hold far fewer objects than the pool has.\<close>

lemma b_room:
  assumes inv: "b_inv s"
  shows "card (dom (live (b_pool s))) \<le> 130" and "p_free_head (b_pool s) \<noteq> length (p_slots (b_pool s))"
proof -
  note D = b_invD [OF inv]
  have "size (b_owners s) \<le> 130"
    using bq.bounded [OF D(2)] D(5) holds_size(1) [of "b_producer s"] holds_size(2) [of "b_consumer s"]
    by (simp add: b_owners_def)
  then show le: "card (dom (live (b_pool s))) \<le> 130" using op.own_size [OF D(1,3)] by simp
  then have "ps_in_use (p_stats (b_pool s)) \<noteq> length (p_slots (b_pool s))"
    using card_dom_live [OF D(1)] D(4) by simp
  then show "p_free_head (b_pool s) \<noteq> length (p_slots (b_pool s))" using pool_full_in_use [OF D(1)] by simp
qed

lemma create_inv:
  assumes inv: "b_inv s" and pc: "b_producer s = BCreate n"
  shows "\<exists>h p. producer_step s now expired (BCreate n) = Some (BPush n h, s\<lparr>b_pool := p\<rparr>) \<and>
    b_inv (s\<lparr>b_pool := p, b_producer := BPush n h\<rparr>)"
proof -
  let ?v = "\<lparr>be_sequence = of_nat n, be_created_at = now\<rparr>"
  note D = b_invD [OF inv]
  obtain a p where create: "create_object (b_pool s) ?v = (a, p)" by (cases "create_object (b_pool s) ?v")
  note own = op.own_create [OF D(1,3) create]
  have a: "a \<noteq> nullptr" using create_object_room(1) [OF D(1) b_room(2) [OF inv], of ?v] create by simp
  have p: "snd (try_create (b_pool s) (Some ?v)) = p" using create_object_eq [OF b_room(2) [OF inv], of ?v] create by simp
  have fail: "ps_allocation_failures (p_stats p) = 0"
    using create_failures [OF b_room(2) [OF inv], of ?v] p D(7) by simp
  let ?h = "\<lparr>h_pool = True, h_object = a\<rparr>"
  let ?t = "s\<lparr>b_pool := p, b_producer := BPush n ?h\<rparr>"
  have keeps: "live p b = live (b_pool s) b" if "b \<in># b_owners s" for b
    using op.create_keeps [OF D(1) create, of b] op.owner_not_null [OF D(1,3) that] by blast
  have "map (number_at p) (queue_items (b_queue s)) = map (number_at (b_pool s)) (queue_items (b_queue s))"
    by (rule numbers_stable, rule keeps) (auto simp: b_owners_def)
  then have "b_order ?t" using D(8) pc by (simp add: b_order_def del: map_eq_conv)
  moreover have "b_owners ?t = add_mset a (b_owners s)" using pc by (simp add: b_owners_def)
  then have "b_resources ?t" using own a fail D(2,4,5,6) by (auto simp: b_resources_def)
  moreover have "b_phases ?t"
    using D(9) pc op.create_live [OF D(1) create a] by (auto simp: b_phases_def number_at_def)
  moreover have "producer_step s now expired (BCreate n) = Some (BPush n ?h, s\<lparr>b_pool := p\<rparr>)"
    using a by (simp add: try_create_handle [OF D(1)] create Let_def handle_valid_def)
  ultimately show ?thesis unfolding b_inv_def by blast
qed

lemma push_inv:
  assumes inv: "b_inv s" and pc: "b_producer s = BPush n h"
    and step: "producer_step s now expired (BPush n h) = Some (pc', s')"
  shows "b_inv (s'\<lparr>b_producer := pc'\<rparr>)"
proof -
  note D = b_invD [OF inv]
  obtain r q where q: "wait_push (b_queue s) h expired = Some (r, q)"
    and s': "s' = s\<lparr>b_queue := q\<rparr>" "pc' = (if r = QueuePushResult.pushed then next_event n else BRefused n h)"
    using step by (auto split: option.splits)
  note fr = bq.put_frame [OF q]
  have n: "n < kEventCount" "number_at (b_pool s) h = of_nat n" using D(9) pc by (simp_all add: b_phases_def)
  show ?thesis
  proof (cases "r = QueuePushResult.pushed")
    case True
    have new: "queue_inv q" "queue_items q = queue_items (b_queue s) @ [h]" "\<not> q_closed (b_queue s)"
      using bq.put_pushed [OF D(2)] q True by simp_all
    have nxt: "produced (next_event n) = Suc n" "producer_holds (next_event n) = {#}"
      "producer_ok p (next_event n)" "next_event n \<notin> {BJoin, BDone}" for p
      using n(1) by (auto simp: next_event_def)
    show ?thesis
      unfolding b_inv_def
    proof (intro conjI)
      show "b_resources (s'\<lparr>b_producer := pc'\<rparr>)"
        using D(1,3,4,5,6,7) new(1,2) fr nxt(2) s' True pc by (simp add: b_resources_def b_owners_def)
      show "b_order (s'\<lparr>b_producer := pc'\<rparr>)"
        using D(8) new(2) nxt(1) s' True pc n(2) by (simp add: b_order_def)
      show "b_phases (s'\<lparr>b_producer := pc'\<rparr>)"
        using D(9) fr nxt(3,4) new(3) s' True by (auto simp: b_phases_def)
    qed
  next
    case False
    have new: "queue_inv q" "queue_items q = queue_items (b_queue s)"
      using bq.put_refused [OF D(2) q False] by simp_all
    show ?thesis
      unfolding b_inv_def
    proof (intro conjI)
      show "b_resources (s'\<lparr>b_producer := pc'\<rparr>)"
        using D(1,3,4,5,6,7) new fr s' False pc by (simp add: b_resources_def b_owners_def)
      show "b_order (s'\<lparr>b_producer := pc'\<rparr>)" using D(8) new s' False pc by (simp add: b_order_def)
      show "b_phases (s'\<lparr>b_producer := pc'\<rparr>)" using D(9) fr s' False pc by (auto simp: b_phases_def)
    qed
  qed
qed

text \<open>Both threads give objects back in the same way.\<close>

lemma release_owned:
  assumes inv: "b_inv s" and a: "a \<in># b_owners s"
  shows "pool_inv (snd (destroy (b_pool s) a))" and "length (p_slots (snd (destroy (b_pool s) a))) = 256"
    and "owned_by (live (snd (destroy (b_pool s) a))) (b_owners s - {#a#})"
    and "ps_invalid_releases (p_stats (snd (destroy (b_pool s) a))) = 0"
    and "ps_allocation_failures (p_stats (snd (destroy (b_pool s) a))) = 0"
    and "\<And>b. b \<in># b_owners s - {#a#} \<Longrightarrow> live (snd (destroy (b_pool s) a)) b = live (b_pool s) b"
proof -
  note D = b_invD [OF inv]
  obtain r p where d: "destroy (b_pool s) a = (r, p)" by (cases "destroy (b_pool s) a")
  note own = op.own_dispose [OF D(1,3) a d]
  show "pool_inv (snd (destroy (b_pool s) a))" and "length (p_slots (snd (destroy (b_pool s) a))) = 256"
    and "owned_by (live (snd (destroy (b_pool s) a))) (b_owners s - {#a#})"
    and "ps_invalid_releases (p_stats (snd (destroy (b_pool s) a))) = 0"
    using own d D(4,6) by simp_all metis
  show "ps_allocation_failures (p_stats (snd (destroy (b_pool s) a))) = 0" using D(7) by (simp add: destroy_failures)
  show "live (snd (destroy (b_pool s) a)) b = live (b_pool s) b" if "b \<in># b_owners s - {#a#}" for b
    using own d op.own_others [OF D(1,3) a that] by simp
qed

lemma refused_inv:
  assumes inv: "b_inv s" and pc: "b_producer s = BRefused n h"
  shows "b_inv (s\<lparr>b_pool := snd (destroy (b_pool s) (h_object h)), b_producer := BCreate n\<rparr>)"
proof -
  note D = b_invD [OF inv]
  let ?p = "snd (destroy (b_pool s) (h_object h))"
  let ?t = "s\<lparr>b_pool := ?p, b_producer := BCreate n\<rparr>"
  have a: "h_object h \<in># b_owners s" using pc by (simp add: b_owners_def)
  have rest: "b_owners s - {#h_object h#} = b_owners ?t" using pc by (simp add: b_owners_def)
  note rel = release_owned [OF inv a, unfolded rest]
  have "map (number_at ?p) (queue_items (b_queue s)) = map (number_at (b_pool s)) (queue_items (b_queue s))"
    by (rule numbers_stable, rule rel(6)) (auto simp: b_owners_def)
  then have "b_order ?t" using D(8) pc by (simp add: b_order_def del: map_eq_conv)
  moreover have "b_resources ?t" using rel(1-5) D(2,5) by (simp add: b_resources_def)
  moreover have "b_phases ?t" using D(9) pc by (auto simp: b_phases_def)
  ultimately show ?thesis by (simp add: b_inv_def)
qed

lemma producer_number_stable:
  assumes "producer_ok p pc" and "\<And>a. a \<in># producer_holds pc \<Longrightarrow> live p' a = live p a"
  shows "producer_ok p' pc"
  using assms by (cases pc) (simp_all add: number_at_def)

lemma release_inv:
  assumes inv: "b_inv s" and pc: "b_consumer s = KRelease i h"
  shows "b_inv (s\<lparr>b_pool := snd (destroy (b_pool s) (h_object h)), b_consumer := next_turn i\<rparr>)"
proof -
  note D = b_invD [OF inv]
  let ?p = "snd (destroy (b_pool s) (h_object h))"
  let ?t = "s\<lparr>b_pool := ?p, b_consumer := next_turn i\<rparr>"
  have i: "i < kEventCount" using D(9) pc by (simp add: b_phases_def)
  have nxt: "consumed (next_turn i) = Suc i" "consumer_holds (next_turn i) = {#}" "consumer_ok (next_turn i)"
    using i by (auto simp: next_turn_def)
  have a: "h_object h \<in># b_owners s" using pc by (simp add: b_owners_def)
  have rest: "b_owners s - {#h_object h#} = b_owners ?t" using pc nxt by (simp add: b_owners_def)
  note rel = release_owned [OF inv a, unfolded rest]
  have "map (number_at ?p) (queue_items (b_queue s)) = map (number_at (b_pool s)) (queue_items (b_queue s))"
    by (rule numbers_stable, rule rel(6)) (auto simp: b_owners_def)
  then have "b_order ?t" using D(8) pc nxt by (simp add: b_order_def del: map_eq_conv)
  moreover have "b_resources ?t" using rel(1-5) D(2,5) by (simp add: b_resources_def)
  moreover have "producer_ok ?p (b_producer s)"
    by (rule producer_number_stable [of "b_pool s"]) (use D(9) rel(6) in \<open>auto simp: b_phases_def b_owners_def\<close>)
  then have "b_phases ?t" using D(9) pc nxt by (auto simp: b_phases_def)
  ultimately show ?thesis by (simp add: b_inv_def)
qed

text \<open>The consumer never meets the end of the queue before it has all events.\<close>

lemma pop_inv:
  assumes inv: "b_inv s" and pc: "b_consumer s = KPop i"
    and step: "consumer_step s now (KPop i) = Some (pc', s')"
  shows "(\<exists>h. pc' = KRelease i h) \<and> b_inv (s'\<lparr>b_consumer := pc'\<rparr>)"
proof -
  note D = b_invD [OF inv]
  have i: "i < kEventCount" "length (b_taken s) = i" using D(8,9) pc by (simp_all add: b_phases_def b_order_def)
  obtain g q where q: "wait_pop (b_queue s) = Some (g, q)" using step by (auto split: option.splits)
  note fr = bq.get_frame [OF q]
  obtain h where g: "g = Some h"
  proof (cases g)
    case None
    then have empty: "queue_items (b_queue s) = []" "q_closed (b_queue s)" using bq.get_end [OF D(2)] q by blast+
    have "b_taken s = map of_nat [0..<produced (b_producer s)]" using D(8) empty(1) by (simp add: b_order_def)
    then have "i = produced (b_producer s)" using i(2) by simp
    moreover have "b_producer s = BJoin \<or> b_producer s = BDone" using D(9) empty(2) by (simp add: b_phases_def)
    ultimately show ?thesis using i(1) by auto
  qed (use that in blast)
  have new: "queue_inv q" "queue_items (b_queue s) = h # queue_items q"
    using bq.get_value [OF D(2)] q g by simp_all
  have "h_object h \<in># b_owners s" using new(2) by (simp add: b_owners_def)
  then obtain e where e: "live (b_pool s) (h_object h) = Some e" using op.owner_not_null [OF D(1,3)] by blast
  have s': "pc' = KRelease i h" "s' = s\<lparr>b_queue := q,
      b_latencies_ns := (b_latencies_ns s)[i := word_of_int (now - be_created_at e)],
      b_taken := b_taken s @ [be_sequence e]\<rparr>"
    using step q g e by simp_all
  let ?t = "s'\<lparr>b_consumer := pc'\<rparr>"
  have "b_owners ?t = b_owners s" using s' new(2) pc by (simp add: b_owners_def)
  then have "b_resources ?t" using D(1-7) s' new(1) fr by (simp add: b_resources_def)
  moreover have "b_order ?t" using D(8) s' new(2) e pc by (simp add: b_order_def number_at_def)
  moreover have "b_phases ?t" using D(9) s' fr i(1) pc by (auto simp: b_phases_def)
  ultimately show ?thesis using s'(1) by (simp add: b_inv_def)
qed

lemma close_inv:
  assumes inv: "b_inv s" and pc: "b_producer s = BClose"
  shows "b_inv (s\<lparr>b_queue := close (b_queue s), b_producer := BJoin\<rparr>)"
proof -
  note D = b_invD [OF inv]
  let ?t = "s\<lparr>b_queue := close (b_queue s), b_producer := BJoin\<rparr>"
  have "b_owners ?t = b_owners s" using pc bq.shut(2) [of "b_queue s"] by (simp add: b_owners_def)
  then have "b_resources ?t" using D(1-7) bq.shut(1,3) [of "b_queue s"] by (simp add: b_resources_def)
  moreover have "b_order ?t" using D(8) pc bq.shut(2) [of "b_queue s"] by (simp add: b_order_def)
  moreover have "b_phases ?t" using D(9) pc bq.shut(4) [of "b_queue s"] by (simp add: b_phases_def)
  ultimately show ?thesis by (simp add: b_inv_def)
qed

lemma join_inv:
  assumes inv: "b_inv s" and pc: "b_producer s = BJoin" "b_consumer s = KExit"
  shows "b_inv (s\<lparr>b_producer := BDone\<rparr>)"
  using b_invD [OF inv] pc by (simp add: b_inv_def b_resources_def b_order_def b_phases_def b_owners_def)

lemma b_inv_init:
  assumes "0 < base" and "0 < stride"
  shows "b_inv (benchmark_init base stride)"
proof -
  have "owned_by (live (FixedObjectPool_init 256 base stride :: BenchmarkEvent FixedObjectPool)) {#}"
    by (simp add: owned_by_def init_no_objects [OF _ assms])
  then have "b_resources (benchmark_init base stride)"
    by (simp add: b_resources_def benchmark_init_def b_owners_def pool_inv_init [OF _ assms] queue_inv_init
        PoolStats_default_def) (simp add: BoundedQueue_init_def)
  moreover have "b_order (benchmark_init base stride)" by (simp add: b_order_def benchmark_init_def)
  moreover have "b_phases (benchmark_init base stride)"
    by (simp add: b_phases_def benchmark_init_def kEventCount_pos) (simp add: BoundedQueue_init_def)
  ultimately show ?thesis by (simp add: b_inv_def)
qed

text \<open>The steps of the two threads, one case per position.\<close>

lemma producer_step_cases:
  assumes "b_inv s" and "benchmark_step Producer s t"
  obtains (create) n h p where "b_producer s = BCreate n" "t = s\<lparr>b_pool := p, b_producer := BPush n h\<rparr>" "b_inv t"
  | (push) n h r q where "b_producer s = BPush n h" "wait_push (b_queue s) h (r = QueuePushResult.timeout) = Some (r, q)"
      "t = s\<lparr>b_queue := q, b_producer := (if r = QueuePushResult.pushed then next_event n else BRefused n h)\<rparr>"
      "b_inv t"
  | (refused) n h where "b_producer s = BRefused n h" "b_inv t"
      "t = s\<lparr>b_pool := snd (destroy (b_pool s) (h_object h)), b_producer := BCreate n\<rparr>"
  | (close) "b_producer s = BClose" "t = s\<lparr>b_queue := close (b_queue s), b_producer := BJoin\<rparr>" "b_inv t"
  | (join) "b_producer s = BJoin" "b_consumer s = KExit" "t = s\<lparr>b_producer := BDone\<rparr>" "b_inv t"
proof -
  from assms(2) obtain now expired pc s' where
    step: "producer_step s now expired (b_producer s) = Some (pc, s')" and t: "t = s'\<lparr>b_producer := pc\<rparr>"
    by (auto elim: benchmark_step.cases)
  show thesis
  proof (cases "b_producer s")
    case (BCreate n)
    obtain h p where "producer_step s now expired (BCreate n) = Some (BPush n h, s\<lparr>b_pool := p\<rparr>)"
      "b_inv (s\<lparr>b_pool := p, b_producer := BPush n h\<rparr>)" using create_inv [OF assms(1) BCreate] by blast
    then show thesis using step t BCreate create [of n h p] by simp
  next
    case (BPush n h)
    then have st: "producer_step s now expired (BPush n h) = Some (pc, s')" using step by simp
    obtain r q where q: "wait_push (b_queue s) h expired = Some (r, q)"
      and s': "s' = s\<lparr>b_queue := q\<rparr>" "pc = (if r = QueuePushResult.pushed then next_event n else BRefused n h)"
      using st by (auto split: option.splits)
    have "wait_push (b_queue s) h (r = QueuePushResult.timeout) = Some (r, q)"
      using q by (auto simp: wait_push_def Let_def split: if_splits)
    moreover have "b_inv t" using push_inv [OF assms(1) BPush st] t by simp
    ultimately show thesis using push [OF BPush] s' t by simp
  next
    case (BRefused n h)
    then show thesis using refused [OF BRefused] refused_inv [OF assms(1) BRefused] step t by simp
  next
    case BClose
    then show thesis using close close_inv [OF assms(1) BClose] step t by simp
  next
    case BJoin
    then show thesis using join join_inv [OF assms(1) BJoin] step t by (simp split: if_splits)
  qed (use step in simp)
qed

lemma consumer_step_cases:
  assumes "b_inv s" and "benchmark_step Consumer s t"
  obtains (pop) i h where "b_consumer s = KPop i" "b_consumer t = KRelease i h" "b_producer t = b_producer s"
      "wait_pop (b_queue s) \<noteq> None" "b_inv t"
  | (release) i h where "b_consumer s = KRelease i h" "b_inv t"
      "t = s\<lparr>b_pool := snd (destroy (b_pool s) (h_object h)), b_consumer := next_turn i\<rparr>"
proof -
  from assms(2) obtain now pc s' where
    step: "consumer_step s now (b_consumer s) = Some (pc, s')" and t: "t = s'\<lparr>b_consumer := pc\<rparr>"
    by (auto elim: benchmark_step.cases)
  show thesis
  proof (cases "b_consumer s")
    case (KPop i)
    then have st: "consumer_step s now (KPop i) = Some (pc, s')" using step by simp
    have "b_producer s' = b_producer s" "wait_pop (b_queue s) \<noteq> None" using st by (auto split: option.splits)
    then show thesis using pop_inv [OF assms(1) KPop st] pop [OF KPop] t by auto
  next
    case (KRelease i h)
    then show thesis using release [OF KRelease] release_inv [OF assms(1) KRelease] step t by simp
  qed (use step in simp)
qed

lemma benchmark_step_inv: "b_inv s \<Longrightarrow> benchmark_step k s t \<Longrightarrow> b_inv t"
  by (cases k) (auto elim: producer_step_cases consumer_step_cases)

section \<open>Progress\<close>

text \<open>
  The consumer decides the pace: it is helpful whenever it has something to do, and the rank is then the
  number of its remaining steps. While it waits for the empty queue, or when it has ended, the producer is
  helpful and needs at most three steps to refill the queue or to finish.
\<close>

definition consumer_ready :: "benchmark \<Rightarrow> bool" where
  "consumer_ready s = (case b_consumer s of KPop i \<Rightarrow> queue_items (b_queue s) \<noteq> [] | KRelease i h \<Rightarrow> True | KExit \<Rightarrow> False)"

definition helpful_worker :: "benchmark \<Rightarrow> worker" where
  "helpful_worker s = (if consumer_ready s then Consumer else Producer)"

fun consumer_rank :: "consumer_pc \<Rightarrow> nat" where
  "consumer_rank (KPop i) = 2 * (kEventCount - i) + 1"
| "consumer_rank (KRelease i h) = 2 * (kEventCount - i)"
| "consumer_rank KExit = 0"

fun producer_rank :: "producer_pc \<Rightarrow> nat" where
  "producer_rank (BRefused n h) = 5"
| "producer_rank (BCreate n) = 4"
| "producer_rank (BPush n h) = 3"
| "producer_rank BClose = 2"
| "producer_rank BJoin = 1"
| "producer_rank BDone = 0"

definition benchmark_rank :: "benchmark \<Rightarrow> nat \<times> nat" where
  "benchmark_rank s = (consumer_rank (b_consumer s), if consumer_ready s then 0 else producer_rank (b_producer s))"

definition benchmark_over :: "benchmark \<Rightarrow> bool" where
  "benchmark_over s \<longleftrightarrow> b_producer s = BDone"

lemma b_balance:
  assumes "b_inv s"
  shows "consumed (b_consumer s) + length (queue_items (b_queue s)) = produced (b_producer s)"
proof -
  have "length (b_taken s @ map (number_at (b_pool s)) (queue_items (b_queue s))) = produced (b_producer s)"
    using b_invD(8) [OF assms] by (simp only: b_order_def length_map length_upt diff_zero)
  then show ?thesis using b_invD(8) [OF assms] by (simp add: b_order_def)
qed

text \<open>A consumer with nothing to do: it waits for a producer in its loop, or both have done their turns.\<close>

lemma idle_cases:
  assumes inv: "b_inv s" and idle: "\<not> consumer_ready s" and busy: "\<not> benchmark_over s"
  obtains (waits) i where "b_consumer s = KPop i" "queue_items (b_queue s) = []" "\<not> q_closed (b_queue s)"
      "b_producer s = BCreate i \<or> (\<exists>h. b_producer s = BPush i h \<or> b_producer s = BRefused i h)"
  | (ended) "b_consumer s = KExit" "b_producer s = BClose \<or> b_producer s = BJoin"
proof -
  note D = b_invD [OF inv]
  have ok: "producer_ok (b_pool s) (b_producer s)" "consumer_ok (b_consumer s)"
    "q_closed (b_queue s) \<longleftrightarrow> b_producer s \<in> {BJoin, BDone}" using D(9) by (simp_all add: b_phases_def)
  show thesis
  proof (cases "b_consumer s")
    case (KPop i)
    then have "queue_items (b_queue s) = []" "produced (b_producer s) = i" "i < kEventCount"
      using idle b_balance [OF inv] ok(2) by (simp_all add: consumer_ready_def)
    then show thesis using waits [OF KPop] ok(3) by (cases "b_producer s") simp_all
  next
    case KExit
    then have "kEventCount \<le> produced (b_producer s)" using b_balance [OF inv] by simp
    then show thesis using ended [OF KExit] ok(1) busy by (cases "b_producer s") (simp_all add: benchmark_over_def)
  qed (use idle in \<open>simp add: consumer_ready_def\<close>)
qed

lemma empty_has_room:
  assumes "b_inv s" and "queue_items (b_queue s) = []"
  shows "q_size (b_queue s) < Capacity (b_queue s)"
  using assms(2) b_invD(5) [OF assms(1)] by (simp add: queue_items_empty_iff)

lemma can_produce: "producer_step s now expired (b_producer s) \<noteq> None \<Longrightarrow> can_step benchmark_step Producer s"
  by (auto simp: can_step_def intro: benchmark_step.produce)

lemma can_consume: "consumer_step s now (b_consumer s) \<noteq> None \<Longrightarrow> can_step benchmark_step Consumer s"
  by (auto simp: can_step_def intro: benchmark_step.consume)

lemma ready_consumes:
  assumes inv: "b_inv s" and ready: "consumer_ready s"
  shows "can_step benchmark_step Consumer s"
proof (rule can_consume [of _ 0], cases "b_consumer s")
  case (KPop i)
  note D = b_invD [OF inv]
  have items: "queue_items (b_queue s) \<noteq> []" using ready KPop by (simp add: consumer_ready_def)
  obtain g q where q: "wait_pop (b_queue s) = Some (g, q)" using bq.get_ready [OF D(2)] items by fastforce
  obtain h where g: "g = Some h" using bq.get_end [OF D(2)] q items by (cases g) auto
  then have "h_object h \<in># b_owners s" using bq.get_value [OF D(2)] q by (simp add: b_owners_def)
  then obtain e where "live (b_pool s) (h_object h) = Some e" using op.owner_not_null [OF D(1,3)] by blast
  then show "consumer_step s 0 (b_consumer s) \<noteq> None" using KPop q g by simp
qed (use ready in \<open>simp_all add: consumer_ready_def\<close>)

lemma benchmark_helpful_enabled:
  assumes inv: "b_inv s" and busy: "\<not> benchmark_over s"
  shows "can_step benchmark_step (helpful_worker s) s"
proof (cases "consumer_ready s")
  case False
  have "producer_step s 0 False (b_producer s) \<noteq> None"
    using inv False busy
  proof (cases rule: idle_cases)
    case (waits i)
    then show ?thesis
      using create_inv [OF inv, of i 0 False] wait_push_None_iff [of "b_queue s" _ False]
        empty_has_room [OF inv waits(2)] by (auto split: option.splits)
  qed auto
  then show ?thesis using False by (simp add: helpful_worker_def can_produce)
qed (simp add: helpful_worker_def ready_consumes [OF inv])

text \<open>A step of the producer leaves a ready consumer ready, and brings the producer of an idle one forward.\<close>

lemma producer_effect:
  assumes inv: "b_inv s" and busy: "\<not> benchmark_over s" and step: "benchmark_step Producer s t"
  shows "if consumer_ready s then benchmark_rank t = benchmark_rank s \<and> consumer_ready t
    else benchmark_rank t < benchmark_rank s"
proof -
  have same: "b_consumer t = b_consumer s"
    using inv step by (cases rule: producer_step_cases) simp_all
  have more: "queue_items (b_queue t) = [] \<Longrightarrow> queue_items (b_queue s) = []"
    using inv step
  proof (cases rule: producer_step_cases)
    case (push n h r q)
    then show "queue_items (b_queue t) = [] \<Longrightarrow> queue_items (b_queue s) = []"
      using bq.put_pushed [OF b_invD(2) [OF inv]] bq.put_refused [OF b_invD(2) [OF inv] push(2)]
      by (cases "r = QueuePushResult.pushed") auto
  qed simp_all
  show ?thesis
  proof (cases "consumer_ready s")
    case True
    then have "consumer_ready t" using same more by (auto simp: consumer_ready_def split: consumer_pc.splits)
    then show ?thesis using True same by (simp add: benchmark_rank_def)
  next
    case False
    have "consumer_ready t \<or> producer_rank (b_producer t) < producer_rank (b_producer s)"
      using inv step
    proof (cases rule: producer_step_cases)
      case (push n h r q)
      obtain i where i: "b_consumer s = KPop i" "queue_items (b_queue s) = []" "\<not> q_closed (b_queue s)"
        using inv False busy by (cases rule: idle_cases) (use push(1) in auto)
      then have "r = QueuePushResult.pushed"
        using push(2) empty_has_room [OF inv i(2)] by (auto simp: wait_push_def Let_def)
      then have "queue_items (b_queue t) \<noteq> []" using bq.put_pushed [OF b_invD(2) [OF inv]] push(2,3) by auto
      then show ?thesis using same i(1) by (simp add: consumer_ready_def)
    qed simp_all
    moreover have "0 < producer_rank (b_producer s)" using busy by (cases "b_producer s") (simp_all add: benchmark_over_def)
    ultimately show ?thesis using False same by (auto simp: benchmark_rank_def)
  qed
qed

lemma consumer_effect:
  assumes inv: "b_inv s" and step: "benchmark_step Consumer s t"
  shows "benchmark_rank t < benchmark_rank s"
  using inv step
proof (cases rule: consumer_step_cases)
  case (release i h)
  then have "i < kEventCount" using b_invD(9) [OF inv] by (simp add: b_phases_def)
  then have "consumer_rank (next_turn i) < consumer_rank (KRelease i h)" by (auto simp: next_turn_def)
  then show ?thesis using release by (simp add: benchmark_rank_def less_prod_def')
qed (simp add: benchmark_rank_def less_prod_def')

interpretation pipeline: ranked_progress benchmark_step b_inv benchmark_over benchmark_rank helpful_worker
proof (unfold_locales, goal_cases)
  case (1 s k t)
  then show ?case using benchmark_step_inv by blast
next
  case (2 s)
  then show ?case by (rule benchmark_helpful_enabled)
next
  case (3 s t)
  then show ?case
    using producer_effect [of s t] consumer_effect [of s t] by (auto simp: helpful_worker_def split: if_splits)
next
  case (4 s k t)
  then show ?case
    using producer_effect [of s t] consumer_effect [of s t] by (cases k) (auto simp: helpful_worker_def split: if_splits)
qed

text \<open>At the end both threads have ended, for good, and everything has been given back.\<close>

lemma over_final:
  assumes inv: "b_inv s" and over: "benchmark_over s"
  shows "b_consumer s = KExit" and "\<not> can_step benchmark_step k s" and "b_taken s = map of_nat [0..<kEventCount]"
    and "outstanding (b_pool s) = 0"
proof -
  note D = b_invD [OF inv]
  have end_pc: "b_producer s = BDone" using over by (simp add: benchmark_over_def)
  then show exit: "b_consumer s = KExit" using D(9) by (simp add: b_phases_def)
  show "\<not> can_step benchmark_step k s"
    using end_pc exit by (auto simp: can_step_def elim!: benchmark_step.cases)
  have empty: "queue_items (b_queue s) = []" using b_balance [OF inv] end_pc exit by (simp add: queue_items_empty_iff)
  then show "b_taken s = map of_nat [0..<kEventCount]" using D(8) end_pc by (simp add: b_order_def)
  have "b_owners s = {#}" using end_pc exit empty by (simp add: b_owners_def)
  then have "card (dom (live (b_pool s))) = 0" using op.own_size [OF D(1,3)] by simp
  then show "outstanding (b_pool s) = 0" using card_dom_live [OF D(1)] by (simp add: outstanding_def pool_stats_def)
qed

lemma over_stays:
  assumes run: "is_run benchmark_step mover run" and "b_inv (run j)" and "benchmark_over (run j)" and "j \<le> i"
  shows "run i = run j"
proof -
  have "run (j + n) = run j" for n
    by (rule run_invariant [OF run, of "\<lambda>s. s = run j"])
       (use over_final(2) [OF assms(2,3)] in \<open>auto simp: can_step_def\<close>)
  then show ?thesis using assms(4) by (metis le_add_diff_inverse)
qed

section \<open>The report\<close>

text \<open>
  The fractions are doubles, and so is their product with the last index; the error is far too small to
  reach the next index.
\<close>

lemma percent_close:
  assumes "0 < p" and "p < 100"
  shows "\<bar>dval (dmul (double_of_int 49999) (to_double False (of_int p / 100))) - 49999 * of_int p / 100\<bar> < 1 / 1000"
proof -
  let ?m = "of_int p / 100 :: rat"
  define r where "r = round_mag ?m"
  have p: "1 \<le> (of_int p :: rat)" "(of_int p :: rat) < 100" using assms by simp_all
  have d: "to_double False ?m = DFin False r" and r: "\<bar>r - ?m\<bar> \<le> 1 / 2 ^ 54"
    using to_double_close [of ?m 0] p by (simp_all add: r_def)
  have "(1::rat) / 2 ^ 54 \<le> 1 / 10000000000" by simp
  then have r: "\<bar>r - ?m\<bar> \<le> 1 / 10000000000" using r by linarith
  then have r': "1 / 200 < r" "r < 101 / 100" using p by linarith+
  have "49999 * r < 2 ^ 16" using r'(2) by simp
  then have e: "to_double False (49999 * r) = DFin False (round_mag (49999 * r))"
    and t: "\<bar>round_mag (49999 * r) - 49999 * r\<bar> \<le> 2 ^ 16 / 2 ^ 54"
    using to_double_close [of "49999 * r" 16] r'(1) by simp_all
  have "(2::rat) ^ 16 / 2 ^ 54 \<le> 1 / 10000000000" by simp
  then have t: "\<bar>round_mag (49999 * r) - 49999 * r\<bar> \<le> 1 / 10000000000" using t by linarith
  have "dval (dmul (double_of_int 49999) (to_double False ?m)) = round_mag (49999 * r)"
    by (simp add: d e double_of_int_def)
  then show ?thesis using t r by linarith
qed

text \<open>So the index is the rank of the percentile, cut off.\<close>

lemma percentile_at:
  assumes "length xs = kEventCount" and "0 < p" "p < 100"
    and "100 * int k + 1 \<le> 49999 * p" "49999 * p + 1 \<le> 100 * (int k + 1)"
  shows "percentile xs (to_double False (of_int p / 100)) = xs ! k"
proof -
  let ?v = "dval (dmul (double_of_int 49999) (to_double False (of_int p / 100)))"
  have "rat_of_int (100 * int k + 1) \<le> of_int (49999 * p)" "rat_of_int (49999 * p + 1) \<le> of_int (100 * (int k + 1))"
    using assms(4,5) by (simp_all only: of_int_le_iff)
  then have "100 * of_nat k + 1 \<le> 49999 * (of_int p :: rat)" "49999 * (of_int p :: rat) + 1 \<le> 100 * (of_nat k + 1)"
    by simp_all
  then have "of_nat k + 1 / 100 \<le> 49999 * of_int p / (100 :: rat)" "49999 * of_int p / 100 \<le> (of_nat k + 99 / 100 :: rat)"
    by simp_all
  then have "of_nat k \<le> ?v" "?v < of_nat k + 1" using percent_close [OF assms(2,3)] by linarith+
  then have "\<lfloor>?v\<rfloor> = int k" by (simp add: floor_unique)
  then show ?thesis using assms(1) by (simp add: percentile_def kEventCount_def)
qed

lemma report_percentiles:
  assumes "length xs = kEventCount"
  shows "percentile xs (to_double False (50 / 100)) = xs ! 24999"
    and "percentile xs (to_double False (95 / 100)) = xs ! 47499"
    and "percentile xs (to_double False (99 / 100)) = xs ! 49499"
  using percentile_at [OF assms, of 50 24999] percentile_at [OF assms, of 95 47499]
    percentile_at [OF assms, of 99 49499] by simp_all


text \<open>
  What the indices mean: at least half of the latencies are not above the reported median, 95 and 99 of 100
  not above the two other values, and the four reported values are in order.
\<close>

lemma reported_latencies:
  assumes "length (b_latencies_ns s) = kEventCount"
  defines "below v \<equiv> count_if (\<lambda>x. x \<le> v) (b_latencies_ns s)"
    and "xs \<equiv> sort (b_latencies_ns s)"
  shows "25000 \<le> below (percentile xs (to_double False (50 / 100)))"
    and "47500 \<le> below (percentile xs (to_double False (95 / 100)))"
    and "49500 \<le> below (percentile xs (to_double False (99 / 100)))"
    and "percentile xs (to_double False (50 / 100)) \<le> percentile xs (to_double False (95 / 100))"
    and "percentile xs (to_double False (95 / 100)) \<le> percentile xs (to_double False (99 / 100))"
    and "percentile xs (to_double False (99 / 100)) \<le> last xs"
proof -
  have len: "length xs = kEventCount" using assms(1) by (simp add: xs_def)
  note at = report_percentiles [OF len]
  have below: "k < below (xs ! k)" if "k < 50000" for k
    using count_if_sorted [of k "b_latencies_ns s"] that assms(1) by (simp add: below_def xs_def kEventCount_def)
  show "25000 \<le> below (percentile xs (to_double False (50 / 100)))"
    "47500 \<le> below (percentile xs (to_double False (95 / 100)))"
    "49500 \<le> below (percentile xs (to_double False (99 / 100)))"
    unfolding at using below [of 24999] below [of 47499] below [of 49499] by simp_all
  have mono: "xs ! i \<le> xs ! j" if "i \<le> j" "j < 50000" for i j
    using sorted_nth_mono [of xs i j] that len by (simp add: xs_def kEventCount_def)
  have "xs \<noteq> []" using len kEventCount_pos by auto
  then have last: "last xs = xs ! 49999" using len by (simp add: last_conv_nth kEventCount_def)
  show "percentile xs (to_double False (50 / 100)) \<le> percentile xs (to_double False (95 / 100))"
    "percentile xs (to_double False (95 / 100)) \<le> percentile xs (to_double False (99 / 100))"
    "percentile xs (to_double False (99 / 100)) \<le> last xs"
    unfolding at last by (rule mono; simp)+
qed

section \<open>Properties\<close>

text \<open>
  C39. Under any fair scheduling the benchmark ends, whatever the clock shows and however often a push times
  out: the consumer has taken the 50000 events, each once and in the order of their creation, both threads
  have ended and stay so, the pool has never been exhausted, every object has been given back, and the exit
  code is 0.
\<close>

theorem benchmark_completes:
  assumes "0 < base" and "0 < stride" and "run 0 = benchmark_init base stride"
    and "is_run benchmark_step mover run"
    and "fair_to benchmark_step Producer mover run" and "fair_to benchmark_step Consumer mover run"
  shows "\<exists>j. \<forall>i \<ge> j. run i = run j \<and> b_producer (run j) = BDone \<and> b_consumer (run j) = KExit \<and>
    b_taken (run j) = map of_nat [0..<kEventCount] \<and> length (b_latencies_ns (run j)) = kEventCount \<and>
    ps_allocation_failures (pool_stats (b_pool (run j))) = 0 \<and> benchmark_exit (run j) = 0"
proof -
  have inv0: "b_inv (run 0)" using b_inv_init [OF assms(1,2)] assms(3) by simp
  have fair: "fair_to benchmark_step k mover run" for k using assms(5,6) by (cases k) simp_all
  obtain j where over: "benchmark_over (run j)"
    using pipeline.fair_run_reaches_goal [OF assms(4) inv0 fair] by blast
  have "b_inv (run (0 + j))" by (rule run_invariant [OF assms(4), of b_inv, OF benchmark_step_inv inv0])
  then have inv: "b_inv (run j)" by simp
  note fin = over_final [OF inv over]
  have "b_producer (run j) = BDone \<and> b_consumer (run j) = KExit \<and>
    b_taken (run j) = map of_nat [0..<kEventCount] \<and> length (b_latencies_ns (run j)) = kEventCount \<and>
    ps_allocation_failures (pool_stats (b_pool (run j))) = 0 \<and> benchmark_exit (run j) = 0"
    using fin over b_invD(7,8) [OF inv]
    by (simp add: benchmark_exit_def benchmark_over_def b_order_def pool_stats_def)
  then show ?thesis using over_stays [OF assms(4) inv over] by blast
qed

theorem benchmark_completes_witness:
  "\<exists>run mover j. run 0 = benchmark_init 4096 64 \<and> is_run benchmark_step mover run \<and>
     b_taken (run j) = map of_nat [0..<kEventCount] \<and> benchmark_exit (run j) = 0"
proof -
  have inv: "b_inv (benchmark_init 4096 64)" by (rule b_inv_init) simp_all
  let ?move = "\<lambda>s t. \<exists>k. benchmark_step k s t"
  obtain t where t: "(\<lambda>s t. b_inv s \<and> \<not> benchmark_over s \<and> benchmark_step (helpful_worker s) s t)\<^sup>*\<^sup>*
      (benchmark_init 4096 64) t" "benchmark_over t"
    using pipeline.helpful_path [OF inv] by blast
  have path: "?move\<^sup>*\<^sup>* (benchmark_init 4096 64) t" using t(1) by (rule rtranclp_mono [THEN predicate2D, rotated]) blast
  have "b_inv t" using path inv by (induction rule: rtranclp_induct) (auto intro: benchmark_step_inv)
  then have stuck: "\<not> can_step benchmark_step k t" for k using over_final(2) t(2) by blast
  obtain mover run where run: "is_run benchmark_step mover run"
    "\<forall>k \<in> UNIV. fair_to benchmark_step k mover run" "run 0 = benchmark_init 4096 64"
    using finite_run_fair [of benchmark_step, OF path stuck] by blast
  obtain j where "\<forall>i \<ge> j. run i = run j \<and> b_producer (run j) = BDone \<and> b_consumer (run j) = KExit \<and>
    b_taken (run j) = map of_nat [0..<kEventCount] \<and> length (b_latencies_ns (run j)) = kEventCount \<and>
    ps_allocation_failures (pool_stats (b_pool (run j))) = 0 \<and> benchmark_exit (run j) = 0"
    using benchmark_completes [OF _ _ run(3,1)] run(2) by auto
  then show ?thesis using run by blast
qed

end
