(* ===== verification/Command_Server.thy ===== *)
theory Command_Server
  imports Command Unique_Fd
begin

text \<open>
  The local command server of \<open>src/linux/unix_command_server.cpp\<close> (declared in
  \<open>include/edge_sentinel/linux/unix_command_server.hpp\<close>). The kernel's answers are arguments: for
  \<open>start\<close> and \<open>stop\<close> a record of the failures, for the loops the list of what happens. The file system is
  the one entry the server's path names; the system does not change it while \<open>start\<close> runs. The handler
  of requests is an argument with a state of its own.
\<close>

section \<open>Model: starting and stopping\<close>

definition ENOENT :: int where
  "ENOENT = 2"

definition EADDRINUSE :: int where
  "EADDRINUSE = 98"

text \<open>\<open>S_IRUSR | S_IWUSR\<close>.\<close>

definition mode_0600 :: nat where
  "mode_0600 = 256 + 128"

text \<open>\<open>sizeof(sockaddr_un::sun_path)\<close> on Linux.\<close>

definition sun_path_size :: nat where
  "sun_path_size = 108"

record path_node =
  pn_is_socket :: bool
  pn_uid :: nat
  pn_mode :: nat

record world =
  w_fds :: fd_table
  w_node :: "path_node option"

text \<open>
  The failures of the system calls, if any; \<open>socket\<close> answers with a descriptor and an error number,
  \<open>bind\<close> creates the entry with a mode that depends on the process's mask. The two calls of \<open>unlink\<close> in \<open>start\<close>
  have answers of their own: \<open>so_unlink\<close> for the old socket and \<open>so_unlink_bound\<close> for the one just bound.
\<close>

record server_os =
  so_euid :: nat
  so_lstat :: "int option"
  so_unlink :: "int option"
  so_socket :: "int \<times> int"
  so_bind :: "int option"
  so_bind_mode :: nat
  so_chmod :: "int option"
  so_listen :: "int option"
  so_unlink_bound :: "int option"
  so_strerror :: "int \<Rightarrow> string"

record UnixCommandServer =
  sv_socket_path :: string
  sv_listener :: UniqueFd
  sv_thread :: bool
  sv_running :: bool
  sv_owns_socket_path :: bool

definition UnixCommandServer_init :: "string \<Rightarrow> UnixCommandServer" where
  "UnixCommandServer_init socket_path =
     \<lparr>sv_socket_path = socket_path, sv_listener = UniqueFd_default, sv_thread = False,
      sv_running = False, sv_owns_socket_path = False\<rparr>"

text \<open>The answers of the calls that look at or change the path.\<close>

definition lstat_path :: "server_os \<Rightarrow> world \<Rightarrow> int + path_node" where
  "lstat_path os w =
     (case so_lstat os of
        Some errno \<Rightarrow> Inl errno
      | None \<Rightarrow> (case w_node w of None \<Rightarrow> Inl ENOENT | Some n \<Rightarrow> Inr n))"

definition bind_path :: "server_os \<Rightarrow> world \<Rightarrow> int option \<times> world" where
  "bind_path os w =
     (case so_bind os of
        Some errno \<Rightarrow> (Some errno, w)
      | None \<Rightarrow>
          (if w_node w \<noteq> None then (Some EADDRINUSE, w)
           else (None, w\<lparr>w_node := Some \<lparr>pn_is_socket = True, pn_uid = so_euid os, pn_mode = so_bind_mode os\<rparr>\<rparr>)))"

definition chmod_path :: "server_os \<Rightarrow> world \<Rightarrow> int option \<times> world" where
  "chmod_path os w =
     (case so_chmod os of
        Some errno \<Rightarrow> (Some errno, w)
      | None \<Rightarrow> (None, w\<lparr>w_node := map_option (\<lambda>n. n\<lparr>pn_mode := mode_0600\<rparr>) (w_node w)\<rparr>))"

text \<open>The first half of \<open>start\<close>: an old socket of the same user is removed, anything else is refused.\<close>

definition clear_path :: "server_os \<Rightarrow> world \<Rightarrow> string option \<times> world" where
  "clear_path os w =
     (case lstat_path os w of
        Inr existing \<Rightarrow>
          (if \<not> pn_is_socket existing \<or> pn_uid existing \<noteq> so_euid os
           then (Some ''refusing_to_remove_unowned_path'', w)
           else case so_unlink os of
               Some errno \<Rightarrow> (Some (so_strerror os errno), w)
             | None \<Rightarrow> (None, w\<lparr>w_node := None\<rparr>))
      | Inl errno \<Rightarrow> if errno \<noteq> ENOENT then (Some (so_strerror os errno), w) else (None, w))"

text \<open>The second half: socket, bind, chmod and listen. The result is the error message, if any.\<close>

definition open_listener ::
    "server_os \<Rightarrow> UnixCommandServer \<Rightarrow> world \<Rightarrow> string option \<times> UnixCommandServer \<times> world" where
  "open_listener os sv w =
     (let (answer, errno) = so_socket os;
          (d, t) = open_fd answer (w_fds w);
          w = w\<lparr>w_fds := t\<rparr>;
          candidate = UniqueFd_of d;
          drop_candidate = (\<lambda>w. w\<lparr>w_fds := fd_destroy candidate (w_fds w)\<rparr>) in
      if \<not> fd_valid candidate then (Some (so_strerror os errno), sv, drop_candidate w)
      else case bind_path os w of
        (Some errno, w) \<Rightarrow> (Some (so_strerror os errno), sv, drop_candidate w)
      | (None, w) \<Rightarrow>
          (let sv = sv\<lparr>sv_owns_socket_path := True\<rparr>;
               (failed, w) = chmod_path os w;
               failed = (case failed of Some errno \<Rightarrow> Some errno | None \<Rightarrow> so_listen os) in
           case failed of
             Some errno \<Rightarrow>
               (Some (so_strerror os errno), sv\<lparr>sv_owns_socket_path := False\<rparr>,
                drop_candidate (w\<lparr>w_node := if so_unlink_bound os = None then None else w_node w\<rparr>))
           | None \<Rightarrow>
               (let (listener, candidate, t) = fd_move_assign (sv_listener sv) candidate (w_fds w)
                in (None, sv\<lparr>sv_listener := listener, sv_running := True, sv_thread := True\<rparr>,
                    w\<lparr>w_fds := fd_destroy candidate t\<rparr>))))"

definition server_start ::
    "server_os \<Rightarrow> UnixCommandServer \<Rightarrow> world \<Rightarrow> string option \<times> UnixCommandServer \<times> world" where
  "server_start os sv w =
     (if sv_running sv then (Some ''server_already_running'', sv, w)
      else if sv_socket_path sv = [] \<or> sun_path_size \<le> length (sv_socket_path sv)
      then (Some ''invalid_socket_path'', sv, w)
      else case clear_path os w of
        (Some message, w) \<Rightarrow> (Some message, sv, w)
      | (None, w) \<Rightarrow> open_listener os sv w)"

text \<open>Stopping: the thread is joined, the listener closed, the path removed if that succeeds.\<close>

definition server_stop :: "server_os \<Rightarrow> UnixCommandServer \<Rightarrow> world \<Rightarrow> UnixCommandServer \<times> world" where
  "server_stop os sv w =
     (if \<not> sv_running sv then (sv, w)
      else
        let sv = sv\<lparr>sv_running := False, sv_thread := False\<rparr>;
            (listener, t) = fd_reset (sv_listener sv) (- 1) (w_fds w);
            sv = sv\<lparr>sv_listener := listener\<rparr>;
            w = w\<lparr>w_fds := t\<rparr>
        in if sv_owns_socket_path sv
           then (sv\<lparr>sv_owns_socket_path := False\<rparr>,
                 if so_unlink os = None then w\<lparr>w_node := None\<rparr> else w)
           else (sv, w))"

definition server_destroy :: "server_os \<Rightarrow> UnixCommandServer \<Rightarrow> world \<Rightarrow> UnixCommandServer \<times> world" where
  "server_destroy os sv w = server_stop os sv w"

definition server_socket_path :: "UnixCommandServer \<Rightarrow> string" where
  "server_socket_path sv = sv_socket_path sv"

section \<open>Model: serving a client\<close>

text \<open>
  What one turn of the receiving loop meets: \<open>poll\<close> or \<open>recv\<close> is interrupted; \<open>poll\<close> times out, fails or
  reports something else than input; \<open>recv\<close> fails or finds the end of the stream; \<open>recv\<close> delivers bytes,
  of which it stores as many as fit.
\<close>

datatype recv_io =
    Interrupted
  | PollFailed
  | RecvEnd
  | RecvBytes string

datatype received =
    Waiting
  | Abandoned
  | Request string

definition buffer_size :: nat where
  "buffer_size = kMaximumCommandLength + 2"

fun receive :: "string \<Rightarrow> recv_io list \<Rightarrow> received" where
  "receive buffer [] = (if length buffer < buffer_size then Waiting else Request buffer)"
| "receive buffer (io # ios) =
     (if \<not> length buffer < buffer_size then Request buffer
      else case io of
        Interrupted \<Rightarrow> receive buffer ios
      | PollFailed \<Rightarrow> Abandoned
      | RecvEnd \<Rightarrow> Request buffer
      | RecvBytes bytes \<Rightarrow>
          (let got = take (buffer_size - length buffer) bytes; buffer = buffer @ got in
           if got = [] then Request buffer
           else if CHR 0x0A \<in> set buffer then Request buffer
           else receive buffer ios))"

text \<open>The answer to a request, and the new state of the handler; no answer to an empty request.\<close>

definition respond :: "('s \<Rightarrow> string \<Rightarrow> string \<times> 's) \<Rightarrow> 's \<Rightarrow> string \<Rightarrow> string option \<times> 's" where
  "respond handler st request =
     (if request = [] then (None, st)
      else if kMaximumCommandLength < length request then (Some (''error=too_long'' @ [CHR 0x0A]), st)
      else
        let (response, st) = handler st request
        in (Some (if response = [] \<or> last response \<noteq> CHR 0x0A then response @ [CHR 0x0A] else response), st))"

text \<open>
  The sending loop, which the client's program has as well: the kernel answers with the number of bytes
  taken, or a number that is not positive if it fails. The result is what was sent and what was not;
  the flag tells whether the loop is over, otherwise it waits in \<open>send\<close>.
\<close>

fun send_loop :: "string \<Rightarrow> int list \<Rightarrow> bool \<times> string \<times> string" where
  "send_loop msg [] = (msg = [], [], msg)"
| "send_loop msg (n # counts) =
     (if msg = [] then (True, [], [])
      else if n \<le> 0 then (True, [], msg)
      else let (over, sent, rest) = send_loop (drop (nat n) msg) counts
           in (over, take (nat n) msg @ sent, rest))"

text \<open>One client: \<open>None\<close> if the server still waits, else the bytes sent and the handler's state.\<close>

definition serve_client ::
    "('s \<Rightarrow> string \<Rightarrow> string \<times> 's) \<Rightarrow> 's \<Rightarrow> recv_io list \<Rightarrow> int list \<Rightarrow> (string \<times> 's) option" where
  "serve_client handler st ios counts =
     (case receive [] ios of
        Waiting \<Rightarrow> None
      | Abandoned \<Rightarrow> Some ([], st)
      | Request request \<Rightarrow>
          (case respond handler st request of
             (None, st) \<Rightarrow> Some ([], st)
           | (Some response, st) \<Rightarrow>
               (let (over, sent, rest) = send_loop response counts in if over then Some (sent, st) else None)))"

text \<open>
  The accepting loop. In each turn a stop has been requested, or nothing is to be accepted in time, or
  \<open>accept4\<close> fails (with an error number, while the server is running or not), or a client is accepted
  on a descriptor and served. The result is the list of the bytes sent to each client, whether the loop
  is over, the handler's state and the descriptors.
\<close>

datatype accept_io =
    StopRequested
  | NothingToAccept
  | AcceptFailed int bool
  | Client int "recv_io list" "int list"

fun accept_loop ::
    "('s \<Rightarrow> string \<Rightarrow> string \<times> 's) \<Rightarrow> 's \<Rightarrow> fd_table \<Rightarrow> accept_io list \<Rightarrow> string list \<times> bool \<times> 's \<times> fd_table" where
  "accept_loop handler st t [] = ([], False, st, t)"
| "accept_loop handler st t (StopRequested # es) = ([], True, st, t)"
| "accept_loop handler st t (NothingToAccept # es) = accept_loop handler st t es"
| "accept_loop handler st t (AcceptFailed errno running # es) =
     (if errno = EINTR then accept_loop handler st t es
      else if \<not> running then ([], True, st, t)
      else accept_loop handler st t es)"
| "accept_loop handler st t (Client answer ios counts # es) =
     (let (d, t) = open_fd answer t; client = UniqueFd_of d in
      if \<not> fd_valid client then accept_loop handler st t es
      else case serve_client handler st ios counts of
        None \<Rightarrow> ([], False, st, t)
      | Some (sent, st) \<Rightarrow>
          (let (outs, over, st, t) = accept_loop handler st (fd_destroy client t) es
           in (sent # outs, over, st, t)))"

section \<open>Specification\<close>

text \<open>The bytes a client sends, in pieces, possibly with interrupted system calls in between.\<close>

definition pieces :: "recv_io list \<Rightarrow> bool" where
  "pieces ios \<longleftrightarrow> (\<forall>io \<in> set ios. io = Interrupted \<or> (\<exists>bytes. io = RecvBytes bytes \<and> bytes \<noteq> []))"

fun payload :: "recv_io list \<Rightarrow> string" where
  "payload [] = []"
| "payload (RecvBytes bytes # ios) = bytes @ payload ios"
| "payload (_ # ios) = payload ios"

definition terminated :: "string \<Rightarrow> string" where
  "terminated response =
     (if response = [] \<or> last response \<noteq> CHR 0x0A then response @ [CHR 0x0A] else response)"

definition too_long_response :: string where
  "too_long_response = ''error=too_long'' @ [CHR 0x0A]"

section \<open>Receiving and sending\<close>

lemma buffer_size_eq: "buffer_size = 258"
  by (simp add: buffer_size_def kMaximumCommandLength_def)

lemma receive_full: "\<not> length buffer < buffer_size \<Longrightarrow> receive buffer ios = Request buffer"
  by (cases ios) simp_all

text \<open>What one piece does: the request is complete with a line end or a full buffer.\<close>

lemma receive_piece:
  assumes "length buffer < buffer_size" and "bytes \<noteq> []"
  shows "receive buffer (RecvBytes bytes # ios) =
    (if CHR 0x0A \<in> set (take buffer_size (buffer @ bytes)) \<or> buffer_size \<le> length (buffer @ bytes)
     then Request (take buffer_size (buffer @ bytes)) else receive (buffer @ bytes) ios)"
proof (cases "buffer_size \<le> length (buffer @ bytes)")
  case True
  then have "receive (take buffer_size (buffer @ bytes)) ios = Request (take buffer_size (buffer @ bytes))"
    by (intro receive_full) simp
  then show ?thesis using assms True by (simp add: Let_def)
qed (use assms in \<open>simp add: Let_def\<close>)

text \<open>Whatever arrives, the buffer does not overflow, and a request is what was sent so far.\<close>

lemma receive_bounded:
  assumes "receive buffer ios = Request request" and "length buffer \<le> buffer_size"
  shows "length request \<le> buffer_size \<and> (\<exists>n. request = take n (buffer @ payload ios))"
  using assms
proof (induction ios arbitrary: buffer)
  case Nil
  then show ?case by (intro conjI exI [of _ "length buffer"]) (simp_all split: if_splits)
next
  case (Cons io ios)
  consider (same) "request = buffer" | (wait) "io = Interrupted" "receive buffer ios = Request request"
    | (piece) bytes where "io = RecvBytes bytes" "bytes \<noteq> []" "length buffer < buffer_size"
  proof (cases "length buffer < buffer_size")
    case True
    then show ?thesis using Cons.prems(1) same wait piece by (cases io) (fastforce simp: Let_def)+
  next
    case False
    then show ?thesis using Cons.prems(1) same by (simp add: receive_full del: receive.simps)
  qed
  then show ?case
  proof cases
    case same
    then show ?thesis using Cons.prems by (intro conjI exI [of _ "length buffer"]) simp_all
  next
    case wait
    then show ?thesis using Cons.IH [OF wait(2) Cons.prems(2)] by simp
  next
    case (piece bytes)
    note r = Cons.prems(1) [unfolded piece(1) receive_piece [OF piece(3,2)]]
    show ?thesis
    proof (cases "request = take buffer_size (buffer @ bytes)")
      case True
      have "take n xs = take (min n (length xs)) (xs @ ys)" for n and xs ys :: string by (simp add: min_def)
      from this [of buffer_size "buffer @ bytes" "payload ios"]
      have "request = take (min buffer_size (length (buffer @ bytes))) (buffer @ payload (io # ios))"
        using True piece(1) by (simp only: payload.simps append_assoc)
      then show ?thesis using True by (intro conjI exI) simp_all
    next
      case False
      then have "receive (buffer @ bytes) ios = Request request" "length (buffer @ bytes) \<le> buffer_size"
        using r by (simp_all split: if_splits)
      from Cons.IH [OF this] show ?thesis using piece(1) by simp
    qed
  qed
qed

text \<open>A line is received as a whole, however it is split, unless it is longer than the buffer.\<close>

lemma receive_line:
  assumes "pieces ios" and "length buffer < buffer_size" and "CHR 0x0A \<notin> set buffer"
    and "payload ios = line @ [CHR 0x0A]" and "CHR 0x0A \<notin> set line"
  shows "receive buffer (ios @ rest) = Request (take buffer_size (buffer @ line @ [CHR 0x0A]))"
  using assms
proof (induction ios arbitrary: buffer line)
  case (Cons io ios)
  have ps: "pieces ios" using Cons.prems(1) by (simp add: pieces_def)
  consider "io = Interrupted" | bytes where "io = RecvBytes bytes" "bytes \<noteq> []"
    using Cons.prems(1) by (auto simp: pieces_def)
  then show ?case
  proof cases
    case 1
    then show ?thesis using Cons.IH [OF ps Cons.prems(2,3)] Cons.prems(2,4,5) by simp
  next
    case (2 bytes)
    note r = receive_piece [OF Cons.prems(2) 2(2), of "ios @ rest"]
    have split: "bytes @ payload ios = line @ [CHR 0x0A]" using Cons.prems(4) 2 by simp
    show ?thesis
    proof (cases "payload ios = []")
      case True
      then have "bytes = line @ [CHR 0x0A]" using split by simp
      then show ?thesis using r 2(1) by (auto simp: not_le)
    next
      case False
      then obtain line' where l: "line = bytes @ line'" "payload ios = line' @ [CHR 0x0A]"
        using split
        by (metis append_butlast_last_id last_appendR last_snoc butlast_append butlast_snoc)
      have nl: "CHR 0x0A \<notin> set (buffer @ bytes)" "CHR 0x0A \<notin> set line'" using Cons.prems(3,5) l(1) by auto
      show ?thesis
        using r 2(1) l(1) nl(1) Cons.IH [OF ps _ nl(1) l(2) nl(2)] by (auto simp: not_le dest: in_set_takeD)
    qed
  qed
qed simp

lemma send_loop_splits: "send_loop msg counts = (over, sent, rest) \<Longrightarrow> sent @ rest = msg"
proof (induction msg counts arbitrary: sent rest rule: send_loop.induct)
  case (2 msg n counts)
  then show ?case by (auto simp: Let_def split: if_splits prod.splits)
qed simp

lemma send_loop_complete:
  assumes "\<forall>n \<in> set counts. 0 < n" and "length msg \<le> length counts"
  shows "send_loop msg counts = (True, msg, [])"
  using assms
proof (induction msg counts rule: send_loop.induct)
  case (2 msg n counts)
  show ?case
  proof (cases "msg = []")
    case False
    have n: "0 < nat n" using 2(2) by simp
    then have "length (drop (nat n) msg) \<le> length counts" using 2(3) False by simp
    then show ?thesis using 2 False n by simp
  qed simp
qed simp

section \<open>Starting and stopping\<close>

lemma clear_path_cases:
  assumes "clear_path os w = (r, w')"
  shows "w_fds w' = w_fds w"
    and "w' = w \<or> r = None \<and> w_node w' = None \<and>
      (\<exists>n. w_node w = Some n \<and> pn_is_socket n \<and> pn_uid n = so_euid os)"
    and "w_node w = Some n \<Longrightarrow> \<not> pn_is_socket n \<or> pn_uid n \<noteq> so_euid os \<Longrightarrow> w' = w"
  using assms
  by (auto simp: clear_path_def lstat_path_def split: if_splits sum.splits option.splits)

lemma open_listener_cases:
  assumes l: "open_listener os sv w = (r, sv', w')" and own: "fds_owned others held (w_fds w)"
    and sv: "sv_listener sv = UniqueFd_default" "\<not> sv_owns_socket_path sv" "\<not> sv_running sv"
  shows "fds_owned others (held + held_fd (sv_listener sv')) (w_fds w') \<and>
    (if r = None
     then sv_running sv' \<and> sv_owns_socket_path sv' \<and> fd_valid (sv_listener sv') \<and> w_node w = None \<and>
       w_node w' = Some \<lparr>pn_is_socket = True, pn_uid = so_euid os, pn_mode = mode_0600\<rparr>
     else sv' = sv \<and> (w_node w' = w_node w \<or> w_node w = None \<and> so_unlink_bound os \<noteq> None \<and>
       (\<exists>mode. w_node w' = Some \<lparr>pn_is_socket = True, pn_uid = so_euid os, pn_mode = mode\<rparr>)))"
proof -
  obtain answer errno where so: "so_socket os = (answer, errno)" by (cases "so_socket os")
  obtain d t where d: "open_fd answer (w_fds w) = (d, t)" by (cases "open_fd answer (w_fds w)")
  note own1 = open_owned [OF own d]
  have dest: "fds_owned others held (fd_destroy (UniqueFd_of d) t)" by (rule destroy_owned [OF own1])
  have none: "held_fd (sv_listener sv) = {#}" using sv(1) by simp
  have move: "fd_move_assign UniqueFd_default (UniqueFd_of d) t = (UniqueFd_of d, UniqueFd_of (- 1), t)"
    "fd_destroy (UniqueFd_of (- 1)) t = t"
    by (simp_all add: fd_move_assign_def fd_reset_def UniqueFd_default_def UniqueFd_of_def fd_destroy_def)
  have sv_eq: "sv\<lparr>sv_owns_socket_path := False\<rparr> = sv" using sv(2) by (cases sv) simp
  show ?thesis
  proof (cases "fd_valid (UniqueFd_of d)")
    case False
    then show ?thesis using l so d dest none by (auto simp: open_listener_def Let_def)
  next
    case valid: True
    show ?thesis
    proof (cases "fst (bind_path os (w\<lparr>w_fds := t\<rparr>))")
      case (Some e)
      then show ?thesis using l so d dest none valid
        by (auto simp: open_listener_def bind_path_def Let_def split: option.splits if_splits)
    next
      case None
      then have free: "w_node w = None" "so_bind os = None"
        by (auto simp: bind_path_def split: option.splits if_splits)
      show ?thesis
        using l so d dest none valid free own1 move sv_eq sv(1)
        by (auto simp: open_listener_def bind_path_def chmod_path_def Let_def split: option.splits if_splits)
    qed
  qed
qed

lemma server_stop_owned:
  assumes "fds_owned others (held + held_fd (sv_listener sv)) (w_fds w)" and "sv_running sv"
    and "sv_owns_socket_path sv" and "server_stop os sv w = (sv', w')"
  shows "fds_owned others held (w_fds w') \<and> \<not> sv_running sv' \<and> \<not> fd_valid (sv_listener sv') \<and>
    (if so_unlink os = None then w_node w' = None else w_node w' = w_node w)"
proof -
  obtain u t where r: "fd_reset (sv_listener sv) (- 1) (w_fds w) = (u, t)"
    by (cases "fd_reset (sv_listener sv) (- 1) (w_fds w)")
  have u: "u_descriptor u = - 1" using r by (auto simp: fd_reset_def Let_def)
  show ?thesis
    using assms reset_owned [OF assms(1) r] r u by (auto simp: server_stop_def Let_def fd_valid_def split: if_splits)
qed

text \<open>While the accepting loop runs, each client's descriptor is closed when the client is served.\<close>

lemma accept_loop_owned:
  assumes "fds_owned others held t" and "accept_loop handler st t es = (outs, True, st', t')"
  shows "fds_owned others held t'"
  using assms
proof (induction handler st t es arbitrary: outs rule: accept_loop.induct)
  case (5 handler st t answer ios counts es)
  obtain d t1 where d: "open_fd answer t = (d, t1)" by (cases "open_fd answer t")
  note own1 = open_owned [OF 5(3) d]
  show ?case
  proof (cases "fd_valid (UniqueFd_of d)")
    case False
    then have "t1 = t" using d by (auto simp: open_fd_def fd_valid_def UniqueFd_of_def split: if_splits)
    then show ?thesis using 5 d False by (auto simp: Let_def)
  next
    case True
    then obtain sent st1 where s: "serve_client handler st ios counts = Some (sent, st1)"
      using 5(4) d by (auto simp: Let_def split: option.splits)
    then show ?thesis
      using 5(2) [OF refl d [symmetric] refl _ s refl destroy_owned [OF own1]] 5(4) d True
      by (auto simp: Let_def split: prod.splits)
  qed
qed (auto split: if_splits)

section \<open>Properties\<close>

text \<open>
  C34. The server is careful with the file system. If anything but a socket of the same user is at its path,
  \<open>start\<close> fails and leaves it there. A server that runs has bound a socket that only its user may access, and
  \<open>stop\<close> then closes the listener and, if its \<open>unlink\<close> succeeds, removes the socket. If \<open>start\<close> fails, it leaves
  no descriptor behind, and no new socket either, except when the \<open>unlink\<close> after a failed \<open>chmod\<close> or \<open>listen\<close>,
  whose result the code ignores, fails as well: then a new socket of the same user stays at the path.
\<close>

theorem start_protects_files:
  assumes "fds_owned others held (w_fds w)"
    and "server_start os (UnixCommandServer_init path) w = (r, sv, w')"
    and "server_stop os' sv w' = (sv', w'')"
  shows "fds_owned others (held + held_fd (sv_listener sv)) (w_fds w') \<and>
    (\<forall>n. w_node w = Some n \<and> (\<not> pn_is_socket n \<or> pn_uid n \<noteq> so_euid os) \<longrightarrow>
      r \<noteq> None \<and> w_node w' = Some n) \<and>
    (if r = None
     then sv_running sv \<and> fd_valid (sv_listener sv) \<and>
       w_node w' = Some \<lparr>pn_is_socket = True, pn_uid = so_euid os, pn_mode = mode_0600\<rparr> \<and>
       fds_owned others held (w_fds w'') \<and> \<not> sv_running sv' \<and> \<not> fd_valid (sv_listener sv') \<and>
       (if so_unlink os' = None then w_node w'' = None else w_node w'' = w_node w')
     else sv = UnixCommandServer_init path \<and>
       (w_node w' = w_node w \<or> w_node w' = None \<or> so_unlink_bound os \<noteq> None \<and>
         (\<exists>mode. w_node w' = Some \<lparr>pn_is_socket = True, pn_uid = so_euid os, pn_mode = mode\<rparr>)))"
proof -
  let ?sv = "UnixCommandServer_init path"
  have init: "sv_listener ?sv = UniqueFd_default" "\<not> sv_owns_socket_path ?sv" "\<not> sv_running ?sv"
    "held_fd (sv_listener ?sv) = {#}"
    by (simp_all add: UnixCommandServer_init_def)
  obtain r1 w1 where c: "clear_path os w = (r1, w1)" by (cases "clear_path os w")
  note clear = clear_path_cases [OF c]
  have own1: "fds_owned others held (w_fds w1)" using assms(1) clear(1) by simp
  consider "r \<noteq> None" "sv = ?sv" "w' = w \<or> w' = w1 \<and> r1 \<noteq> None" | "r1 = None" "open_listener os ?sv w1 = (r, sv, w')"
    using assms(2) c init(3) by (auto simp: server_start_def split: if_splits option.splits)
  then show ?thesis
  proof cases
    case 1
    then show ?thesis using assms(1) clear init by auto
  next
    case 2
    note li = open_listener_cases [OF 2(2) own1 init(1-3)]
    show ?thesis
    proof (cases "r = None")
      case True
      then have run: "sv_running sv" "sv_owns_socket_path sv"
        and own: "fds_owned others (held + held_fd (sv_listener sv)) (w_fds w')"
        and free: "w_node w1 = None"
        using li by simp_all
      have "\<not> (\<not> pn_is_socket n \<or> pn_uid n \<noteq> so_euid os)" if "w_node w = Some n" for n
        using clear(3) [OF that] free that by (metis option.distinct(1))
      then show ?thesis using li server_stop_owned [OF own run assms(3)] True by auto
    next
      case False
      then show ?thesis using li clear by auto
    qed
  qed
qed

theorem start_protects_files_witness:
  "let os = \<lparr>so_euid = 1000, so_lstat = None, so_unlink = None, so_socket = (3, 0), so_bind = None,
             so_bind_mode = 493, so_chmod = None, so_listen = None,
             so_unlink_bound = None, so_strerror = (\<lambda>_. [])\<rparr>;
       old = \<lparr>pn_is_socket = True, pn_uid = 1000, pn_mode = 384\<rparr>;
       (r, sv, w) = server_start os (UnixCommandServer_init ''/tmp/s'')
         \<lparr>w_fds = \<lparr>ft_open = {0, 1, 2}, ft_bad_closes = 0\<rparr>, w_node = Some old\<rparr>
   in r = None \<and> sv_running sv \<and> w_node w = Some \<lparr>pn_is_socket = True, pn_uid = 1000, pn_mode = mode_0600\<rparr>"
proof -
  let ?os = "\<lparr>so_euid = 1000, so_lstat = None, so_unlink = None, so_socket = (3, 0), so_bind = None,
             so_bind_mode = 493, so_chmod = None, so_listen = None,
             so_unlink_bound = None, so_strerror = (\<lambda>_. [])\<rparr>"
  let ?w = "\<lparr>w_fds = \<lparr>ft_open = {0, 1, 2}, ft_bad_closes = 0\<rparr>,
             w_node = Some \<lparr>pn_is_socket = True, pn_uid = 1000, pn_mode = 384\<rparr>\<rparr>"
  obtain r sv w where s: "server_start ?os (UnixCommandServer_init ''/tmp/s'') ?w = (r, sv, w)"
    by (metis prod_cases3)
  obtain sv' w' where p: "server_stop ?os sv w = (sv', w')" by (cases "server_stop ?os sv w")
  have r: "r = None"
    using s by (auto simp: server_start_def UnixCommandServer_init_def sun_path_size_def clear_path_def
        lstat_path_def open_listener_def open_fd_def fd_valid_def UniqueFd_of_def bind_path_def
        chmod_path_def Let_def split: prod.splits)
  have "fds_owned {0, 1, 2} {#} (w_fds ?w)" by (simp add: fds_owned_def)
  from start_protects_files [OF this s p] r show ?thesis using s by (simp add: Let_def)
qed

text \<open>
  C35. Requests are served whatever the pieces they arrive in: a line sent by a client, in any number of
  pieces and with interrupted system calls, reaches the handler as a whole if it has less than 256
  characters, and the client gets the handler's answer with exactly one line end added if it is
  missing; a longer line is answered with an error and the handler is not called.
\<close>

theorem request_line_served:
  assumes "pieces ios" and "payload ios = line @ [CHR 0x0A]" and "CHR 0x0A \<notin> set line"
    and "handler st (line @ [CHR 0x0A]) = (response, st')"
    and "\<forall>n \<in> set counts. 0 < n" and "length (terminated response) \<le> length counts"
    and "length too_long_response \<le> length counts"
  shows "serve_client handler st (ios @ rest) counts =
    (if length line < kMaximumCommandLength then Some (terminated response, st')
     else Some (too_long_response, st))"
proof -
  have rc: "receive [] (ios @ rest) = Request (take buffer_size (line @ [CHR 0x0A]))"
    using receive_line [OF assms(1) _ _ assms(2,3), of "[]" rest] by (simp add: buffer_size_eq)
  show ?thesis
  proof (cases "length line < kMaximumCommandLength")
    case True
    then have "take buffer_size (line @ [CHR 0x0A]) = line @ [CHR 0x0A]"
      by (simp add: buffer_size_def)
    then show ?thesis
      using rc True assms(4) send_loop_complete [OF assms(5,6)]
      by (simp add: serve_client_def respond_def terminated_def Let_def)
  next
    case False
    then have "kMaximumCommandLength < length (take buffer_size (line @ [CHR 0x0A]))"
      by (simp add: buffer_size_def)
    then have "respond handler st (take buffer_size (line @ [CHR 0x0A])) = (Some too_long_response, st)"
      by (auto simp: respond_def too_long_response_def)
    then show ?thesis
      using rc False send_loop_complete [OF assms(5,7)] by (simp add: serve_client_def)
  qed
qed

theorem request_line_served_witness:
  "serve_client (\<lambda>st r. (''ok'', st + 1)) (0 :: nat)
     [RecvBytes ''sta'', Interrupted, RecvBytes (''tus'' @ [CHR 0x0A])] (replicate 20 1) =
   Some (''ok'' @ [CHR 0x0A], 1)"
  using request_line_served [of "[RecvBytes ''sta'', Interrupted, RecvBytes (''tus'' @ [CHR 0x0A])]"
      "''status''" "\<lambda>st r. (''ok'', st + 1)" "0 :: nat" "''ok''" 1 "replicate 20 1" "[]"]
  by (simp add: pieces_def terminated_def too_long_response_def kMaximumCommandLength_def)

end
