(* ===== verification/Daemon.thy ===== *)
theory Daemon
  imports Runtime_Calls Simulated_Sensor Text_Output Command_Server
begin

text \<open>
  The daemon of \<open>apps/edge_sentinel_daemon.cpp\<close>: the interpreter of commands, which works on the
  simulated sensor and calls \<open>publish\<close> and \<open>snapshot\<close> of the runtime while all other threads go on, and
  the main program.
\<close>

section \<open>Model: commands\<close>

text \<open>
  What the interpreter does with the runtime: it answers, or it publishes an event and goes on with
  the result.
\<close>

datatype daemon_action =
    Respond string
  | Publish Event "PublishResult \<Rightarrow> daemon_action"

text \<open>The readings of a motor in good order, \<open>SensorSample{45.0, 2.0, 6.0, true, 0}\<close>.\<close>

definition nominal_sample :: SensorSample where
  "nominal_sample =
     \<lparr>temperature_c = dlit 45, vibration_mm_s = dlit 2, current_a = dlit 6, online = True, sequence = 0\<rparr>"

definition status_response :: "RuntimeSnapshot \<Rightarrow> string" where
  "status_response snapshot =
     (let v = s_last_sample (rs_machine snapshot) in
      ''state='' @ MotorState_to_string (s_state (rs_machine snapshot)) @
      '' temperature_c='' @ show_double (temperature_c v) @
      '' vibration_mm_s='' @ show_double (vibration_mm_s v) @
      '' current_a='' @ show_double (current_a v) @
      '' online='' @ (if online v then ''1'' else ''0''))"

definition metrics_response :: "RuntimeSnapshot \<Rightarrow> string" where
  "metrics_response snapshot =
     (let m = rs_metrics snapshot; p = rs_pool snapshot; q = rs_queue snapshot in
      ''events_published='' @ show_uint64 (events_published m) @
      '' events_processed='' @ show_uint64 (events_processed m) @
      '' events_dropped='' @ show_uint64 (events_dropped m) @
      '' transitions='' @ show_uint64 (transitions m) @
      '' max_latency_ns='' @ show_uint64 (max_event_latency_ns m) @
      '' pool='' @ decimal (ps_in_use p) @ ''/'' @ decimal (ps_capacity p) @
      '' pool_high='' @ decimal (ps_high_watermark p) @
      '' queue='' @ decimal (st_size q) @ ''/'' @ decimal (st_capacity q) @
      '' queue_high='' @ decimal (st_high_watermark q))"

text \<open>The sample to inject; \<open>None\<close> for the target \<open>none\<close>.\<close>

definition injected_sample :: "Command \<Rightarrow> SensorSample option" where
  "injected_sample command =
     (case c_target command of
        InjectionTarget.temperature \<Rightarrow> Some (nominal_sample\<lparr>temperature_c := c_value command\<rparr>)
      | InjectionTarget.vibration \<Rightarrow> Some (nominal_sample\<lparr>vibration_mm_s := c_value command\<rparr>)
      | InjectionTarget.current \<Rightarrow> Some (nominal_sample\<lparr>current_a := c_value command\<rparr>)
      | InjectionTarget.offline \<Rightarrow> Some (nominal_sample\<lparr>online := False\<rparr>)
      | InjectionTarget.none \<Rightarrow> None)"

definition build_response ::
    "string \<Rightarrow> RuntimeSnapshot \<Rightarrow> SimulatedSensor \<Rightarrow> daemon_action \<times> SimulatedSensor" where
  "build_response inp snapshot sensor =
     (let parsed = parse_command inp; command = r_command parsed in
      if \<not> ok parsed then (Respond (''error='' @ ParseError_to_string (r_error parsed)), sensor)
      else if c_kind command = CommandKind.status then (Respond (status_response snapshot), sensor)
      else if c_kind command = CommandKind.metrics then (Respond (metrics_response snapshot), sensor)
      else if c_kind command = CommandKind.inject
      then (case injected_sample command of
              None \<Rightarrow> (Respond ''error=unknown_target'', sensor)
            | Some injected \<Rightarrow> (Respond ''ok=injection_set'', set_override sensor injected))
      else if c_kind command = CommandKind.clear
      then (Respond ''ok=injection_cleared'', clear_override sensor)
      else if c_kind command = CommandKind.reset
      then (Publish Event_reset_requested (\<lambda>reset.
              Publish Event_self_test_passed (\<lambda>self_test.
                Respond (if reset \<noteq> PublishResult.published \<or> self_test \<noteq> PublishResult.published
                         then ''error=event_delivery_failed'' else ''ok=reset_requested''))),
            clear_override sensor)
      else if c_kind command = CommandKind.shutdown
      then (Publish Event_shutdown_requested (\<lambda>result.
              Respond (if result = PublishResult.published
                       then ''ok=shutdown_requested'' else ''error=event_delivery_failed'')),
            sensor)
      else (Respond ''error=unknown_command'', sensor))"

text \<open>
  The interpreter at work: it runs in the server's thread, which is publisher \<open>i\<close> of the runtime; other
  threads may run at any time.
\<close>

inductive performs :: "nat \<Rightarrow> runtime \<Rightarrow> daemon_action \<Rightarrow> string \<Rightarrow> runtime \<Rightarrow> bool" for i where
  answer: "performs i s (Respond out) out s"
| publishes: "publish_call i s e r t \<Longrightarrow> performs i t (k r) out u \<Longrightarrow> performs i s (Publish e k) out u"
| others: "other_step i s t \<Longrightarrow> performs i t a out u \<Longrightarrow> performs i s a out u"

record daemon =
  dm_runtime :: runtime
  dm_sensor :: SimulatedSensor

text \<open>The reads of the snapshot find states of the runtime, one after the other.\<close>

inductive daemon_request :: "nat \<Rightarrow> daemon \<Rightarrow> string \<Rightarrow> string \<Rightarrow> daemon \<Rightarrow> bool" for i where
  "rt_step\<^sup>*\<^sup>* (dm_runtime d) (ss 0) \<Longrightarrow> (\<And>k. rt_step\<^sup>*\<^sup>* (ss k) (ss (Suc k))) \<Longrightarrow>
     build_response inp (runtime_snapshot ss) (dm_sensor d) = (action, sensor) \<Longrightarrow>
     performs i (ss 9) action out s \<Longrightarrow>
     daemon_request i d inp out \<lparr>dm_runtime = s, dm_sensor = sensor\<rparr>"

section \<open>Model: the main program\<close>

definition default_socket_path :: "nat \<Rightarrow> string" where
  "default_socket_path euid = ''/tmp/edge-sentinel-'' @ decimal euid @ ''.sock''"

text \<open>The options: \<open>None\<close> stands for the usage message and exit code 2.\<close>

fun daemon_options :: "string \<Rightarrow> string list \<Rightarrow> string option" where
  "daemon_options socket_path [] = Some socket_path"
| "daemon_options socket_path [a] = None"
| "daemon_options socket_path (a # b # as) =
     (if a = ''--socket'' then daemon_options b as else None)"

datatype main_action =
    StartRuntime
  | StartServer string
  | PublishShutdown
  | StopServer
  | StopRuntime

text \<open>The handler of \<open>SIGINT\<close> and \<open>SIGTERM\<close>: the flag before and after the signal.\<close>

definition handle_signal :: "bool \<Rightarrow> int \<Rightarrow> bool" where
  "handle_signal stop_requested signal_number = True"

text \<open>
  The waiting loop. Each turn finds the signals that have arrived since the last one and the state of
  the machine. It ends when a stop is requested or the machine is shut down, with the flag as it is
  then; \<open>None\<close> if it goes on.
\<close>

fun daemon_wait :: "bool \<Rightarrow> (int list \<times> MotorState) list \<Rightarrow> bool option" where
  "daemon_wait stop_requested [] = None"
| "daemon_wait stop_requested ((signals, state) # turns) =
     (let stop_requested = foldl handle_signal stop_requested signals in
      if \<not> stop_requested \<and> state \<noteq> MotorState.safe_shutdown then daemon_wait stop_requested turns
      else Some stop_requested)"

text \<open>
  The main program, given the results of the calls: the actions in order and the exit code, if it has
  ended. The last argument is the signals that arrive between the end of the loop and the test after it.
\<close>

definition daemon_main ::
    "string \<Rightarrow> string list \<Rightarrow> bool \<Rightarrow> string option \<Rightarrow> (int list \<times> MotorState) list \<Rightarrow> int list \<Rightarrow>
     main_action list \<times> nat option" where
  "daemon_main default_path args started server_error turns late =
     (case daemon_options default_path args of
        None \<Rightarrow> ([], Some 2)
      | Some socket_path \<Rightarrow>
          if \<not> started then ([StartRuntime], Some 1)
          else if server_error \<noteq> None
          then ([StartRuntime, StartServer socket_path, StopRuntime], Some 1)
          else (case daemon_wait False turns of
            None \<Rightarrow> ([StartRuntime, StartServer socket_path], None)
          | Some stop_requested \<Rightarrow>
              ([StartRuntime, StartServer socket_path] @
               (if foldl handle_signal stop_requested late then [PublishShutdown] else []) @
               [StopServer, StopRuntime], Some 0)))"

section \<open>Specification\<close>

text \<open>The two actions that publish.\<close>

definition shutdown_action :: daemon_action where
  "shutdown_action =
     Publish Event_shutdown_requested (\<lambda>result.
       Respond (if result = PublishResult.published
                then ''ok=shutdown_requested'' else ''error=event_delivery_failed''))"

definition reset_action :: daemon_action where
  "reset_action =
     Publish Event_reset_requested (\<lambda>reset.
       Publish Event_self_test_passed (\<lambda>self_test.
         Respond (if reset \<noteq> PublishResult.published \<or> self_test \<noteq> PublishResult.published
                  then ''error=event_delivery_failed'' else ''ok=reset_requested'')))"

section \<open>The main program\<close>

lemma signals_stop: "foldl handle_signal flag signals \<longleftrightarrow> flag \<or> signals \<noteq> []"
proof (cases signals rule: rev_cases)
  case (snoc xs x)
  then show ?thesis by (simp add: handle_signal_def)
qed simp

text \<open>The loop ends when the first signal has arrived or the machine is shut down, and not before.\<close>

lemma daemon_wait_ends:
  "daemon_wait False turns =
     (case dropWhile (\<lambda>(signals, state). signals = [] \<and> state \<noteq> MotorState.safe_shutdown) turns of
        [] \<Rightarrow> None
      | (signals, state) # _ \<Rightarrow> Some (signals \<noteq> []))"
proof (induction turns)
  case (Cons turn turns)
  obtain signals state where "turn = (signals, state)" by (cases turn)
  then show ?case using Cons by (cases "signals = [] \<and> state \<noteq> MotorState.safe_shutdown") (auto simp: signals_stop)
qed simp

text \<open>
  Whenever the daemon has ended after its runtime was started, it has stopped the runtime last, and the
  server before it if that was started. A shutdown is published exactly if a signal has arrived.
\<close>

lemma daemon_main_stops:
  assumes "daemon_main default_path args True server_error turns late = (actions, Some code)"
    and "code \<noteq> 2"
  shows "last actions = StopRuntime" and "server_error = None \<Longrightarrow> last (butlast actions) = StopServer"
    and "code = 0 \<longleftrightarrow> server_error = None"
    and "late \<noteq> [] \<Longrightarrow> server_error = None \<Longrightarrow> PublishShutdown \<in> set actions"
  using assms by (auto simp: daemon_main_def butlast_append signals_stop split: option.splits if_splits)

section \<open>Answers\<close>

lemma performs_run:
  assumes "performs i s a out u"
  shows "rt_step\<^sup>*\<^sup>* s u"
  using assms
proof induction
  case (publishes s e r t k out u)
  then show ?case using publish_call_run [of i s e r t] by (meson rtranclp_trans)
next
  case (others s t a out u)
  then show ?case by (meson converse_rtranclp_into_rtranclp other_step_def)
qed simp

lemma performs_respond: "performs i s (Respond x) out u \<Longrightarrow> out = x"
  by (induction s "Respond x" out u rule: performs.induct) simp_all

text \<open>An action that publishes an event and then answers.\<close>

lemma performs_publish:
  assumes "performs i s (Publish e k) out u" and "rt_inv cfg s"
  shows "\<exists>r t t'. publish_call i t e r t' \<and> rt_inv cfg t \<and> performs i t' (k r) out u"
  using assms
proof (induction s "Publish e k" out u rule: performs.induct)
  case (publishes s r t out u)
  then show ?case by blast
next
  case (others s t out u)
  then show ?case using rt_inv_step [of s t cfg] by (auto simp: other_step_def)
qed

lemma build_response_actions:
  "fst (build_response inp snapshot sensor) \<in> {shutdown_action, reset_action} \<or>
   (\<exists>x. fst (build_response inp snapshot sensor) = Respond x \<and> x \<noteq> ''ok=shutdown_requested'')"
proof (cases "ok (parse_command inp)")
  case True
  then show ?thesis
    by (cases "c_kind (r_command (parse_command inp))";
        cases "injected_sample (r_command (parse_command inp))")
       (simp_all add: build_response_def Let_def status_response_def metrics_response_def
         shutdown_action_def reset_action_def)
qed (simp add: build_response_def Let_def)

lemma reset_answer:
  assumes "performs i s reset_action out u" and "rt_inv cfg s"
  shows "out = ''error=event_delivery_failed'' \<or>
    out = ''ok=reset_requested'' \<and> Event_reset_requested \<in> set (h_accepted u) \<and>
      Event_self_test_passed \<in> set (h_accepted u)"
proof -
  let ?k = "\<lambda>reset self_test. Respond (if reset \<noteq> PublishResult.published \<or>
      self_test \<noteq> PublishResult.published then ''error=event_delivery_failed'' else ''ok=reset_requested'')"
  obtain r t t' where c: "publish_call i t Event_reset_requested r t'" "rt_inv cfg t"
    "performs i t' (Publish Event_self_test_passed (?k r)) out u"
    using performs_publish [OF assms(1) [unfolded reset_action_def] assms(2)] by blast
  have inv: "rt_inv cfg t'" using rt_inv_run [OF c(2) publish_call_run [OF c(1)]] .
  obtain r' v v' where d: "publish_call i v Event_self_test_passed r' v'" "rt_inv cfg v"
    "performs i v' (?k r r') out u"
    using performs_publish [OF c(3) inv] by blast
  note grow = accepted_grows_run [OF performs_run [OF c(3)]] accepted_grows_run [OF performs_run [OF d(3)]]
  show ?thesis
  proof (cases "r = PublishResult.published \<and> r' = PublishResult.published")
    case True
    then show ?thesis
      using performs_respond [OF d(3)] publish_call_accepted [of i t _ t'] publish_call_accepted [of i v _ v']
        c(1,2) d(1,2) grow by auto
  next
    case False
    then show ?thesis using performs_respond [OF d(3)] by auto
  qed
qed

lemma shutdown_answer:
  assumes "performs i s shutdown_action ''ok=shutdown_requested'' u" and "rt_inv cfg s"
  shows "Event_shutdown_requested \<in> set (h_accepted u)"
proof -
  let ?k = "\<lambda>result. Respond (if result = PublishResult.published
      then ''ok=shutdown_requested'' else ''error=event_delivery_failed'')"
  obtain r t t' where c: "publish_call i t Event_shutdown_requested r t'" "rt_inv cfg t"
    "performs i t' (?k r) ''ok=shutdown_requested'' u"
    using performs_publish [OF assms(1) [unfolded shutdown_action_def] assms(2)] by blast
  have "r = PublishResult.published" using performs_respond [OF c(3)] by (simp split: if_splits)
  then show ?thesis
    using publish_call_accepted [of i t _ t'] c(1,2) accepted_grows_run [OF performs_run [OF c(3)]] by blast
qed

lemma snapshot_states:
  assumes "rt_step\<^sup>*\<^sup>* s (ss (0 :: nat))" and "\<And>k. rt_step\<^sup>*\<^sup>* (ss k) (ss (Suc k))"
  shows "rt_step\<^sup>*\<^sup>* s (ss n)"
  by (induction n) (use assms in \<open>blast intro: rtranclp_trans\<close>)+

lemma request_run:
  assumes "daemon_request i d inp out d'"
  shows "rt_step\<^sup>*\<^sup>* (dm_runtime d) (dm_runtime d')"
  using assms
proof cases
  case (1 ss action sensor s)
  then show ?thesis
    using rtranclp_trans [OF snapshot_states [of "dm_runtime d" ss 9, OF 1(2,3)] performs_run [OF 1(5)]] by simp
qed

lemma request_shutdown:
  assumes "daemon_request i d inp ''ok=shutdown_requested'' d'" and "rt_inv cfg (dm_runtime d)"
  shows "Event_shutdown_requested \<in> set (h_accepted (dm_runtime d'))"
  using assms(1)
proof cases
  case (1 ss action sensor s)
  have inv: "rt_inv cfg (ss 9)" by (rule rt_inv_run [OF assms(2) snapshot_states [of "dm_runtime d" ss 9, OF 1(2,3)]])
  consider "action = shutdown_action" | "action = reset_action"
    | x where "action = Respond x" "x \<noteq> ''ok=shutdown_requested''"
    using build_response_actions [of inp "runtime_snapshot ss" "dm_sensor d"] 1(4) by auto
  then show ?thesis
  proof cases
    case 1
    then show ?thesis using shutdown_answer [OF _ inv] \<open>performs i (ss 9) action _ s\<close> \<open>d' = _\<close> by simp
  next
    case 2
    then show ?thesis using reset_answer [of i "ss 9" "''ok=shutdown_requested''" s, OF _ inv]
        \<open>performs i (ss 9) action _ s\<close> by simp
  next
    case 3
    then show ?thesis using performs_respond [of i "ss 9" x "''ok=shutdown_requested''" s]
        \<open>performs i (ss 9) action _ s\<close> by simp
  qed
qed

lemma words_snoc_space: "is_space c \<Longrightarrow> words (cs @ [c]) = words cs"
proof (induction cs)
  case (Cons d cs)
  show ?case
  proof (cases "cs = []")
    case False
    then show ?thesis
      using Cons by (simp add: words.simps(2) [of d "cs @ [c]"] words.simps(2) [of d cs] del: words.simps)
  qed (use Cons.prems in simp)
qed simp

text \<open>A list of words, with or without the end of the line, is parsed as its meaning.\<close>

lemma parse_unwords:
  assumes "\<forall>w \<in> set ws. is_word w" and "length (unwords ws) < kMaximumCommandLength"
  shows "parse_command (unwords ws) = command_of_words ws"
    and "parse_command (unwords ws @ [CHR 0x0A]) = command_of_words ws"
  using parse_command_words [of "unwords ws"] parse_command_words [of "unwords ws @ [CHR 0x0A]"]
    words_unwords [OF assms(1)] words_snoc_space [of "CHR 0x0A" "unwords ws"] assms(2)
  by (simp_all add: is_space_def)

lemma parse_shutdown: "parse_command ''shutdown'' = success CommandKind.shutdown InjectionTarget.none (dlit 0)"
  using parse_unwords(1) [of "[''shutdown'']"]
  by (simp add: is_word_def is_space_def kMaximumCommandLength_def command_of_words_def simple_commands_def)

text \<open>Injecting a temperature.\<close>

lemma parse_inject_temperature:
  assumes "is_word w" and "length (unwords [''inject'', ''temperature'', w]) < kMaximumCommandLength"
    and "parse_number w = Some v" and "in_range InjectionTarget.temperature v"
  shows "parse_command (unwords [''inject'', ''temperature'', w] @ [CHR 0x0A]) =
    success CommandKind.inject InjectionTarget.temperature v"
proof -
  have "\<forall>w' \<in> set [''inject'', ''temperature'', w]. is_word w'"
    using assms(1) by (simp add: is_word_def is_space_def)
  from parse_unwords(2) [OF this assms(2)] show ?thesis
    using assms(3,4)
    by (simp add: command_of_words_def simple_commands_def inject_targets_def inject_command_def del: unwords.simps)
qed

lemma inject_temperature:
  assumes "is_word w" and "length (unwords [''inject'', ''temperature'', w]) < kMaximumCommandLength"
    and "parse_number w = Some v" and "in_range InjectionTarget.temperature v"
    and "build_response (unwords [''inject'', ''temperature'', w] @ [CHR 0x0A]) snapshot sensor = (a, sensor')"
  shows "a = Respond ''ok=injection_set''"
    and "shown sensor' = nominal_sample\<lparr>temperature_c := v\<rparr>"
  using assms(5)
  by (auto simp: build_response_def parse_inject_temperature [OF assms(1-4)] success_def ok_def Let_def
      injected_sample_def simp del: unwords.simps)

text \<open>A run in which a client's shutdown command is accepted and the runtime is then stopped.\<close>

lemma shutdown_command_run:
  assumes "2 < n" "n \<le> 127" and "0 < base" "0 < stride"
  shows "\<exists>s t u. rt_reachable cfg base stride n s \<and>
    daemon_request 2 \<lparr>dm_runtime = s, dm_sensor = sensor\<rparr> ''shutdown'' ''ok=shutdown_requested''
      \<lparr>dm_runtime = t, dm_sensor = sensor\<rparr> \<and> rt_step\<^sup>*\<^sup>* t u \<and> r_main u = MDone"
proof -
  have n: "2 \<le> n" using assms(1) by simp
  let ?es = "[Event_startup, Event_self_test_passed]"
  obtain s where s: "rt_step\<^sup>*\<^sup>* (runtime_init cfg base stride n) s" "stalled cfg MRunning ?es s"
    "r_pubs s = replicate n PIdle"
    using stalled_start [OF n assms(2-4)] by blast
  let ?s1 = "set_pub s 2 (PCheck Event_shutdown_requested)"
  have st: "rt_step s ?s1" using assms(1) s(3) by (intro rt_step.call) simp_all
  have s1: "stalled cfg MRunning ?es ?s1" "r_pubs ?s1 = (replicate n PIdle)[2 := PCheck Event_shutdown_requested]"
    using stalled_step [OF s(2) st] s(2,3) by (simp_all add: stalled_def)
  obtain t where t: "(own_step 2)\<^sup>*\<^sup>* ?s1 t" "stalled cfg MRunning (accept_one ?es Event_shutdown_requested) t"
    "r_pubs t = (replicate n PIdle)[2 := PReturn PublishResult.published]"
    using stalled_publish [OF s1(1) _ s1(2) assms(1,2)] by (auto simp: kEventQueueCapacity_def)
  have "(call_step 2)\<^sup>*\<^sup>* ?s1 t"
    using t(1) by (rule mono_rtranclp [rule_format, rotated]) (simp add: call_step_def)
  then have call: "publish_call 2 s Event_shutdown_requested PublishResult.published (set_pub t 2 PIdle)"
    using s(3) t(3) assms(1) by (intro publish_call.intros) simp_all
  have "build_response ''shutdown'' snapshot sensor = (shutdown_action, sensor)" for snapshot
    by (simp add: build_response_def parse_shutdown success_def ok_def shutdown_action_def)
  moreover have "performs 2 s shutdown_action ''ok=shutdown_requested'' (set_pub t 2 PIdle)"
    unfolding shutdown_action_def
    using performs.publishes [OF call, of "\<lambda>r. Respond (if r = PublishResult.published
      then ''ok=shutdown_requested'' else ''error=event_delivery_failed'')"] performs.answer by simp
  ultimately have req: "daemon_request 2 \<lparr>dm_runtime = s, dm_sensor = sensor\<rparr> ''shutdown''
      ''ok=shutdown_requested'' \<lparr>dm_runtime = set_pub t 2 PIdle, dm_sensor = sensor\<rparr>"
    using daemon_request.intros [of "\<lparr>dm_runtime = s, dm_sensor = sensor\<rparr>" "\<lambda>_. s" "''shutdown''"] by simp
  have st2: "rt_step t (set_pub t 2 PIdle)" using assms(1) t(3) by (intro rt_step.return) simp_all
  have t2: "stalled cfg MRunning (accept_one ?es Event_shutdown_requested) (set_pub t 2 PIdle)"
    "r_pubs (set_pub t 2 PIdle) = replicate n PIdle"
    using stalled_step [OF t(2) st2] t(2,3) by (simp_all add: stalled_def replicate_update)
  obtain u where "rt_step\<^sup>*\<^sup>* (set_pub t 2 PIdle) u" "r_main u = MDone"
    using stalled_stop [OF t2 n assms(2)] by blast
  moreover have "rt_reachable cfg base stride n s" using s(1) by (meson reachable_trans rt_init)
  ultimately show ?thesis using req by blast
qed

section \<open>Properties\<close>

text \<open>
  C33. A client that is told \<open>ok=shutdown_requested\<close> can rely on it: whatever the other threads did in the
  meantime and do afterwards, the machine is in \<open>safe_shutdown\<close> when the runtime has been stopped.
\<close>

theorem shutdown_command_is_final:
  assumes "rt_reachable cfg base stride publishers (dm_runtime d)"
    and "0 < base" and "0 < stride" and "2 \<le> publishers"
    and "daemon_request i d inp ''ok=shutdown_requested'' d'"
    and "rt_step\<^sup>*\<^sup>* (dm_runtime d') u" and "r_main u = MDone"
  shows "m_state (r_machine u) = MotorState.safe_shutdown"
proof -
  have inv: "rt_inv cfg (dm_runtime d)" using rt_inv_reachable [OF assms(1-4)] .
  have "Event_shutdown_requested \<in> set (h_accepted u)"
    using request_shutdown [OF assms(5) inv] accepted_grows_run [OF assms(6)] by blast
  moreover have "rt_inv cfg u"
    by (rule rt_inv_run [OF rt_inv_run [OF inv request_run [OF assms(5)]] assms(6)])
  ultimately show ?thesis using done_shutdown assms(7) by blast
qed

theorem shutdown_command_is_final_witness:
  "\<exists>s t u. daemon_request 2 \<lparr>dm_runtime = s, dm_sensor = SimulatedSensor_init nominal_sample\<rparr> ''shutdown''
      ''ok=shutdown_requested'' \<lparr>dm_runtime = t, dm_sensor = SimulatedSensor_init nominal_sample\<rparr> \<and>
    rt_step\<^sup>*\<^sup>* t u \<and> r_main u = MDone \<and> m_state (r_machine u) = MotorState.safe_shutdown"
proof -
  obtain s t u where r: "rt_reachable ProtectionConfig_default 4096 64 3 s"
    "daemon_request 2 \<lparr>dm_runtime = s, dm_sensor = SimulatedSensor_init nominal_sample\<rparr> ''shutdown''
      ''ok=shutdown_requested'' \<lparr>dm_runtime = t, dm_sensor = SimulatedSensor_init nominal_sample\<rparr>"
    "rt_step\<^sup>*\<^sup>* t u" "r_main u = MDone"
    using shutdown_command_run [of 3 4096 64 ProtectionConfig_default "SimulatedSensor_init nominal_sample"]
    by auto
  have "m_state (r_machine u) = MotorState.safe_shutdown"
    using shutdown_command_is_final [OF _ _ _ _ r(2), of ProtectionConfig_default 4096 64 3 u] r(1,3,4) by simp
  then show ?thesis using r by blast
qed

end
