(* ===== verification/Client_Programs.thy ===== *)
theory Client_Programs
  imports Daemon
begin

text \<open>
  The command-line client of \<open>apps/edgectl_main.cpp\<close> and the demonstration program of
  \<open>apps/edge_sentinel_main.cpp\<close>. The answers of system calls, the times the clock shows and the snapshots of the
  runtime are arguments.
\<close>

section \<open>Model: edgectl\<close>

definition edgectl_socket_path :: "nat \<Rightarrow> string" where
  "edgectl_socket_path euid = ''/tmp/edge-sentinel-'' @ decimal euid @ ''.sock''"

text \<open>The options and the command, which is the remaining arguments joined by spaces.\<close>

definition add_argument :: "string \<Rightarrow> string \<Rightarrow> string" where
  "add_argument command a = (if command \<noteq> [] then command @ '' '' else command) @ a"

fun edgectl_arguments :: "string \<Rightarrow> string \<Rightarrow> string list \<Rightarrow> string \<times> string" where
  "edgectl_arguments socket_path command [] = (socket_path, command)"
| "edgectl_arguments socket_path command [a] = (socket_path, add_argument command a)"
| "edgectl_arguments socket_path command (a # b # as) =
     (if a = ''--socket'' then edgectl_arguments b command as
      else edgectl_arguments socket_path (add_argument command a) (b # as))"

text \<open>
  The kernel's answers: \<open>socket\<close>, \<open>connect\<close> (an error number if it fails), the counts and the error
  number of \<open>send\<close>, and what \<open>recv\<close> delivers (nothing if it fails or the stream has ended) with the error
  number that is then set.
\<close>

record edgectl_os =
  eo_socket :: "int \<times> int"
  eo_connect :: "int option"
  eo_send :: "int list"
  eo_send_errno :: int
  eo_recv :: string
  eo_recv_errno :: int
  eo_strerror :: "int \<Rightarrow> string"

record edgectl_result =
  er_exit :: int
  er_sent :: string
  er_out :: string
  er_err :: string

definition line :: "string \<Rightarrow> string" where
  "line s = s @ [CHR 0x0A]"

text \<open>\<open>None\<close> if the program still waits in \<open>send\<close>.\<close>

definition edgectl_main ::
    "edgectl_os \<Rightarrow> string \<Rightarrow> string list \<Rightarrow> fd_table \<Rightarrow> (edgectl_result \<times> fd_table) option" where
  "edgectl_main os default_path args t =
     (let (socket_path, command) = edgectl_arguments default_path [] args;
          fail = (\<lambda>code sent message. \<lparr>er_exit = code, er_sent = sent, er_out = [], er_err = line message\<rparr>) in
      if command = [] \<or> kMaximumCommandLength < length command
      then Some (fail 2 [] ''usage: edgectl [--socket PATH] COMMAND [ARGS]'', t)
      else if socket_path = [] \<or> sun_path_size \<le> length socket_path
      then Some (fail 2 [] ''invalid_socket_path'', t)
      else
        let (answer, errno) = eo_socket os;
            (d, t) = open_fd answer t;
            socket = UniqueFd_of d;
            leave = (\<lambda>r. Some (r, fd_destroy socket t)) in
        if \<not> fd_valid socket then leave (fail 1 [] (''socket_error='' @ eo_strerror os errno))
        else case eo_connect os of
          Some errno \<Rightarrow> leave (fail 1 [] (''connect_error='' @ eo_strerror os errno))
        | None \<Rightarrow>
            (case send_loop (line command) (eo_send os) of
               (False, sent, rest) \<Rightarrow> None
             | (True, sent, rest) \<Rightarrow>
                 if rest \<noteq> []
                 then leave (fail 1 sent (''send_error='' @ eo_strerror os (eo_send_errno os)))
                 else if eo_recv os = []
                 then leave (fail 1 sent (''receive_error='' @ eo_strerror os (eo_recv_errno os)))
                 else leave \<lparr>er_exit = 0, er_sent = sent, er_out = take 2048 (eo_recv os), er_err = []\<rparr>))"

section \<open>Model: the demonstration\<close>

text \<open>\<open>std::from_chars\<close> for \<open>int\<close>, as far as it is used: the value of a text that is a number as a whole.\<close>

definition parse_int :: "string \<Rightarrow> int option" where
  "parse_int s =
     (let (neg, ds) = (case s of CHR ''-'' # ds \<Rightarrow> (True, ds) | _ \<Rightarrow> (False, s));
          v = (if neg then - int (digits_value ds) else int (digits_value ds))
      in if ds \<noteq> [] \<and> (\<forall>c \<in> set ds. is_digit c) \<and> - (2 ^ 31) \<le> v \<and> v < 2 ^ 31 then Some v else None)"

definition parse_positive_int :: "string \<Rightarrow> int option" where
  "parse_positive_int s = (case parse_int s of Some v \<Rightarrow> if 0 < v then Some v else None | None \<Rightarrow> None)"

text \<open>The first argument that names the option and is followed by a positive number counts.\<close>

fun read_option :: "string list \<Rightarrow> string \<Rightarrow> int \<Rightarrow> int" where
  "read_option (a # b # as) option_name fallback =
     (if a \<noteq> option_name then read_option (b # as) option_name fallback
      else case parse_positive_int b of
        Some v \<Rightarrow> v
      | None \<Rightarrow> read_option (b # as) option_name fallback)"
| "read_option _ option_name fallback = fallback"

definition demo_hot_sample :: SensorSample where
  "demo_hot_sample = nominal_sample\<lparr>temperature_c := dlit 105\<rparr>"

text \<open>
  The loop of the demonstration. Each turn finds the time since the start, twice, and the state of the
  machine; it injects the fault once and reports changes of the state. The result is what is printed,
  the sensor, and whether the loop is over.
\<close>

fun demo_loop ::
    "int \<Rightarrow> int \<Rightarrow> (int \<times> int \<times> MotorState) list \<Rightarrow> bool \<Rightarrow> MotorState \<Rightarrow> SimulatedSensor \<Rightarrow>
     string list \<times> SimulatedSensor \<times> bool" where
  "demo_loop duration_ms fault_after_ms [] injected last_state sensor = ([], sensor, False)"
| "demo_loop duration_ms fault_after_ms ((now, elapsed, state) # turns) injected last_state sensor =
     (if \<not> now < duration_ms then ([], sensor, True)
      else
        let inject = (\<not> injected \<and> fault_after_ms \<le> elapsed);
            sensor = (if inject then set_override sensor demo_hot_sample else sensor);
            out1 = (if inject then [''[SIM] injected temperature=105 C''] else []);
            out2 = (if state \<noteq> last_state
                    then [''[STATE] '' @ MotorState_to_string last_state @ '' -> '' @ MotorState_to_string state]
                    else []);
            (out, sensor, over) =
              demo_loop duration_ms fault_after_ms turns (injected \<or> inject) state sensor
        in (out1 @ out2 @ out, sensor, over))"

definition demo_config :: RuntimeConfig where
  "demo_config = RuntimeConfig_default\<lparr>sample_period := 50, monitor_period := 250\<rparr>"

definition demo_final :: "RuntimeSnapshot \<Rightarrow> string" where
  "demo_final final =
     ''[FINAL] state='' @ MotorState_to_string (s_state (rs_machine final)) @
     '' events='' @ show_uint64 (events_processed (rs_metrics final)) @
     '' dropped='' @ show_uint64 (events_dropped (rs_metrics final)) @
     '' pool_high_watermark='' @ decimal (ps_high_watermark (rs_pool final)) @ ''/'' @
     decimal (ps_capacity (rs_pool final)) @
     '' queue_high_watermark='' @ decimal (st_high_watermark (rs_queue final)) @ ''/'' @
     decimal (st_capacity (rs_queue final))"

definition kProjectName :: string where
  "kProjectName = ''EdgeSentinel''"

definition kVersion :: string where
  "kVersion = ''0.1.0''"

text \<open>
  The main program, given whether the runtime has started, the turns of the loop and the snapshot taken
  after the runtime has been stopped: the printed lines, the lines on the error stream, the exit code if
  the program has ended, and the sensor.
\<close>

definition demo_main ::
    "string list \<Rightarrow> bool \<Rightarrow> (int \<times> int \<times> MotorState) list \<Rightarrow> RuntimeSnapshot \<Rightarrow>
     string list \<times> string list \<times> nat option \<times> SimulatedSensor" where
  "demo_main args started turns final =
     (let duration_ms = read_option args ''--duration-ms'' 3000;
          fault_after_ms = read_option args ''--fault-after-ms'' 1000;
          sensor = SimulatedSensor_init nominal_sample;
          banner = [kProjectName @ '' '' @ kVersion @ '' simulated motor monitor'',
                    ''Injecting critical temperature after '' @ decimal (nat fault_after_ms) @ '' ms''] in
      if \<not> started then (banner, [''Failed to start runtime''], Some 1, sensor)
      else
        let (out, sensor, over) = demo_loop duration_ms fault_after_ms turns False MotorState.booting sensor in
        if \<not> over then (banner @ out, [], None, sensor)
        else (banner @ out @ [demo_final final], [], Some 0, sensor))"

section \<open>edgectl\<close>

text \<open>Run by the same user, the client finds the daemon without options.\<close>

lemma same_socket_path: "edgectl_socket_path euid = default_socket_path euid"
  by (simp add: edgectl_socket_path_def default_socket_path_def)


lemma edgectl_words:
  assumes "\<forall>w \<in> set ws. is_word w \<and> w \<noteq> ''--socket''"
  shows "edgectl_arguments path command ws =
    (path, if command = [] then unwords ws else if ws = [] then command else command @ '' '' @ unwords ws)"
  using assms
proof (induction path command ws rule: edgectl_arguments.induct)
  case (2 path command a)
  then show ?case by (simp add: add_argument_def)
next
  case (3 path command a b as)
  then have "add_argument command a \<noteq> []" by (auto simp: add_argument_def is_word_def)
  then show ?case using 3 by (simp add: add_argument_def)
qed simp

lemma unwords_one_line:
  assumes "\<forall>w \<in> set ws. is_word w"
  shows "CHR 0x0A \<notin> set (unwords ws)"
  using assms by (induction ws rule: unwords.induct) (auto simp: is_word_def is_space_def)

text \<open>When the client ends with success it has sent the whole command and the end of the line.\<close>

lemma edgectl_success:
  assumes "\<forall>w \<in> set ws. is_word w \<and> w \<noteq> ''--socket''"
    and "edgectl_main os default_path ws t = Some (r, t')" and "er_exit r = 0"
  shows "er_sent r = unwords ws @ [CHR 0x0A]" and "length (unwords ws) \<le> kMaximumCommandLength"
proof -
  have a: "edgectl_arguments default_path [] ws = (default_path, unwords ws)"
    using edgectl_words [OF assms(1)] by simp
  obtain answer errno where so: "eo_socket os = (answer, errno)" by (cases "eo_socket os")
  obtain d t1 where d: "open_fd answer t = (d, t1)" by (cases "open_fd answer t")
  obtain over sent rest where l: "send_loop (line (unwords ws)) (eo_send os) = (over, sent, rest)"
    by (metis prod_cases3)
  have "er_sent r = sent \<and> rest = [] \<and> length (unwords ws) \<le> kMaximumCommandLength"
    using assms(2,3) a so d l
    by (auto simp: edgectl_main_def Let_def split: if_splits option.splits bool.splits)
  then show "er_sent r = unwords ws @ [CHR 0x0A]" and "length (unwords ws) \<le> kMaximumCommandLength"
    using send_loop_splits [OF l] by (simp_all add: line_def)
qed

lemma edgectl_owned:
  assumes "edgectl_main os default_path args t = Some (r, t')" and "fds_owned others hs t"
  shows "fds_owned others hs t'"
proof -
  obtain answer errno where so: "eo_socket os = (answer, errno)" by (cases "eo_socket os")
  obtain d t1 where d: "open_fd answer t = (d, t1)" by (cases "open_fd answer t")
  obtain p c where a: "edgectl_arguments default_path [] args = (p, c)"
    by (cases "edgectl_arguments default_path [] args")
  have "fds_owned others hs (fd_destroy (UniqueFd_of d) t1)"
    by (rule destroy_owned [OF open_owned [OF assms(2) d]])
  then show ?thesis
    using assms so d a
    by (auto simp: edgectl_main_def Let_def split: if_splits option.splits prod.splits bool.splits)
qed

section \<open>The demonstration\<close>

text \<open>The number a demonstration works with is the default or was given, and is positive.\<close>

lemma read_option_positive:
  assumes "0 < fallback"
  shows "0 < read_option args option_name fallback"
  using assms
  by (induction args option_name fallback rule: read_option.induct)
     (auto simp: parse_positive_int_def split: option.splits if_splits)

text \<open>
  The fault is injected if a turn of the loop finds that its time has come, and only then; once it has
  been injected the sensor keeps it.
\<close>

lemma demo_loop_sensor:
  "fst (snd (demo_loop duration_ms fault_after_ms turns injected last_state sensor)) =
    (if \<not> injected \<and> (\<exists>(now, elapsed, state) \<in> set (takeWhile (\<lambda>(now, elapsed, state). now < duration_ms) turns).
          fault_after_ms \<le> elapsed)
     then set_override sensor demo_hot_sample else sensor)"
proof (induction turns arbitrary: injected last_state sensor)
  case (Cons turn turns)
  obtain now elapsed state where turn: "turn = (now, elapsed, state)" by (cases turn)
  show ?case
    by (cases "now < duration_ms"; cases injected; cases "fault_after_ms \<le> elapsed")
       (simp_all add: turn Let_def case_prod_unfold Cons.IH [unfolded case_prod_unfold])
qed simp

end
