(* ===== verification/Unit_Tests.thy ===== *)
theory Unit_Tests
  imports Motor_FSM Uart_Protocol Can_Protocol I2c_Sensor Command Bounded_Queue Object_Pool Client_Programs
begin

text \<open>
  The sequential unit tests of \<open>tests/\<close>, evaluated on the model. A test is the list of the conditions its
  \<open>ES_REQUIRE\<close> lines check, in order; a test program runs its tests and reports with its exit code.
\<close>

section \<open>Model: the test programs\<close>

text \<open>\<open>run\<close> of \<open>test_support.hpp\<close>: the first condition that does not hold throws, and the program returns 1.\<close>

definition run_test :: "bool list \<Rightarrow> nat" where
  "run_test requirements = (if list_all id requirements then 0 else 1)"

subsection \<open>\<open>smoke_test.cpp\<close>\<close>

definition test_version :: "bool list" where
  "test_version = [kProjectName = ''EdgeSentinel'', kVersion \<noteq> []]"

subsection \<open>\<open>state_machine_test.cpp\<close>\<close>

definition fast_config :: ProtectionConfig where
  "fast_config = ProtectionConfig_default
     \<lparr>warning_samples := 2, critical_samples := 2, recovery_samples := 2, offline_samples := 2\<rparr>"

definition normal_sample :: SensorSample where
  "normal_sample =
     \<lparr>temperature_c = dlit 45, vibration_mm_s = dlit 2, current_a = dlit 6, online = True, sequence = 1\<rparr>"

definition start_healthy :: "MotorStateMachine \<Rightarrow> bool list \<times> MotorStateMachine" where
  "start_healthy m =
     (let (t1, m1) = handle m Event_startup; (t2, m2) = handle m1 Event_self_test_passed in
      ([machine_state m = MotorState.booting, StateTransition.current t1 = MotorState.self_test, StateTransition.current t2 = MotorState.healthy],
       m2))"

definition test_warning_hysteresis_and_recovery :: "bool list" where
  "test_warning_hysteresis_and_recovery =
     (let (r, m) = start_healthy (MotorStateMachine_init fast_config);
          warning = normal_sample\<lparr>temperature_c := dlit 85\<rparr>;
          (t1, m) = handle m (Event_sensor_sample warning);
          (degraded, m) = handle m (Event_sensor_sample warning);
          inside_hysteresis = normal_sample\<lparr>temperature_c := dlit 78\<rparr>;
          (t2, m2) = handle m (Event_sensor_sample inside_hysteresis);
          (t3, m3) = handle m2 (Event_sensor_sample normal_sample);
          (recovered, m4) = handle m3 (Event_sensor_sample normal_sample) in
      r @ [\<not> changed t1, changed degraded, StateTransition.current degraded = MotorState.degraded,
           reason degraded = TransitionReason.warning_persisted,
           \<not> changed t2, machine_state m2 = MotorState.degraded,
           \<not> changed t3, changed recovered, StateTransition.current recovered = MotorState.healthy,
           reason recovered = TransitionReason.readings_recovered])"

definition test_critical_fault_is_latched_until_reset :: "bool list" where
  "test_critical_fault_is_latched_until_reset =
     (let (r, m) = start_healthy (MotorStateMachine_init fast_config);
          critical = normal_sample\<lparr>vibration_mm_s := dlit 12\<rparr>;
          (t1, m) = handle m (Event_sensor_sample critical);
          (fault, m) = handle m (Event_sensor_sample critical);
          (t2, m2) = handle m (Event_sensor_sample normal_sample);
          (reset, m3) = handle m2 Event_reset_requested in
      r @ [\<not> changed t1, StateTransition.current fault = MotorState.fault_latched,
           reason fault = TransitionReason.critical_reading,
           \<not> changed t2, machine_state m2 = MotorState.fault_latched,
           StateTransition.current reset = MotorState.self_test, reason reset = TransitionReason.manual_reset])"

definition test_sensor_offline_and_internal_fault :: "bool list" where
  "test_sensor_offline_and_internal_fault =
     (let (r, m) = start_healthy (MotorStateMachine_init fast_config);
          offline = normal_sample\<lparr>online := False\<rparr>;
          (t1, m) = handle m (Event_sensor_sample offline);
          (offline_fault, m) = handle m (Event_sensor_sample offline);
          (r', internal_machine) = start_healthy (MotorStateMachine_init fast_config);
          (internal_fault, internal_machine) = handle internal_machine Event_internal_fault in
      r @ [\<not> changed t1, StateTransition.current offline_fault = MotorState.fault_latched,
           reason offline_fault = TransitionReason.sensor_offline] @
      r' @ [StateTransition.current internal_fault = MotorState.fault_latched,
            reason internal_fault = TransitionReason.internal_resource_failure])"

definition test_safe_shutdown_from_any_active_state :: "bool list" where
  "test_safe_shutdown_from_any_active_state =
     (let (r, m) = start_healthy (MotorStateMachine_init fast_config);
          (shutdown, m) = handle m Event_shutdown_requested;
          (t, m) = handle m Event_startup in
      r @ [StateTransition.current shutdown = MotorState.safe_shutdown, reason shutdown = TransitionReason.shutdown_requested,
           \<not> changed t])"

subsection \<open>\<open>command_parser_test.cpp\<close>\<close>

definition test_simple_commands :: "bool list" where
  "test_simple_commands =
     [c_kind (r_command (parse_command ''status'')) = CommandKind.status,
      c_kind (r_command (parse_command ('' metrics'' @ [CHR 0x0A]))) = CommandKind.metrics,
      c_kind (r_command (parse_command ''reset'')) = CommandKind.reset,
      c_kind (r_command (parse_command ''clear'')) = CommandKind.clear,
      c_kind (r_command (parse_command ''shutdown'')) = CommandKind.shutdown]"

definition test_injection_commands :: "bool list" where
  "test_injection_commands =
     (let temperature = parse_command ''inject temperature 105.5'';
          vibration = parse_command ''inject vibration 12'';
          amperage = parse_command ''inject current 24'';
          offline = parse_command ''inject offline'' in
      [ok temperature, c_kind (r_command temperature) = CommandKind.inject,
       c_target (r_command temperature) = InjectionTarget.temperature,
       deq (c_value (r_command temperature)) (dlit (1055 / 10)),
       c_target (r_command vibration) = InjectionTarget.vibration,
       c_target (r_command amperage) = InjectionTarget.current,
       ok offline, c_target (r_command offline) = InjectionTarget.offline])"

definition test_rejects_untrusted_input :: "bool list" where
  "test_rejects_untrusted_input =
     [r_error (parse_command []) = ParseError.empty,
      r_error (parse_command ''unknown'') = ParseError.unknown_command,
      r_error (parse_command ''inject temperature nan'') = ParseError.invalid_number,
      r_error (parse_command ''inject temperature 999'') = ParseError.out_of_range,
      r_error (parse_command ''status extra'') = ParseError.wrong_argument_count,
      r_error (parse_command (replicate 300 CHR ''x'')) = ParseError.too_long]"

subsection \<open>\<open>bounded_queue_test.cpp\<close>\<close>

definition test_fifo_capacity_and_statistics :: "bool list" where
  "test_fifo_capacity_and_statistics =
     (let (r1, q) = try_push (BoundedQueue_init 2) (10 :: int);
          (r2, q) = try_push q 20;
          (r3, q) = try_push q 30;
          (first, q) = try_pop q;
          (second, q) = try_pop q;
          (third, q) = try_pop q;
          stats = queue_stats q in
      [r1 = QueuePushResult.pushed, r2 = QueuePushResult.pushed, r3 = QueuePushResult.full,
       first \<noteq> None, second \<noteq> None, first = Some 10, second = Some 20, third = None,
       st_high_watermark stats = 2, st_pushed stats = 2, st_popped stats = 2, st_rejected_full stats = 1])"

text \<open>
  The next two tests let another thread wait before they act. The model runs the order they aim at, in
  which the first condition of each group says that the other thread does wait.
\<close>

definition test_close_wakes_waiting_consumer :: "bool list" where
  "test_close_wakes_waiting_consumer =
     (let queue = BoundedQueue_init 1 :: int BoundedQueue;
          closed_queue = close queue;
          (r1, full_queue) = try_push (BoundedQueue_init 1) (7 :: int);
          blocked = wait_push full_queue 8 False;
          full_queue = close full_queue;
          producer = wait_push full_queue 8 False;
          full_queue = (case producer of Some (r, q) \<Rightarrow> q | None \<Rightarrow> full_queue);
          first = wait_pop full_queue;
          full_queue = (case first of Some (r, q) \<Rightarrow> q | None \<Rightarrow> full_queue) in
      [wait_pop queue = None, map_option fst (wait_pop closed_queue) = Some None, is_closed closed_queue,
       fst (try_push closed_queue 1) = QueuePushResult.closed,
       r1 = QueuePushResult.pushed, blocked = None,
       map_option fst producer = Some QueuePushResult.closed,
       map_option fst first = Some (Some 7), map_option fst (wait_pop full_queue) = Some None])"

definition test_waiting_producer_observes_available_space :: "bool list" where
  "test_waiting_producer_observes_available_space =
     (let (r1, queue) = try_push (BoundedQueue_init 1) (1 :: int);
          blocked = wait_push queue 2 False;
          (first, queue) = try_pop queue;
          producer = wait_push queue 2 False;
          queue = (case producer of Some (r, q) \<Rightarrow> q | None \<Rightarrow> queue) in
      [r1 = QueuePushResult.pushed, blocked = None, first = Some 1,
       map_option fst producer = Some QueuePushResult.pushed, fst (try_pop queue) = Some 2])"

subsection \<open>\<open>memory_pool_test.cpp\<close>\<close>

text \<open>
  The address of the first slot is an argument, and so is the distance of the slots. The numbers of
  constructor and destructor calls that the test counts are the numbers of successful allocations and
  releases here: the pool does both together.
\<close>

definition test_raii_and_statistics :: "nat \<Rightarrow> nat \<Rightarrow> bool list" where
  "test_raii_and_statistics base stride =
     (let pool = \<lparr>s_pool = FixedObjectPool_init 2 base stride, s_handles = []\<rparr> :: int pool_state;
          s = handle_run pool [Declare, Create 0 (Some 11), Declare, Create 1 (Some 22)];
          t = handle_run s [Declare, Create 2 (Some 33)];
          u = handle_run t [MoveConstruct 0];
          v = handle_run u [Reset 3];
          w = handle_run v [Reset 1] in
      [ps_capacity (pool_stats (s_pool pool)) = 2,
       handle_valid (s_handles s ! 0), handle_valid (s_handles s ! 1),
       handle_deref (s_pool s) (s_handles s ! 0) = Some 11,
       handle_deref (s_pool s) (s_handles s ! 1) = Some 22,
       ps_in_use (pool_stats (s_pool s)) = 2, ps_high_watermark (pool_stats (s_pool s)) = 2,
       \<not> handle_valid (s_handles t ! 2), ps_allocation_failures (pool_stats (s_pool t)) = 1,
       \<not> handle_valid (s_handles u ! 0), handle_valid (s_handles u ! 3),
       ps_in_use (pool_stats (s_pool v)) = 1, outstanding (s_pool w) = 0,
       ps_successful_allocations (pool_stats (s_pool w)) = 2,
       ps_successful_releases (pool_stats (s_pool w)) = 2])"

definition test_alignment :: "nat \<Rightarrow> nat \<Rightarrow> bool list" where
  "test_alignment base stride =
     (let pool = \<lparr>s_pool = FixedObjectPool_init 1 base stride, s_handles = []\<rparr> :: uint64 list pool_state;
          s = handle_run pool [Declare, Create 0 (Some (replicate 8 0))];
          v = s_handles s ! 0 in
      [handle_valid v, handle_get v mod 64 = 0])"

definition test_invalid_and_double_release_detection :: "nat \<Rightarrow> nat \<Rightarrow> pointer \<Rightarrow> bool list" where
  "test_invalid_and_double_release_detection base stride foreign =
     (let s = handle_run \<lparr>s_pool = FixedObjectPool_init 1 base stride, s_handles = []\<rparr>
            [Declare, Create 0 (Some (7 :: int))];
          (raw, s) = handle_release s 0;
          (r1, p) = destroy (s_pool s) raw;
          (r2, p) = destroy p raw;
          (r3, p) = destroy p foreign in
      [r1 = PoolReleaseResult.released, r2 = PoolReleaseResult.double_release,
       r3 = PoolReleaseResult.foreign_pointer, ps_invalid_releases (pool_stats p) = 2])"

subsection \<open>\<open>protocols_test.cpp\<close>\<close>

fun feed_each :: "UartFrameDecoder \<Rightarrow> byte list \<Rightarrow> UartFrame option list \<times> UartFrameDecoder" where
  "feed_each d [] = ([], d)"
| "feed_each d (b # bs) = (let (r, d) = feed d b; (rs, d) = feed_each d bs in (r # rs, d))"

definition test_uart_round_trip_fragmentation_and_crc :: "bool list" where
  "test_uart_round_trip_fragmentation_and_crc =
     (let input = \<lparr>uf_kind = MeasurementKind.temperature, uf_sequence = 42, uf_milli_value = 105500\<rparr>;
          encoded = encode_uart_frame input;
          (early, decoder) = feed_each UartFrameDecoder_init (butlast encoded);
          (decoded, decoder) = feed decoder (last encoded);
          corrupted = encoded[6 := encoded ! 6 XOR 0x01];
          (results, corrupt_decoder) = feed_each UartFrameDecoder_init corrupted in
      map Option.is_none early @
      [decoded \<noteq> None, map_option uf_kind decoded = Some MeasurementKind.temperature,
       map_option uf_sequence decoded = Some 42, map_option uf_milli_value decoded = Some 105500] @
      map Option.is_none results @ [crc_errors corrupt_decoder = 1])"

definition test_can_id_and_big_endian_mapping :: "bool list" where
  "test_can_id_and_big_endian_mapping =
     (let message = \<lparr>cm_id = kCanTemperatureId, cm_length = 4,
                     cm_data = [0x00, 0x01, 0x9C, 0x1C, 0, 0, 0, 0]\<rparr>;
          measurement = decode_can_message message in
      [measurement \<noteq> None, map_option me_kind measurement = Some MeasurementKind.temperature,
       map_option (\<lambda>m. deq (me_value m) (dlit (1055 / 10))) measurement = Some True,
       decode_can_message (message\<lparr>cm_id := 0x777\<rparr>) = None])"

text \<open>The state of the fake bus is the flag that makes it fail.\<close>

definition FakeI2cBus :: "bool bus" where
  "FakeI2cBus fail_reads reg n =
     (let copy = \<lambda>v :: uint16. [byte_at 8 v, byte_at 0 v] in
      if fail_reads then None
      else if reg = kTemperatureRegister then Some (copy 8625)
      else if reg = kVibrationRegister then Some (copy 725)
      else if reg = kCurrentRegister then Some (copy 1450)
      else if reg = kStatusRegister then Some [0x01]
      else None, fail_reads)"

definition test_i2c_register_map_and_read_failure :: "bool list" where
  "test_i2c_register_map_and_read_failure =
     (let (reading, reader, bus) = i2c_read FakeI2cBus False I2cSensorReader_init;
          (failed, reader, bus) = i2c_read FakeI2cBus True reader in
      [deq (temperature_c reading) (dlit (8625 / 100)), deq (vibration_mm_s reading) (dlit (725 / 100)),
       deq (current_a reading) (dlit (145 / 10)), SensorSample.online reading,
       \<not> SensorSample.online failed, SensorSample.sequence failed = SensorSample.sequence reading + 1])"

section \<open>The model passes the tests\<close>

lemma smoke_test: "run_test test_version = 0"
  by (simp add: run_test_def test_version_def kProjectName_def kVersion_def)

lemma state_machine_test:
  "run_test (test_warning_hysteresis_and_recovery @ test_critical_fault_is_latched_until_reset @
     test_sensor_offline_and_internal_fault @ test_safe_shutdown_from_any_active_state) = 0"
  by code_simp

lemma deq_dlit [simp]: "deq (dlit q) (dlit q)"
  by (simp add: deq_def dle_finite)

lemma run_test_append: "run_test (xs @ ys) = 0 \<longleftrightarrow> run_test xs = 0 \<and> run_test ys = 0"
  by (simp add: run_test_def)

text \<open>Texts and numbers of the parser's test.\<close>

lemma test_numbers:
  "parse_number ''105.5'' = Some (dlit (1055 / 10))" "parse_number ''12'' = Some (dlit 12)"
  "parse_number ''24'' = Some (dlit 24)" "parse_number ''999'' = Some (dlit 999)" "parse_number ''nan'' = None"
proof -
  have "scan_decimal ''105.5'' = Some (1055 / 10, [])" "scan_decimal ''12'' = Some (12, [])"
    "scan_decimal ''24'' = Some (24, [])" "scan_decimal ''999'' = Some (999, [])"
    by (simp_all add: scan_decimal_def is_digit_def digits_value_def scan_exponent_def)
  moreover have "to_double False (1055 / 10) = dlit (1055 / 10)" "to_double False 12 = dlit 12"
    "to_double False 24 = dlit 24" "to_double False 999 = dlit 999"
    using to_double_dyadic [of 211 1 False] to_double_of_nat [of 12 False] to_double_of_nat [of 24 False]
      to_double_of_nat [of 999 False] by (simp_all add: dlit_def)
  ultimately show "parse_number ''105.5'' = Some (dlit (1055 / 10))" "parse_number ''12'' = Some (dlit 12)"
    "parse_number ''24'' = Some (dlit 24)" "parse_number ''999'' = Some (dlit 999)"
    by (simp_all add: parse_number_def from_chars_def)
  show "parse_number ''nan'' = None" by code_simp
qed

lemma inject_line:
  assumes "tokenize (trim input) = \<lparr>t_values = [''inject'', name, number, []], t_count = 3, t_overflow = False\<rparr>"
    and "length input \<le> 256" and "trim input \<noteq> []"
    and "map_of inject_targets name = Some target" and "target \<noteq> InjectionTarget.offline"
  shows "parse_command input = inject_command target [number]"
  using assms
  by (auto simp: parse_command_def kMaximumCommandLength_def Let_def inject_command_def inject_targets_def split: if_splits option.splits)

lemma command_parser_test:
  "run_test (test_simple_commands @ test_injection_commands @ test_rejects_untrusted_input) = 0"
proof -
  have "parse_command ''inject temperature 105.5'' = inject_command InjectionTarget.temperature [''105.5'']"
    "parse_command ''inject vibration 12'' = inject_command InjectionTarget.vibration [''12'']"
    "parse_command ''inject current 24'' = inject_command InjectionTarget.current [''24'']"
    "parse_command ''inject temperature nan'' = inject_command InjectionTarget.temperature [''nan'']"
    "parse_command ''inject temperature 999'' = inject_command InjectionTarget.temperature [''999'']"
    by (rule inject_line, code_simp, simp, code_simp, simp add: inject_targets_def, simp)+
  moreover have "list_all id test_simple_commands" by code_simp
  moreover have "ok (parse_command ''inject offline'')"
    "c_target (r_command (parse_command ''inject offline'')) = InjectionTarget.offline" by code_simp+
  moreover have "r_error (parse_command []) = ParseError.empty"
    "r_error (parse_command ''unknown'') = ParseError.unknown_command"
    "r_error (parse_command ''status extra'') = ParseError.wrong_argument_count" by code_simp+
  moreover have "r_error (parse_command (replicate 300 CHR ''x'')) = ParseError.too_long"
    by (simp add: parse_command_def kMaximumCommandLength_def failure_def)
  ultimately show ?thesis
    by (simp add: run_test_def test_injection_commands_def test_rejects_untrusted_input_def Let_def
        inject_command_def test_numbers in_range_def success_def failure_def ok_def dge_finite dle_finite)
qed

lemma bounded_queue_test:
  "run_test (test_fifo_capacity_and_statistics @ test_close_wakes_waiting_consumer @
     test_waiting_producer_observes_available_space) = 0"
  by code_simp

lemma memory_pool_test:
  "run_test (test_raii_and_statistics 8 8 @ test_alignment 64 64 @
     test_invalid_and_double_release_detection 8 8 5) = 0"
  by code_simp

text \<open>Bytes and readings of the test of the protocols.\<close>

lemma test_checksums:
  "crc16_ccitt [170, 85, 1, 1, 0, 42, 0, 1, 156, 28] = 0xDB89"
  "crc16_ccitt [170, 85, 1, 1, 0, 42, 1, 1, 156, 28] = 0xAD3D"
  by (simp_all add: crc16_ccitt_def crc_byte_eval crc_bit_def)

lemma test_frame_bytes:
  "encode_uart_frame \<lparr>uf_kind = MeasurementKind.temperature, uf_sequence = 42, uf_milli_value = 105500\<rparr> =
     [170, 85, 1, 1, 0, 42, 0, 1, 156, 28, 219, 137]"
  by (simp add: encode_uart_frame_def uart_payload_def magic_defs byte_at_def Let_def test_checksums)

lemma blank_buffer: "replicate 12 (0 :: byte) = [0, 0, 0, 0, 0, 0, 0, 0, 0, 0, 0, 0]"
  by (simp add: numeral_eq_Suc)

lemma test_readings:
  "ddiv (double_of_int 105500) (dlit 1000) = dlit (211 / 2)" "ddiv (double_of_int 8625) (dlit 100) = dlit (345 / 4)"
  "ddiv (double_of_int 725) (dlit 100) = dlit (29 / 4)" "ddiv (double_of_int 1450) (dlit 100) = dlit (29 / 2)"
  using to_double_dyadic [of 211 1 False] to_double_dyadic [of 345 2 False] to_double_dyadic [of 29 2 False]
    to_double_dyadic [of 29 1 False]
  by (simp_all add: double_of_int_def dlit_def)

lemma uart_test: "run_test test_uart_round_trip_fragmentation_and_crc = 0"
  by (simp add: run_test_def test_uart_round_trip_fragmentation_and_crc_def test_frame_bytes blank_buffer
      feed_def complete_frame_def UartFrameDecoder_init_def magic_defs kUartFrameSize_def Let_def join16_def
      join32_def test_checksums MeasurementKind_cast_def crc_errors_def)

lemma can_test: "run_test test_can_id_and_big_endian_mapping = 0"
  by (simp add: run_test_def test_can_id_and_big_endian_mapping_def decode_can_message_def Let_def
      kCanTemperatureId_def kCanVibrationId_def kCanCurrentId_def kCanOnlineId_def join32_def test_readings)

lemma i2c_test: "run_test test_i2c_register_map_and_read_failure = 0"
  by (simp add: run_test_def test_i2c_register_map_and_read_failure_def i2c_read_def i2c_registers_def
      FakeI2cBus_def Let_def I2cSensorReader_init_def kTemperatureRegister_def kVibrationRegister_def
      kCurrentRegister_def kStatusRegister_def decode_u16_def byte_simps test_readings)

lemma protocols_test:
  "run_test (test_uart_round_trip_fragmentation_and_crc @ test_can_id_and_big_endian_mapping @
     test_i2c_register_map_and_read_failure) = 0"
  by (simp add: run_test_append uart_test can_test i2c_test)

end
