(* ===== verification/Spec2Isabelle.thy ===== *)
theory Spec2Isabelle
  imports Queue_Waiters Sensor_Adapters Event_Delivery Pipeline_Benchmark Unit_Tests
begin

text \<open>
  A verification development for EdgeSentinel, a C++20 service that supervises a motor: sensor samples
  become events, the events pass through a fixed object pool and a bounded queue to one control thread,
  and the control thread drives a protection state machine. A local socket accepts commands, and three
  Linux buses or a simulation deliver the samples. File names below are relative to \<open>src/\<close>, and headers
  to \<open>include/edge_sentinel/\<close>.

  \<^bold>\<open>The program and its theories.\<close>

  \<^item> \<open>Prelude\<close>, \<open>Binary64\<close> and \<open>Text_Output\<close> hold what the sources use of the language and its library:
    integers of fixed width as words, \<open>double\<close> as rational values with NaN, infinities and signed zero
    and rounding to nearest even, and the decimal output of \<open>operator<<\<close>.
  \<^item> \<open>Domain\<close>: \<open>domain/event.hpp\<close>, \<open>domain/state.hpp\<close> and \<open>domain/format.hpp\<close>.
  \<^item> \<open>Motor_FSM\<close>: \<open>fsm/motor_state_machine.hpp\<close>. The object is the record \<^typ>\<open>MotorStateMachine\<close>, its
    counters are 64-bit words, and \<open>handle\<close>, \<open>handle_sample\<close> and \<open>transition_to\<close> are state-passing
    functions with the branches of the methods.
  \<^item> \<open>Bounded_Queue\<close> and \<open>Queue_Waiters\<close>: \<open>concurrency/bounded_queue.hpp\<close>. The first has the ring buffer
    and each critical section as a function; the second has the mutex, the condition variables and the
    threads that sleep on them as a step relation.
  \<^item> \<open>Object_Pool\<close>: \<open>memory/fixed_object_pool.hpp\<close>, with the slots and the free list by index, and the
    owning handles with their moves.
  \<^item> \<open>Crc16\<close>, \<open>Measurement\<close>, \<open>Uart_Protocol\<close>, \<open>Can_Protocol\<close>, \<open>I2c_Sensor\<close>: the headers of
    \<open>protocols/\<close>. \<open>Command\<close>: \<open>ipc/command.hpp\<close>.
  \<^item> \<open>Runtime_Metrics\<close>, \<open>Edge_Runtime\<close> and \<open>Runtime_Calls\<close>: \<open>runtime/runtime_metrics.hpp\<close> and
    \<open>runtime/edge_runtime.hpp\<close>. The state of the runtime has the queue, the pool, the machine, the
    metrics and a program counter for each thread; \<open>start_step\<close>, \<open>stop_step\<close>, \<open>publish_step\<close> and
    \<open>control_step\<close> are the steps of a thread between two actions other threads can see, and \<open>rt_step\<close>
    interleaves them freely. \<open>Runtime_Calls\<close> composes the steps of one caller into a call of \<open>publish\<close>.
  \<^item> \<open>Runtime_Tasks\<close>, \<open>Sample_Flow\<close>, \<open>Task_Runs\<close>, \<open>Runtime_Liveness\<close> and \<open>Event_Delivery\<close>: the same header in more
    detail.
    \<open>sensor_loop\<close>, \<open>monitor_loop\<close> and \<open>wait_for_period\<close> are the loops of the two tasks with their stop tokens,
    \<open>start_task\<close> and \<open>stop_task\<close> create, stop and join the threads, and \<open>task_step\<close> labels each step with its
    thread. The other four follow the samples, construct runs, and treat fair runs.
  \<^item> \<open>Sensor_Source\<close>, \<open>Simulated_Sensor\<close>: \<open>hal/sensor_source.hpp\<close> and \<open>simulation/simulated_sensor.hpp\<close>.
  \<^item> \<open>Unique_Fd\<close>, \<open>Sensor_Adapters\<close>, \<open>Command_Server\<close>: \<open>linux/unique_fd.hpp\<close>, and
    \<open>src/linux/sensor_adapters.cpp\<close> and \<open>src/linux/unix_command_server.cpp\<close> with their headers.
  \<^item> \<open>Daemon\<close> and \<open>Client_Programs\<close>: \<open>apps/edge_sentinel_daemon.cpp\<close>, \<open>apps/edgectl_main.cpp\<close> and
    \<open>apps/edge_sentinel_main.cpp\<close>, with \<open>version.hpp\<close>.
  \<^item> \<open>Pipeline_Benchmark\<close>: \<open>benchmarks/event_pipeline_benchmark.cpp\<close>, its producer and its consumer as
    labelled steps over the pool and the queue, and its report. \<open>Unit_Tests\<close>: the tests of \<open>tests/\<close> that run in
    one thread, as lists of the conditions they check, evaluated on the model.
  \<^item> \<open>Fairness\<close>: runs of labelled steps, weak fairness to a thread, and the rule for liveness.

  \<^bold>\<open>The operating system.\<close> The kernel is not part of the sources. The results of system calls are
  arguments of the definitions that make them, as records or lists of answers, and each property quantifies
  over them; the table of open descriptors and the directory entry of the socket path are explicit, since
  properties speak about leaks and about removed files. The I2C bus is an argument in the same way, and so
  are the clock, the duration of a wait and the order in which threads run.

  \<^bold>\<open>What the lemmas show.\<close>

  \<^item> The machine: it agrees with a specification over the history of samples, its report names exactly the
    states that change, a latched fault stays until a reset, runs of critical or offline samples latch it in
    bounded time, the hysteresis band keeps the state, and no counter wraps.
  \<^item> The queue: it refines a list, it is first-in first-out over any sequence of calls, closing drains it,
    no waiting thread misses its wake-up, and the blocking calls of many threads have the effect of single
    operations in some order. The pool: live objects are those that were created and not
    released, the classification of a release is exact, and owners through moves are unique.
  \<^item> The runtime: an invariant of all reachable states gives each pool object exactly one owner; from it
    follow memory safety, the bound on the pool, that the machine has handled the accepted events in order,
    and what holds when \<open>stop\<close> has returned. Termination is by ranks that every own step lowers and no
    step of another thread raises. The detailed tasks refine these steps; the samples the machine sees are
    those the sensor task has read, in order; critical readings latch the fault through the whole pipeline.
  \<^item> Fair runs: calls of \<open>start\<close>, \<open>stop\<close> and \<open>publish\<close> return under every scheduling that does not keep a thread
    waiting for ever that could move; every accepted event is handled, for which fairness to the control task
    is enough. The benchmark ends as well, with every event delivered once and in order
    and every object given back. Its percentiles are the elements of the sorted latencies they should be.
  \<^item> The protocols: a stream of frames decodes to its measurements, the checksum detects all bursts of at
    most 16 bits, the decoder accepts nothing else, CAN and I2C values are within a
    tiny error of the transmitted ones and compare with whole thresholds as those do. The parser accepts the
    words of the grammar and numbers in range only, and rounding never carries a number across a threshold.
  \<^item> The Linux layer: descriptors are closed once and never leaked, failed constructors included; the
    server replaces nothing but its own sockets, and leaves a new one behind only if an \<open>unlink\<close> fails; a request is served whatever pieces it arrives in.
  \<^item> This theory joins the parts: from what happens on a bus to the latched fault, from an operator's
    command to the latched fault, and from the words given to \<open>edgectl\<close> to the parsed command.

  \<^bold>\<open>Interfaces.\<close> \<open>fifo_channel\<close> (the queue), \<open>object_allocator\<close> (the pool), \<open>supervised_machine\<close> (the state
  machine), \<open>sensor_source\<close> and its extension \<open>monitored_source\<close> (the sensors) are locales. They are
  interpreted on the definitions of the model: the queue, the pool, the machine, and for the sensors the
  simulated sensor and the three Linux sources. \<open>ranked_progress\<close> is the rule for liveness, interpreted on the
  lifecycle of the runtime, on the calls of \<open>publish\<close>, on the work of the control task and on the benchmark.

  \<^bold>\<open>Bounds.\<close> No definition has fuel. Loops over system calls recurse on the list of answers, and a list that
  ends before the loop does gives the value for a loop still running, so properties that promise a result
  state how many answers are enough. Publishing threads are unbounded in number, except where a property
  names the bound: 256 pool objects minus 128 queued and one at the control thread leave 127.

  \<^bold>\<open>Not modelled.\<close> The memory model below sequential consistency of atomics and mutexes; the C++ exceptions
  of thread creation and of string allocation; real time, of which the model only has that a timeout or a
  period may or may not have passed; numbers in hexadecimal or with more than decimal notation in
  \<open>std::from_chars\<close>, which the parser's call does not accept either; deleted copy operations and the
  declarations of the classes beyond their members. Of the tests, the two with several threads in any order
  and \<open>runtime_test.cpp\<close>, which depends on the time the tasks take, are left out; what they check holds in all
  interleavings by the properties of the queue, the pool and the runtime. The build files and the scripts
  have no behaviour of the service.
\<close>

section \<open>From a silent sensor to the latched fault\<close>

text \<open>
  C29. A sensor that falls silent stops the motor, whatever the bus: if for as many samples in a row as
  the configuration asks for a serial line delivers no complete frame, a CAN bus no measurement, or the
  registers of an I2C device cannot be read, then the machine that is fed with the samples latches the
  fault.
\<close>

theorem silent_sensors_latch:
  assumes "m = machine_run (MotorStateMachine_init cfg) es" and "operating (m_state m)"
    and "0 < k" and "unat (offline_samples cfg) \<le> k"
  shows "(\<forall>src xs. length xs = k \<and> along uart_silent uart_read xs src \<longrightarrow>
      m_state (machine_samples m (fst (source_reads uart_read xs src))) = MotorState.fault_latched) \<and>
    (\<forall>src xs. length xs = k \<and> along can_silent can_read xs src \<longrightarrow>
      m_state (machine_samples m (fst (source_reads can_read xs src))) = MotorState.fault_latched) \<and>
    (\<forall>src xs. length xs = k \<and> along i2c_silent i2c_source_read xs src \<longrightarrow>
      m_state (machine_samples m (fst (source_reads i2c_source_read xs src))) = MotorState.fault_latched)"
proof -
  have cfg: "m_config m = cfg" using assms(1) by (simp add: MotorStateMachine_init_def)
  have inv: "machine_inv m" using assms(1) machine_run_inv machine_inv_init by simp
  have len: "unat (offline_samples (m_config m)) \<le> k" using assms(4) cfg by simp
  show ?thesis
  proof (intro conjI allI impI; elim conjE)
    fix src xs
    assume k: "length xs = k" and quiet: "along uart_silent uart_read xs src"
    show "m_state (machine_samples m (fst (source_reads uart_read xs src))) = MotorState.fault_latched"
      by (rule uart_source.silence_latches [OF assms(2) inv _ _ quiet]) (use k len assms(3) in auto)
  next
    fix src xs
    assume k: "length xs = k" and quiet: "along can_silent can_read xs src"
    show "m_state (machine_samples m (fst (source_reads can_read xs src))) = MotorState.fault_latched"
      by (rule can_source.silence_latches [OF assms(2) inv _ _ quiet]) (use k len assms(3) in auto)
  next
    fix src xs
    assume k: "length xs = k" and quiet: "along i2c_silent i2c_source_read xs src"
    show "m_state (machine_samples m (fst (source_reads i2c_source_read xs src))) = MotorState.fault_latched"
      by (rule i2c_source.silence_latches [OF assms(2) inv _ _ quiet]) (use k len assms(3) in auto)
  qed
qed

theorem silent_sensors_latch_witness:
  "m_state (machine_samples
      (machine_run (MotorStateMachine_init ProtectionConfig_default) [Event_startup, Event_self_test_passed])
      (fst (source_reads uart_read [NoInput, ReadError 5, Data [0xAA]] UartSensorSource_init))) =
    MotorState.fault_latched"
proof -
  let ?m = "machine_run (MotorStateMachine_init ProtectionConfig_default) [Event_startup, Event_self_test_passed]"
  have m: "operating (m_state ?m)" by (simp add: healthy_after_start operating_def del: machine_run.simps)
  have "along uart_silent uart_read [NoInput, ReadError 5, Data [0xAA]] UartSensorSource_init"
    by (simp add: uart_silent_def uart_read_def UartSensorSource_init_def UniqueFd_default_def fd_valid_def Let_def)
  moreover have "unat (offline_samples ProtectionConfig_default) \<le> 3"
    by (simp add: ProtectionConfig_default_def)
  ultimately show ?thesis
    using silent_sensors_latch [OF refl m, of 3, THEN conjunct1]
    by (metis length_Cons list.size(3) numeral_3_eq_3 zero_less_Suc)
qed

section \<open>From an overheating motor on the CAN bus to the latched fault\<close>

text \<open>
  C30. An overheating motor is stopped: if every read of the CAN source finds a message that reports a
  temperature of at least the integral critical threshold of the configuration, in thousandths of a
  degree, then after twice the configured number of critical samples, less one, the machine has latched
  the fault.
\<close>

theorem overheating_latches:
  assumes "m = machine_run (MotorStateMachine_init cfg) es" and "operating (m_state m)"
    and "config_ok cfg" and "temperature_critical_c cfg = dlit (of_int crit)" and "\<bar>crit\<bar> < 2 ^ 22"
    and "can_valid src" and "2 * unat (critical_samples cfg) - 1 \<le> length frames"
    and "\<forall>f \<in> set frames. \<exists>v. can_message_of f = can_value_message kCanTemperatureId v \<and> 1000 * crit \<le> sint v"
  shows "m_state (machine_samples m (fst (source_reads can_read (map (\<lambda>f. Data (Some f)) frames) src))) =
    MotorState.fault_latched"
proof -
  have cfg: "m_config m = cfg" using assms(1) by (simp add: MotorStateMachine_init_def)
  have inv: "machine_inv m" using assms(1) machine_run_inv machine_inv_init by simp
  let ?P = "\<lambda>e s. SensorSample.online (fst (can_read e s)) \<and> is_critical cfg (fst (can_read e s))"
  have "along ?P can_read (map (\<lambda>f. Data (Some f)) fs) s"
    if "can_valid s" "set fs \<subseteq> set frames" for fs s
    using that
  proof (induction fs arbitrary: s)
    case (Cons f fs)
    obtain v where v: "can_message_of f = can_value_message kCanTemperatureId v" "1000 * crit \<le> sint v"
      using assms(8) Cons.prems(2) by auto
    have hot: "dge (ddiv (double_of_int (sint v)) (dlit 1000)) (temperature_critical_c cfg)"
      using thousandths_cmp(1) [OF assms(5), of v] v(2) assms(4) by simp
    note r = can_read_temperature [OF Cons.prems(1) v(1)]
    have "?P (Data (Some f)) s" using r(1,2) hot by (simp add: is_critical_def)
    moreover have "can_valid (snd (can_read (Data (Some f)) s))" by (rule r(3))
    ultimately show ?case using Cons by simp
  qed simp
  then show ?thesis
    using can_source.critical_latches [OF assms(2) inv, of "map (\<lambda>f. Data (Some f)) frames" src]
      assms(3,6,7) cfg by simp
qed

theorem overheating_latches_witness:
  "let m = machine_run (MotorStateMachine_init ProtectionConfig_default) [Event_startup, Event_self_test_passed];
       src = SocketCanSensorSource_init\<lparr>cs_descriptor := UniqueFd_of 3\<rparr>;
       frame = \<lparr>cf_can_id = kCanTemperatureId, cf_can_dlc = 4,
                cf_data = cm_data (can_value_message kCanTemperatureId 105500)\<rparr>
   in m_state (machine_samples m (fst (source_reads can_read (map (\<lambda>f. Data (Some f)) [frame, frame, frame]) src))) =
      MotorState.fault_latched"
proof -
  let ?m = "machine_run (MotorStateMachine_init ProtectionConfig_default) [Event_startup, Event_self_test_passed]"
  let ?src = "SocketCanSensorSource_init\<lparr>cs_descriptor := UniqueFd_of 3\<rparr>"
  let ?f = "\<lparr>cf_can_id = kCanTemperatureId, cf_can_dlc = 4,
             cf_data = cm_data (can_value_message kCanTemperatureId 105500)\<rparr>"
  have "m_state (machine_samples ?m (fst (source_reads can_read (map (\<lambda>f. Data (Some f)) [?f, ?f, ?f]) ?src))) =
      MotorState.fault_latched"
  proof (rule overheating_latches [OF refl _ config_ok_default, of _ 95])
    show "operating (m_state ?m)" by (simp add: healthy_after_start operating_def del: machine_run.simps)
    show "temperature_critical_c ProtectionConfig_default = dlit (of_int 95)"
      by (simp add: ProtectionConfig_default_def)
    show "can_valid ?src" by (simp add: can_valid_def fd_valid_def UniqueFd_of_def)
    show "2 * unat (critical_samples ProtectionConfig_default) - 1 \<le> length [?f, ?f, ?f]"
      by (simp add: ProtectionConfig_default_def)
    have "can_message_of ?f = can_value_message kCanTemperatureId 105500"
      by (simp add: can_message_of_def can_value_message_def CAN_EFF_MASK_def kCanTemperatureId_def)
    then show "\<forall>f \<in> set [?f, ?f, ?f]. \<exists>v. can_message_of f = can_value_message kCanTemperatureId v \<and> 1000 * 95 \<le> sint v"
      by (auto intro!: exI [of _ 105500])
  qed simp
  then show ?thesis unfolding Let_def .
qed

section \<open>From the command line to the latched fault\<close>

text \<open>
  C31. The drill works: with a usable configuration, the command that injects a temperature of at least the
  critical threshold and at most 200 degrees, written in digits with or without a fraction and short
  enough for a request, is answered with success, and if nobody touches
  the sensor afterwards, twice the configured number of critical samples, less one, make the machine latch
  the fault. The temperature need not be a double: what is compared is the number as written. The
  threshold is a positive binary fraction of at most 53 bits, at most 52 of them after the point, which
  every double from 1 to 200 is.
\<close>

theorem injected_fault_latches:
  assumes "m = machine_run (MotorStateMachine_init cfg) es" and "operating (m_state m)"
    and "config_ok cfg" and "temperature_critical_c cfg = dlit (of_nat crit / 2 ^ j)"
    and "0 < crit" and "crit < 2 ^ 53" and "j \<le> 52"
    and "whole \<noteq> []" and "\<forall>c \<in> set (whole @ fraction). is_digit c"
    and "of_nat crit / 2 ^ j \<le> number_value whole fraction" and "number_value whole fraction \<le> 200"
    and "command = unwords [''inject'', ''temperature'', number_text whole fraction]"
    and "length command < kMaximumCommandLength"
    and "build_response (line command) snapshot sensor = (action, sensor')"
    and "2 * unat (critical_samples cfg) - 1 \<le> k"
  shows "action = Respond ''ok=injection_set'' \<and>
    m_state (machine_samples m (fst (source_reads simulated_source (replicate k []) sensor'))) =
      MotorState.fault_latched"
proof -
  have cfg: "m_config m = cfg" using assms(1) by (simp add: MotorStateMachine_init_def)
  have inv: "machine_inv m" using assms(1) machine_run_inv machine_inv_init by simp
  obtain v where v: "parse_number (number_text whole fraction) = Some v" "isfinite v"
    "of_nat crit / 2 ^ j \<le> dval v" "dval v \<le> of_nat 200"
    using parse_number_text [OF assms(9,8,5-7,10), of 200] assms(11) by auto
  have "0 < (of_nat crit / 2 ^ j :: rat)" using assms(5) by simp
  then have range: "in_range InjectionTarget.temperature v"
    using v by (simp add: in_range_def dge_finite dle_finite)
  have sensor: "action = Respond ''ok=injection_set''" "shown sensor' = nominal_sample\<lparr>temperature_c := v\<rparr>"
    using inject_temperature [OF number_text_word [OF assms(9,8)] assms(13) [unfolded assms(12)] v(1) range
        assms(14) [unfolded line_def assms(12)]] by simp_all
  have "dge v (temperature_critical_c cfg)" using v(2,3) assms(4) by (simp add: dge_finite)
  then have "is_critical cfg ((shown sensor')\<lparr>sequence := i\<rparr>)" "SensorSample.online ((shown sensor')\<lparr>sequence := i\<rparr>)" for i
    using sensor(2) by (simp_all add: is_critical_def nominal_sample_def)
  then have "\<forall>v \<in> set (fst (source_reads simulated_source (replicate k []) sensor')).
      SensorSample.online v \<and> is_critical (m_config m) v"
    using undisturbed_reads [of k sensor'] cfg by force
  then show ?thesis
    using operating_detects_critical [OF assms(2) inv] assms(3,15) cfg sensor(1) by simp
qed

theorem injected_fault_latches_witness:
  "let m = machine_run (MotorStateMachine_init ProtectionConfig_default) [Event_startup, Event_self_test_passed];
       (action, sensor) = build_response (line ''inject temperature 105.5'')
         (runtime_snapshot (\<lambda>_. runtime_init ProtectionConfig_default 4096 64 3)) (SimulatedSensor_init nominal_sample)
   in action = Respond ''ok=injection_set'' \<and>
     m_state (machine_samples m (fst (source_reads simulated_source [[], [], []] sensor))) = MotorState.fault_latched"
proof -
  let ?m = "machine_run (MotorStateMachine_init ProtectionConfig_default) [Event_startup, Event_self_test_passed]"
  obtain a s where r: "build_response (line ''inject temperature 105.5'')
      (runtime_snapshot (\<lambda>_. runtime_init ProtectionConfig_default 4096 64 3)) (SimulatedSensor_init nominal_sample) = (a, s)"
    by fastforce
  have m: "operating (m_state ?m)" by (simp add: healthy_after_start operating_def del: machine_run.simps)
  have crit: "temperature_critical_c ProtectionConfig_default = dlit (of_nat 95 / 2 ^ 0)"
    and samples: "2 * unat (critical_samples ProtectionConfig_default) - 1 \<le> 3"
    by (simp_all add: ProtectionConfig_default_def)
  have digits: "\<forall>c \<in> set (''105'' @ ''5''). is_digit c" by (simp add: is_digit_def)
  have num: "number_value ''105'' ''5'' = 1055 / 10" by (simp add: number_value_def digits_value_def)
  have cmd: "''inject temperature 105.5'' = unwords [''inject'', ''temperature'', number_text ''105'' ''5'']"
    by (simp add: number_text_def)
  have "a = Respond ''ok=injection_set'' \<and>
      m_state (machine_samples ?m (fst (source_reads simulated_source (replicate 3 []) s))) = MotorState.fault_latched"
    by (rule injected_fault_latches [OF refl m config_ok_default crit _ _ _ _ digits _ _ cmd _ r samples])
       (simp_all add: num kMaximumCommandLength_def)
  then show ?thesis unfolding Let_def r by (simp add: numeral_3_eq_3)
qed

text \<open>
  C32. What is typed is what is executed: the words given to \<open>edgectl\<close>, sent in any number of pieces,
  arrive at the server as one request, which the parser understands as exactly these words, provided
  that the command has less than 256 characters; a command of 256 characters, which the client accepts,
  is refused by the server.
\<close>

theorem edgectl_command_arrives:
  assumes "\<forall>w \<in> set ws. is_word w \<and> w \<noteq> ''--socket''" and "ws \<noteq> []"
    and "edgectl_main os default_path ws t = Some (r, t')" and "er_exit r = 0"
    and "pieces ios" and "payload ios = er_sent r"
  shows "(length (unwords ws) < kMaximumCommandLength \<longrightarrow>
      receive [] (ios @ rest) = Request (er_sent r) \<and> parse_command (er_sent r) = command_of_words ws) \<and>
    (kMaximumCommandLength \<le> length (unwords ws) \<longrightarrow> length (unwords ws) = kMaximumCommandLength \<and>
      (\<exists>request. receive [] (ios @ rest) = Request request \<and>
        respond handler st request = (Some too_long_response, st)))"
proof -
  have words: "\<forall>w \<in> set ws. is_word w" using assms(1) by simp
  have sent: "er_sent r = unwords ws @ [CHR 0x0A]" "length (unwords ws) \<le> kMaximumCommandLength"
    using edgectl_success [OF assms(1,3,4)] by simp_all
  have nl: "CHR 0x0A \<notin> set (unwords ws)" using unwords_one_line [OF words] .
  have rc: "receive [] (ios @ rest) = Request (take buffer_size (unwords ws @ [CHR 0x0A]))"
    using receive_line [OF assms(5) _ _ _ nl, of "[]" rest] assms(6) sent(1) by (simp add: buffer_size_eq)
  have fits: "take buffer_size (unwords ws @ [CHR 0x0A]) = unwords ws @ [CHR 0x0A]"
    using sent(2) by (simp add: buffer_size_def)
  show ?thesis
    using rc fits sent parse_unwords(2) [OF words]
    by (auto simp: respond_def too_long_response_def)
qed

theorem edgectl_command_arrives_witness:
  "let os = \<lparr>eo_socket = (3, 0), eo_connect = None, eo_send = [2, 100], eo_send_errno = 0,
             eo_recv = ''ok'', eo_recv_errno = 0, eo_strerror = (\<lambda>_. [])\<rparr>;
       request = ''status'' @ [CHR 0x0A]
   in (\<exists>r t. edgectl_main os ''/tmp/s'' [''status''] \<lparr>ft_open = {}, ft_bad_closes = 0\<rparr> = Some (r, t) \<and>
        er_sent r = request) \<and>
      receive [] [RecvBytes ''sta'', RecvBytes (''tus'' @ [CHR 0x0A])] = Request request \<and>
      parse_command request = command_of_words [''status'']"
proof -
  let ?os = "\<lparr>eo_socket = (3, 0), eo_connect = None, eo_send = [2, 100], eo_send_errno = 0,
             eo_recv = ''ok'', eo_recv_errno = 0, eo_strerror = (\<lambda>_. [])\<rparr>"
  let ?ios = "[RecvBytes ''sta'', RecvBytes (''tus'' @ [CHR 0x0A])]"
  obtain r t where m: "edgectl_main ?os ''/tmp/s'' [''status''] \<lparr>ft_open = {}, ft_bad_closes = 0\<rparr> = Some (r, t)"
    and r: "er_exit r = 0" "er_sent r = ''status'' @ [CHR 0x0A]"
    by (simp add: edgectl_main_def add_argument_def kMaximumCommandLength_def sun_path_size_def open_fd_def
        UniqueFd_of_def fd_valid_def line_def Let_def)
  have w: "\<forall>w \<in> set [''status'']. is_word w \<and> w \<noteq> ''--socket''" by (simp add: is_word_def is_space_def)
  have ios: "pieces ?ios" "payload ?ios = er_sent r" by (simp_all add: pieces_def r(2))
  have "receive [] (?ios @ []) = Request (er_sent r) \<and> parse_command (er_sent r) = command_of_words [''status'']"
    using edgectl_command_arrives [OF w _ m r(1) ios, of "[]"] by (simp add: kMaximumCommandLength_def)
  then show ?thesis using m r(2) by (simp add: Let_def)
qed

end
